(* ===== verification/Prelude.thy ===== *)
theory Prelude
  imports "HOL-Library.Word"
begin

text \<open>
  Shared vocabulary of the development: the integer types of the kernel headers as words of
  their C widths, the two halves of a \<open>LARGE_INTEGER\<close>, the fact collections the component
  proofs draw on, and the generic lemmas on lists and words that several components use.
\<close>

unbundle bit_operations_syntax

section \<open>Integer types of the kernel headers\<close>

type_synonym UCHAR = "8 word"
type_synonym SCHAR = "8 word"
type_synonym CSHORT = "16 word"
type_synonym LONG = "32 word"
type_synonym ULONG = "32 word"
type_synonym NTSTATUS = "32 word"
type_synonym LARGE_INTEGER = "64 word"
type_synonym ULONG_PTR = "64 word"

text \<open>
  The signed reading of a word is \<^const>\<open>sint\<close>, the unsigned one \<^const>\<open>uint\<close> or
  \<^const>\<open>unat\<close>; every comparison of the source is written with the reading its C type has.
\<close>

definition LowPart :: "LARGE_INTEGER \<Rightarrow> ULONG" where
  "LowPart x = ucast x"

definition HighPart :: "LARGE_INTEGER \<Rightarrow> LONG" where
  "HighPart x = ucast (drop_bit 32 x)"

section \<open>Fact collections\<close>

named_theorems word_views "readings of word operations as natural numbers or integers"

section \<open>Words\<close>

lemma unat_div_word [word_views]: "unat (a div b) = unat a div unat b"
  for a b :: "'a::len word"
  by (rule unat_div_distrib)

lemma unat_mod_word [word_views]: "unat (a mod b) = unat a mod unat b"
  for a b :: "'a::len word"
  by (rule unat_mod_distrib)

lemma unat_add_small [word_views]:
  "unat a + unat b < 2 ^ LENGTH('a) \<Longrightarrow> unat (a + b) = unat a + unat b"
  for a b :: "'a::len word"
  by (simp add: unat_word_ariths)

lemma unat_mult_small [word_views]:
  "unat a * unat b < 2 ^ LENGTH('a) \<Longrightarrow> unat (a * b) = unat a * unat b"
  for a b :: "'a::len word"
  by (simp add: unat_word_ariths)

lemma unat_sub_small [word_views]: "unat b \<le> unat a \<Longrightarrow> unat (a - b) = unat a - unat b"
  for a b :: "'a::len word"
  by (simp add: unat_sub word_le_nat_alt)

lemma unat_bound: "unat w < 2 ^ LENGTH('a)" for w :: "'a::len word"
  by (rule unsigned_less)

lemma sint_cases:
  "sint w = (if uint w < 2 ^ (LENGTH('a) - 1) then uint w else uint w - 2 ^ LENGTH('a))"
  for w :: "'a::len word"
proof -
  have len: "(2::int) ^ LENGTH('a) = 2 * 2 ^ (LENGTH('a) - 1)"
    by (simp flip: power_Suc)
  have u: "uint w = sint w mod 2 ^ LENGTH('a)"
    by (simp add: uint_sint take_bit_eq_mod)
  have b: "- (2 ^ (LENGTH('a) - 1)) \<le> sint w" "sint w < 2 ^ (LENGTH('a) - 1)"
    by (rule sint_ge, rule sint_lt)
  show ?thesis
  proof (cases "0 \<le> sint w")
    case True
    then have "uint w = sint w" using u b len by (simp add: mod_pos_pos_trivial)
    then show ?thesis using b by simp
  next
    case False
    then have "sint w mod 2 ^ LENGTH('a) = (sint w + 2 ^ LENGTH('a)) mod 2 ^ LENGTH('a)" by simp
    also have "\<dots> = sint w + 2 ^ LENGTH('a)" using False b len by (intro mod_pos_pos_trivial) auto
    finally show ?thesis using u b len by simp
  qed
qed

lemma sint_nonneg_unat:
  "0 \<le> sint w \<longleftrightarrow> unat w < 2 ^ (LENGTH('a) - 1)" for w :: "'a::len word"
proof -
  have bound: "uint w < 2 ^ LENGTH('a)" by (rule unsigned_less)
  have "0 \<le> sint w \<longleftrightarrow> uint w < 2 ^ (LENGTH('a) - 1)"
  proof (cases "uint w < 2 ^ (LENGTH('a) - 1)")
    case False
    then have "sint w = uint w - 2 ^ LENGTH('a)" by (simp add: sint_cases)
    with False bound show ?thesis by linarith
  qed (simp add: sint_cases)
  also have "\<dots> \<longleftrightarrow> int (unat w) < int (2 ^ (LENGTH('a) - 1))" by simp
  finally show ?thesis by (simp only: of_nat_less_iff)
qed

lemma sint_eq_unat: "unat w < 2 ^ (LENGTH('a) - 1) \<Longrightarrow> sint w = int (unat w)" for w :: "'a::len word"
proof -
  assume "unat w < 2 ^ (LENGTH('a) - 1)"
  then have "int (unat w) < int (2 ^ (LENGTH('a) - 1))" by (simp only: of_nat_less_iff)
  then show ?thesis by (simp add: sint_cases)
qed

lemma sint_neg_unat:
  "\<not> unat w < 2 ^ (LENGTH('a) - 1) \<Longrightarrow> sint w = int (unat w) - 2 ^ LENGTH('a)" for w :: "'a::len word"
proof -
  assume "\<not> unat w < 2 ^ (LENGTH('a) - 1)"
  then have "\<not> int (unat w) < int (2 ^ (LENGTH('a) - 1))" by (metis of_nat_less_iff)
  then show ?thesis by (simp add: sint_cases)
qed

lemma unat_uminus: "w \<noteq> 0 \<Longrightarrow> unat (- w) = 2 ^ LENGTH('a) - unat w" for w :: "'a::len word"
proof -
  assume "w \<noteq> 0"
  then have w: "0 < unat w" "unat w < 2 ^ LENGTH('a)"
    by (simp_all add: unat_gt_0 unat_bound)
  have "- w = word_of_nat (2 ^ LENGTH('a) - unat w)"
    using w by (subst of_nat_diff) (simp_all add: less_imp_le)
  then have "unat (- w) = (2 ^ LENGTH('a) - unat w) mod 2 ^ LENGTH('a)" by (simp only: unat_of_nat)
  also have "\<dots> = 2 ^ LENGTH('a) - unat w" using w(1) by (intro mod_less) simp
  finally show ?thesis .
qed

lemma unat_ucast_mod: "unat (ucast w :: 'b::len word) = unat w mod 2 ^ LENGTH('b)"
  for w :: "'a::len word"
  by (simp add: unsigned_ucast_eq take_bit_eq_mod)

lemma unat_ucast_small [word_views]:
  "unat w < 2 ^ LENGTH('b) \<Longrightarrow> unat (ucast w :: 'b::len word) = unat w" for w :: "'a::len word"
  by (simp add: unat_ucast_mod)

lemma scast_small:
  "unat w < 2 ^ (LENGTH('a) - 1) \<Longrightarrow> (scast w :: 'b::len word) = ucast w"
  for w :: "'a::len word"
proof -
  assume "unat w < 2 ^ (LENGTH('a) - 1)"
  then have "sint w = uint w" using sint_eq_unat [of w] by simp
  then show ?thesis by (simp only: scast_eq ucast_eq)
qed

lemma unat_scast_small [word_views]:
  "unat w < 2 ^ (LENGTH('a) - 1) \<Longrightarrow> unat w < 2 ^ LENGTH('b) \<Longrightarrow>
   unat (scast w :: 'b::len word) = unat w" for w :: "'a::len word"
  by (simp add: scast_small unat_ucast_small)

lemma word_eqI_unat: "unat a = unat b \<Longrightarrow> a = b" for a b :: "'a::len word"
  by (simp add: word_unat_eq_iff)

lemma unat_of_sint: "sint w = int n \<Longrightarrow> unat w = n" for w :: "'a::len word"
proof -
  assume "sint w = int n"
  moreover from this have "unat w < 2 ^ (LENGTH('a) - 1)" using sint_nonneg_unat [of w] by simp
  ultimately have "int (unat w) = int n" by (simp only: sint_eq_unat)
  then show ?thesis by (simp only: of_nat_eq_iff)
qed

section \<open>Lists\<close>

lemma butlast_snoc_Cons [simp]: "butlast (xs @ [y, z]) = xs @ [y]"
  by (simp add: butlast_append)

section \<open>Transition systems and their invariants\<close>

text \<open>
  The contract between a state machine and a property of its states: the property holds at
  every start and no step loses it.  The components that are state machines interpret the
  locale on their own step relation.
\<close>

locale invariant_system =
  fixes start :: "'s \<Rightarrow> bool"
    and step :: "'s \<Rightarrow> 's \<Rightarrow> bool"
    and inv :: "'s \<Rightarrow> bool"
  assumes start_inv: "start s \<Longrightarrow> inv s"
    and step_inv: "inv s \<Longrightarrow> step s t \<Longrightarrow> inv t"
begin

lemma steps_inv: "step\<^sup>*\<^sup>* s t \<Longrightarrow> inv s \<Longrightarrow> inv t"
  by (induction rule: rtranclp_induct) (auto intro: step_inv)

lemma reachable_inv: "start s \<Longrightarrow> step\<^sup>*\<^sup>* s t \<Longrightarrow> inv t"
  by (rule steps_inv [OF _ start_inv])

end

end
