(* ===== verification/ListEntry.thy ===== *)
theory ListEntry
  imports Prelude
begin

text \<open>
  The doubly linked list package of the run-time library (the inline functions on
  \<open>LIST_ENTRY\<close> in \<open>src/sdk/sdk/inc/ntrtl.h\<close>): an explicit store of forward and backward
  links, the functions as updates of the store, the predicate \<open>dll\<close> that a list head anchors
  a given sequence of entries, and the contract the callers rely on, stated as the locale
  \<open>list_package\<close> and discharged for the store.  The other components use the package only
  through that contract.
\<close>

section \<open>Links and operations\<close>

type_synonym PLIST_ENTRY = "64 word"

record links =
  Flink :: "PLIST_ENTRY \<Rightarrow> PLIST_ENTRY"
  Blink :: "PLIST_ENTRY \<Rightarrow> PLIST_ENTRY"

definition set_Flink :: "PLIST_ENTRY \<Rightarrow> PLIST_ENTRY \<Rightarrow> 'x links_scheme \<Rightarrow> 'x links_scheme" where
  "set_Flink a v h = h\<lparr>Flink := (Flink h)(a := v)\<rparr>"

definition set_Blink :: "PLIST_ENTRY \<Rightarrow> PLIST_ENTRY \<Rightarrow> 'x links_scheme \<Rightarrow> 'x links_scheme" where
  "set_Blink a v h = h\<lparr>Blink := (Blink h)(a := v)\<rparr>"

definition InitializeListHead :: "PLIST_ENTRY \<Rightarrow> 'x links_scheme \<Rightarrow> 'x links_scheme" where
  "InitializeListHead ListHead h = set_Flink ListHead ListHead (set_Blink ListHead ListHead h)"

definition IsListEmpty :: "PLIST_ENTRY \<Rightarrow> 'x links_scheme \<Rightarrow> bool" where
  "IsListEmpty ListHead h = (Flink h ListHead = ListHead)"

definition RemoveEntryList :: "PLIST_ENTRY \<Rightarrow> 'x links_scheme \<Rightarrow> bool \<times> 'x links_scheme" where
  "RemoveEntryList Entry h =
     (let f = Flink h Entry;
          b = Blink h Entry;
          h1 = set_Flink b f h;
          h2 = set_Blink f b h1
      in (f = b, h2))"

definition RemoveHeadList :: "PLIST_ENTRY \<Rightarrow> 'x links_scheme \<Rightarrow> PLIST_ENTRY \<times> 'x links_scheme" where
  "RemoveHeadList ListHead h =
     (let Entry = Flink h ListHead;
          f = Flink h Entry;
          h1 = set_Flink ListHead f h;
          h2 = set_Blink f ListHead h1
      in (Entry, h2))"

definition RemoveTailList :: "PLIST_ENTRY \<Rightarrow> 'x links_scheme \<Rightarrow> PLIST_ENTRY \<times> 'x links_scheme" where
  "RemoveTailList ListHead h =
     (let Entry = Blink h ListHead;
          b = Blink h Entry;
          h1 = set_Blink ListHead b h;
          h2 = set_Flink b ListHead h1
      in (Entry, h2))"

definition InsertTailList :: "PLIST_ENTRY \<Rightarrow> PLIST_ENTRY \<Rightarrow> 'x links_scheme \<Rightarrow> 'x links_scheme" where
  "InsertTailList ListHead Entry h =
     (let b = Blink h ListHead;
          h1 = set_Flink Entry ListHead h;
          h2 = set_Blink Entry b h1;
          h3 = set_Flink b Entry h2
      in set_Blink ListHead Entry h3)"

definition InsertHeadList :: "PLIST_ENTRY \<Rightarrow> PLIST_ENTRY \<Rightarrow> 'x links_scheme \<Rightarrow> 'x links_scheme" where
  "InsertHeadList ListHead Entry h =
     (let f = Flink h ListHead;
          h1 = set_Flink Entry f h;
          h2 = set_Blink Entry ListHead h1;
          h3 = set_Blink f Entry h2
      in set_Flink ListHead Entry h3)"

section \<open>The sequence a list head anchors\<close>

fun linked :: "'x links_scheme \<Rightarrow> PLIST_ENTRY list \<Rightarrow> bool" where
  "linked h (a # b # r) \<longleftrightarrow> Flink h a = b \<and> Blink h b = a \<and> linked h (b # r)"
| "linked h _ \<longleftrightarrow> True"

definition dll :: "'x links_scheme \<Rightarrow> PLIST_ENTRY \<Rightarrow> PLIST_ENTRY list \<Rightarrow> bool" where
  "dll h l xs \<longleftrightarrow> distinct (l # xs) \<and> linked h (l # xs @ [l])"

lemma set_links_sel [simp]:
  "Flink (set_Flink a v h) = (Flink h)(a := v)" "Blink (set_Flink a v h) = Blink h"
  "Blink (set_Blink a v h) = (Blink h)(a := v)" "Flink (set_Blink a v h) = Flink h"
  by (simp_all add: set_Flink_def set_Blink_def)

lemma linked_append:
  "linked h (xs @ a # ys) \<longleftrightarrow> linked h (xs @ [a]) \<and> linked h (a # ys)"
proof (induction xs)
  case (Cons x xs)
  then show ?case by (cases xs) auto
qed simp

lemma linked_cong:
  assumes "\<And>x. x \<in> set (butlast ys) \<Longrightarrow> Flink h x = Flink h' x"
    and "\<And>x. x \<in> set (tl ys) \<Longrightarrow> Blink h x = Blink h' x"
  shows "linked h ys = linked h' ys"
  using assms
proof (induction h ys rule: linked.induct)
  case (1 h a b r)
  then show ?case by (cases r) auto
qed auto

lemma dll_frame:
  assumes "dll h l xs"
    and "\<And>x. x \<in> set (l # xs) \<Longrightarrow> Flink h' x = Flink h x"
    and "\<And>x. x \<in> set (l # xs) \<Longrightarrow> Blink h' x = Blink h x"
  shows "dll h' l xs"
proof -
  have "linked h' (l # xs @ [l]) = linked h (l # xs @ [l])"
    by (rule linked_cong) (use assms in \<open>auto simp: butlast_append\<close>)
  with assms(1) show ?thesis by (simp add: dll_def)
qed

lemma linked_ends:
  "linked h (l # xs @ [r]) \<Longrightarrow> Flink h l = hd (xs @ [r]) \<and> Blink h r = last (l # xs)"
proof (induction xs arbitrary: l)
  case (Cons x xs)
  then show ?case by (cases xs) auto
qed simp

lemma dll_Flink_mid: "dll h l (xs @ x # ys) \<Longrightarrow> Flink h x = hd (ys @ [l])"
  using linked_append [of h "l # xs" x "ys @ [l]"] linked_ends [of h x ys l]
  by (simp add: dll_def)

lemma dll_Blink_mid: "dll h l (xs @ x # ys) \<Longrightarrow> Blink h x = last (l # xs)"
  using linked_append [of h "l # xs" x "ys @ [l]"] linked_ends [of h l xs x]
  by (simp add: dll_def)

lemma dll_head: "dll h l xs \<Longrightarrow> Flink h l = hd (xs @ [l]) \<and> Blink h l = last (l # xs)"
  by (rule linked_ends) (simp add: dll_def)

lemma dll_distinct: "dll h l xs \<Longrightarrow> distinct xs \<and> l \<notin> set xs"
  by (simp add: dll_def)

section \<open>The operations act on the sequence\<close>

lemma linked_insert:
  assumes "linked h (us @ a # b # vs)"
    and "e \<notin> set (us @ a # b # vs)"
    and "a \<notin> set us" "a \<notin> set (butlast (b # vs))"
    and "b \<notin> set (tl (us @ [a]))" "b \<notin> set vs"
    and "Flink h' = (Flink h)(e := b, a := e)" "Blink h' = (Blink h)(e := a, b := e)"
  shows "linked h' (us @ a # e # b # vs)"
proof -
  have "linked h (us @ [a])" and "linked h (b # vs)"
    using assms(1) linked_append [of h us a "b # vs"] by auto
  moreover have "linked h' (us @ [a]) = linked h (us @ [a])"
    by (rule linked_cong)
      (use assms in \<open>auto simp: butlast_append dest: list.set_sel(2) [rotated]\<close>)
  moreover have "linked h' (b # vs) = linked h (b # vs)"
    by (rule linked_cong) (use assms in \<open>auto dest: in_set_butlastD split: if_splits\<close>)
  moreover have "a \<noteq> e" and "b \<noteq> e" using assms(2) by auto
  ultimately show ?thesis
    using assms(7,8) linked_append [of h' us a "e # b # vs"] by auto
qed

lemma linked_remove:
  assumes "linked h (us @ a # e # b # vs)"
    and "a \<notin> set us" "a \<notin> set (butlast (b # vs))"
    and "b \<notin> set (tl (us @ [a]))" "b \<notin> set vs"
    and "Flink h' = (Flink h)(a := b)" "Blink h' = (Blink h)(b := a)"
  shows "linked h' (us @ a # b # vs)"
proof -
  have "linked h (us @ [a])" and "linked h (b # vs)"
    using assms(1) linked_append [of h us a "e # b # vs"] by auto
  moreover have "linked h' (us @ [a]) = linked h (us @ [a])"
    by (rule linked_cong)
      (use assms in \<open>auto simp: butlast_append dest: list.set_sel(2) [rotated]\<close>)
  moreover have "linked h' (b # vs) = linked h (b # vs)"
    by (rule linked_cong) (use assms in \<open>auto dest: in_set_butlastD\<close>)
  ultimately show ?thesis
    using assms(6,7) linked_append [of h' us a "b # vs"] by auto
qed

text \<open>
  Every insertion puts an entry between two neighbours of the cycle, and every removal joins
  the neighbours of an entry.  The cycle is the head, the entries and the head again; the
  neighbours are the last element of \<open>l # xs\<close> and the first one of \<open>ys @ [l]\<close>.
\<close>

lemma cycle_split:
  "butlast (l # xs) @ last (l # xs) # zs @ hd (ys @ [l]) # tl (ys @ [l]) = l # (xs @ zs @ ys) @ [l]"
  by (cases ys; cases xs rule: rev_cases) auto

lemmas cycle_split_Nil = cycle_split [where zs = "[]", simplified append.left_neutral]
lemmas cycle_split_one = cycle_split [where zs = "[e]" for e, simplified append.simps]

lemma dll_insert_between:
  assumes d: "dll h l (xs @ ys)" and e: "e \<notin> set (l # xs @ ys)"
    and links: "Flink h' = (Flink h)(e := hd (ys @ [l]), last (l # xs) := e)"
      "Blink h' = (Blink h)(e := last (l # xs), hd (ys @ [l]) := e)"
  shows "dll h' l (xs @ e # ys)"
proof -
  have dist: "distinct (l # xs @ ys)" using d by (simp add: dll_def)
  have "linked h (butlast (l # xs) @ last (l # xs) # hd (ys @ [l]) # tl (ys @ [l]))"
    unfolding cycle_split_Nil using d by (simp add: dll_def)
  then have "linked h' (butlast (l # xs) @ last (l # xs) # e # hd (ys @ [l]) # tl (ys @ [l]))"
    by (rule linked_insert [OF _ _ _ _ _ _ links])
      (use dist e in \<open>cases ys; cases xs rule: rev_cases; auto simp: butlast_append\<close>)+
  then show ?thesis using dist e unfolding cycle_split_one by (auto simp: dll_def)
qed

lemma dll_remove_between:
  assumes d: "dll h l (xs @ e # ys)"
    and links: "Flink h' = (Flink h)(last (l # xs) := hd (ys @ [l]))"
      "Blink h' = (Blink h)(hd (ys @ [l]) := last (l # xs))"
  shows "dll h' l (xs @ ys)"
proof -
  have dist: "distinct (l # xs @ e # ys)" using d by (simp add: dll_def)
  have "linked h (butlast (l # xs) @ last (l # xs) # e # hd (ys @ [l]) # tl (ys @ [l]))"
    unfolding cycle_split_one using d by (simp add: dll_def)
  then have "linked h' (butlast (l # xs) @ last (l # xs) # hd (ys @ [l]) # tl (ys @ [l]))"
    by (rule linked_remove [OF _ _ _ _ _ links])
      (use dist in \<open>cases ys; cases xs rule: rev_cases; auto simp: butlast_append\<close>)+
  then show ?thesis using dist unfolding cycle_split_Nil by (simp add: dll_def)
qed

lemma dll_InitializeListHead: "dll (InitializeListHead l h) l []"
  by (simp add: dll_def InitializeListHead_def)

lemma dll_IsListEmpty: "dll h l xs \<Longrightarrow> IsListEmpty l h \<longleftrightarrow> xs = []"
  using dll_head [of h l xs] dll_distinct [of h l xs]
  by (cases xs) (auto simp: IsListEmpty_def)

lemma dll_insert_before:
  assumes "dll h l (xs @ ys)" and "e \<notin> set (l # xs @ ys)" and "n = hd (ys @ [l])"
  shows "dll (InsertTailList n e h) l (xs @ e # ys)"
proof -
  have "Blink h n = last (l # xs)"
    using assms(1,3) dll_head [of h l "xs @ ys"] dll_Blink_mid [of h l xs n "tl ys"]
    by (cases ys) auto
  then show ?thesis
    using assms by (intro dll_insert_between [OF assms(1,2)])
      (auto simp: InsertTailList_def Let_def fun_upd_twist)
qed

lemma dll_insert_after:
  assumes "dll h l (xs @ ys)" and "e \<notin> set (l # xs @ ys)" and "p = last (l # xs)"
  shows "dll (InsertHeadList p e h) l (xs @ e # ys)"
proof -
  have "Flink h p = hd (ys @ [l])"
    using assms(1,3) dll_head [of h l "xs @ ys"] dll_Flink_mid [of h l "butlast xs" p ys]
    by (cases xs rule: rev_cases) auto
  then show ?thesis
    using assms by (intro dll_insert_between [OF assms(1,2)])
      (auto simp: InsertHeadList_def Let_def fun_upd_twist)
qed

lemma dll_RemoveEntryList:
  assumes "dll h l (xs @ e # ys)"
  shows "dll (snd (RemoveEntryList e h)) l (xs @ ys)"
    and "fst (RemoveEntryList e h) \<longleftrightarrow> xs @ ys = []"
proof -
  have fb: "Flink h e = hd (ys @ [l])" "Blink h e = last (l # xs)"
    using assms by (rule dll_Flink_mid, rule dll_Blink_mid)
  then show "dll (snd (RemoveEntryList e h)) l (xs @ ys)"
    by (intro dll_remove_between [OF assms]) (simp_all add: RemoveEntryList_def Let_def)
  show "fst (RemoveEntryList e h) \<longleftrightarrow> xs @ ys = []"
    using fb dll_distinct [OF assms]
    by (cases ys; cases xs rule: rev_cases) (auto simp: RemoveEntryList_def Let_def)
qed

lemma dll_RemoveHeadList:
  assumes "dll h l (e # ys)"
  shows "fst (RemoveHeadList l h) = e" and "dll (snd (RemoveHeadList l h)) l ys"
proof -
  have fb: "Flink h e = hd (ys @ [l])" "Flink h l = e"
    using assms dll_Flink_mid [of h l "[]" e ys] dll_head [of h l "e # ys"] by auto
  then show "fst (RemoveHeadList l h) = e"
    by (simp add: RemoveHeadList_def Let_def)
  show "dll (snd (RemoveHeadList l h)) l ys"
    using fb dll_remove_between [of h l "[]" e ys "snd (RemoveHeadList l h)"] assms
    by (simp add: RemoveHeadList_def Let_def)
qed

lemma dll_RemoveTailList:
  assumes "dll h l (xs @ [e])"
  shows "fst (RemoveTailList l h) = e" and "dll (snd (RemoveTailList l h)) l xs"
proof -
  have fb: "Blink h e = last (l # xs)" "Blink h l = e"
    using assms dll_Blink_mid [of h l xs e "[]"] dll_head [of h l "xs @ [e]"] by auto
  then show "fst (RemoveTailList l h) = e"
    by (simp add: RemoveTailList_def Let_def)
  show "dll (snd (RemoveTailList l h)) l xs"
    using fb dll_remove_between [of h l xs e "[]" "snd (RemoveTailList l h)"] assms
    by (simp add: RemoveTailList_def Let_def)
qed

section \<open>The contract of the package\<close>

text \<open>
  What the callers of the package rely on: \<open>is_list h l xs\<close> says that head \<open>l\<close> anchors the
  entries \<open>xs\<close> in store \<open>h\<close>.  Insertion at an entry other than the head puts the new entry
  before it, which is how sorted insertion uses \<open>InsertTailList\<close>.
\<close>

locale list_package =
  fixes is_list :: "'h \<Rightarrow> 'a \<Rightarrow> 'a list \<Rightarrow> bool"
    and nxt :: "'h \<Rightarrow> 'a \<Rightarrow> 'a"
    and prv :: "'h \<Rightarrow> 'a \<Rightarrow> 'a"
    and empty_test :: "'a \<Rightarrow> 'h \<Rightarrow> bool"
    and insert_before :: "'a \<Rightarrow> 'a \<Rightarrow> 'h \<Rightarrow> 'h"
    and insert_after :: "'a \<Rightarrow> 'a \<Rightarrow> 'h \<Rightarrow> 'h"
    and remove_entry :: "'a \<Rightarrow> 'h \<Rightarrow> bool \<times> 'h"
    and remove_head :: "'a \<Rightarrow> 'h \<Rightarrow> 'a \<times> 'h"
    and remove_tail :: "'a \<Rightarrow> 'h \<Rightarrow> 'a \<times> 'h"
  assumes dist: "is_list h l xs \<Longrightarrow> distinct (l # xs)"
    and nxt_head: "is_list h l xs \<Longrightarrow> nxt h l = hd (xs @ [l])"
    and prv_head: "is_list h l xs \<Longrightarrow> prv h l = last (l # xs)"
    and nxt_mid: "is_list h l (xs @ x # ys) \<Longrightarrow> nxt h x = hd (ys @ [l])"
    and prv_mid: "is_list h l (xs @ x # ys) \<Longrightarrow> prv h x = last (l # xs)"
    and empty_iff: "is_list h l xs \<Longrightarrow> empty_test l h \<longleftrightarrow> xs = []"
    and insert_before: "is_list h l (xs @ ys) \<Longrightarrow> e \<notin> set (l # xs @ ys) \<Longrightarrow>
      n = hd (ys @ [l]) \<Longrightarrow> is_list (insert_before n e h) l (xs @ e # ys)"
    and insert_after: "is_list h l (xs @ ys) \<Longrightarrow> e \<notin> set (l # xs @ ys) \<Longrightarrow>
      p = last (l # xs) \<Longrightarrow> is_list (insert_after p e h) l (xs @ e # ys)"
    and remove_entry: "is_list h l (xs @ e # ys) \<Longrightarrow> is_list (snd (remove_entry e h)) l (xs @ ys)"
    and remove_entry_last: "is_list h l (xs @ e # ys) \<Longrightarrow> fst (remove_entry e h) \<longleftrightarrow> xs @ ys = []"
    and remove_head: "is_list h l (e # ys) \<Longrightarrow>
      fst (remove_head l h) = e \<and> is_list (snd (remove_head l h)) l ys"
    and remove_tail: "is_list h l (xs @ [e]) \<Longrightarrow>
      fst (remove_tail l h) = e \<and> is_list (snd (remove_tail l h)) l xs"
begin

lemma insert_tail:
  assumes "is_list h l xs" "e \<notin> set (l # xs)"
  shows "is_list (insert_before l e h) l (xs @ [e])"
  using insert_before [of h l xs "[]" e l] assms by simp

lemma insert_head:
  assumes "is_list h l xs" "e \<notin> set (l # xs)"
  shows "is_list (insert_after l e h) l (e # xs)"
  using insert_after [of h l "[]" xs e l] assms by simp

lemma insert_after_last:
  assumes "is_list h l xs" "e \<notin> set (l # xs)"
  shows "is_list (insert_after (prv h l) e h) l (xs @ [e])"
  using insert_after [of h l xs "[]" e "prv h l"] assms prv_head [of h l xs] by simp

lemma remove_member:
  assumes "is_list h l xs" "e \<in> set xs"
  shows "is_list (snd (remove_entry e h)) l (remove1 e xs)"
proof -
  obtain us vs where xs: "xs = us @ e # vs" and "e \<notin> set us"
    using split_list_first [OF assms(2)] by blast
  then show ?thesis
    using remove_entry [of h l us e vs] assms(1) by (simp add: remove1_append)
qed

lemma last_nonempty: "is_list h l xs \<Longrightarrow> xs \<noteq> [] \<Longrightarrow> prv h l = last xs"
  using prv_head [of h l xs] by simp

lemma first_nonempty: "is_list h l xs \<Longrightarrow> xs \<noteq> [] \<Longrightarrow> nxt h l = hd xs"
  using nxt_head [of h l xs] by simp

text \<open>A tail insertion followed by a head removal serves the oldest entry.\<close>

lemma fifo:
  assumes "is_list h l xs" "e \<notin> set (l # xs)"
  shows "fst (remove_head l (insert_before l e h)) = hd (xs @ [e])
    \<and> is_list (snd (remove_head l (insert_before l e h))) l (tl (xs @ [e]))"
  using remove_head [of "insert_before l e h" l "hd (xs @ [e])" "tl (xs @ [e])"]
    insert_tail [OF assms] by (cases xs) auto

text \<open>A tail insertion followed by a removal of the same entry restores the sequence.\<close>

lemma insert_remove:
  assumes "is_list h l xs" "e \<notin> set (l # xs)"
  shows "is_list (snd (remove_entry e (insert_before l e h))) l xs"
  using remove_entry [of "insert_before l e h" l xs e "[]"] insert_tail [OF assms] by simp

end

interpretation le: list_package
  "dll :: 'x links_scheme \<Rightarrow> _" Flink Blink IsListEmpty InsertTailList InsertHeadList
  RemoveEntryList RemoveHeadList RemoveTailList
proof (unfold_locales, goal_cases)
  case (1 h l xs) then show ?case by (simp add: dll_def)
next
  case (2 h l xs) then show ?case by (simp add: dll_head)
next
  case (3 h l xs) then show ?case using dll_head by blast
next
  case (4 h l xs x ys) then show ?case by (rule dll_Flink_mid)
next
  case (5 h l xs x ys) then show ?case by (rule dll_Blink_mid)
next
  case (6 h l xs) then show ?case by (rule dll_IsListEmpty)
next
  case (7 h l xs ys e n) then show ?case by (rule dll_insert_before)
next
  case (8 h l xs ys e p) then show ?case by (rule dll_insert_after)
next
  case (9 h l xs e ys) then show ?case by (rule dll_RemoveEntryList)
next
  case (10 h l xs e ys) then show ?case by (rule dll_RemoveEntryList)
next
  case (11 h l e ys) then show ?case using dll_RemoveHeadList by blast
next
  case (12 h l xs e) then show ?case using dll_RemoveTailList by blast
qed

end
