(* ===== verification/DeviceQueue.thy ===== *)
theory DeviceQueue
  imports ListEntry "HOL-Library.Multiset" "HOL-Library.Monad_Syntax"
begin

text \<open>
  The kernel device queue object (\<open>src/ntoskrnl/ke/devquobj.c\<close>), in the AMD64 configuration
  that keeps a search hint.  The model is at the level of the code: the list links are the store
  of \<open>ListEntry\<close>, extended with the fields of the queue and of its entries, and the
  searches follow \<open>Flink\<close>; a search that leaves the list has no result.  Each function
  body runs under the queue's spin lock and is one transition of the store.  The lemmas relate
  the store to the sequence of entries, show that every operation keeps the relation, and
  compare the searches with the documented ones.
\<close>

section \<open>State\<close>

type_synonym PKDEVICE_QUEUE = "64 word"
type_synonym PKDEVICE_QUEUE_ENTRY = "64 word"

text \<open>
  \<open>DeviceListEntry\<close> is the first field of an entry, so an entry and its list link have the
  same address.  \<open>Busy\<close> and \<open>Hint\<close> are disjoint bits of one 64-bit cell of the queue.
\<close>

record devmem = links +
  SortKey :: "PKDEVICE_QUEUE_ENTRY \<Rightarrow> ULONG"
  Inserted :: "PKDEVICE_QUEUE_ENTRY \<Rightarrow> bool"
  DqType :: "PKDEVICE_QUEUE \<Rightarrow> CSHORT"
  DqSize :: "PKDEVICE_QUEUE \<Rightarrow> CSHORT"
  Lock :: "PKDEVICE_QUEUE \<Rightarrow> ULONG_PTR"
  Busy :: "PKDEVICE_QUEUE \<Rightarrow> bool"
  Hint :: "PKDEVICE_QUEUE \<Rightarrow> 56 word"

definition DeviceListHead :: "PKDEVICE_QUEUE \<Rightarrow> PLIST_ENTRY" where
  "DeviceListHead q = q + 8"

definition DeviceQueueObject :: CSHORT where
  "DeviceQueueObject = 20"

definition sizeof_KDEVICE_QUEUE :: CSHORT where
  "sizeof_KDEVICE_QUEUE = 40"

section \<open>Operations\<close>

definition KiGetDeviceQueueKeyHint :: "PKDEVICE_QUEUE \<Rightarrow> devmem \<Rightarrow> PKDEVICE_QUEUE_ENTRY" where
  "KiGetDeviceQueueKeyHint q s = scast (Hint s q)"

definition KiSetDeviceQueueKeyHint ::
  "PKDEVICE_QUEUE \<Rightarrow> PKDEVICE_QUEUE_ENTRY \<Rightarrow> devmem \<Rightarrow> devmem" where
  "KiSetDeviceQueueKeyHint q e s = s\<lparr>Hint := (Hint s)(q := ucast e)\<rparr>"

definition KiInvalidateDeviceQueueKeyHint ::
  "PKDEVICE_QUEUE \<Rightarrow> PKDEVICE_QUEUE_ENTRY \<Rightarrow> devmem \<Rightarrow> devmem" where
  "KiInvalidateDeviceQueueKeyHint q e s =
     (if e = KiGetDeviceQueueKeyHint q s then KiSetDeviceQueueKeyHint q 0 s else s)"

definition set_Inserted :: "PKDEVICE_QUEUE_ENTRY \<Rightarrow> bool \<Rightarrow> devmem \<Rightarrow> devmem" where
  "set_Inserted e b s = s\<lparr>Inserted := (Inserted s)(e := b)\<rparr>"

definition set_Busy :: "PKDEVICE_QUEUE \<Rightarrow> bool \<Rightarrow> devmem \<Rightarrow> devmem" where
  "set_Busy q b s = s\<lparr>Busy := (Busy s)(q := b)\<rparr>"

definition KeInitializeDeviceQueue :: "PKDEVICE_QUEUE \<Rightarrow> devmem \<Rightarrow> devmem" where
  "KeInitializeDeviceQueue q s =
     (let s1 = s\<lparr>DqType := (DqType s)(q := DeviceQueueObject),
                DqSize := (DqSize s)(q := sizeof_KDEVICE_QUEUE)\<rparr>;
          s2 = InitializeListHead (DeviceListHead q) s1;
          s3 = s2\<lparr>Lock := (Lock s2)(q := 0)\<rparr>;
          s4 = set_Busy q False s3
      in KiSetDeviceQueueKeyHint q 0 s4)"

definition KeInsertDeviceQueue ::
  "PKDEVICE_QUEUE \<Rightarrow> PKDEVICE_QUEUE_ENTRY \<Rightarrow> devmem \<Rightarrow> bool \<times> devmem" where
  "KeInsertDeviceQueue q e s =
     (let busy = Busy s q;
          s1 = set_Busy q True s
      in if busy then (True, set_Inserted e True (InsertTailList (DeviceListHead q) e s1))
         else (False, set_Inserted e False s1))"

text \<open>The forward walk to the insertion point: \<open>do \<dots> while (SortKey >= QueueEntry->SortKey)\<close>.\<close>

partial_function (option) InsertWalk ::
  "ULONG \<Rightarrow> PLIST_ENTRY \<Rightarrow> devmem \<Rightarrow> PLIST_ENTRY option" where
  "InsertWalk k n s =
     (if SortKey s (Flink s n) \<le> k then InsertWalk k (Flink s n) s else Some (Flink s n))"

definition KeInsertByKeyDeviceQueue ::
  "PKDEVICE_QUEUE \<Rightarrow> PKDEVICE_QUEUE_ENTRY \<Rightarrow> ULONG \<Rightarrow> devmem \<Rightarrow> (bool \<times> devmem) option" where
  "KeInsertByKeyDeviceQueue q e k s =
     (let s0 = s\<lparr>SortKey := (SortKey s)(e := k)\<rparr>;
          busy = Busy s0 q;
          s1 = set_Busy q True s0;
          l = DeviceListHead q
      in if busy then
           do {
             n \<leftarrow> (if \<not> IsListEmpty l s1 \<and> k < SortKey s1 (Blink s1 l)
                   then InsertWalk k l s1 else Some l);
             Some (True, set_Inserted e True (InsertTailList n e s1))
           }
         else Some (False, set_Inserted e False s1))"

definition KeRemoveDeviceQueue ::
  "PKDEVICE_QUEUE \<Rightarrow> devmem \<Rightarrow> PKDEVICE_QUEUE_ENTRY \<times> devmem" where
  "KeRemoveDeviceQueue q s =
     (let l = DeviceListHead q
      in if IsListEmpty l s then (0, set_Busy q False s)
         else (let (e, s1) = RemoveHeadList l s
               in (e, KiInvalidateDeviceQueueKeyHint q e (set_Inserted e False s1))))"

text \<open>The search loop of \<open>KeRemoveByKeyDeviceQueue\<close>, from its starting entry.\<close>

partial_function (option) RemoveWalk ::
  "ULONG \<Rightarrow> PLIST_ENTRY \<Rightarrow> devmem \<Rightarrow> PLIST_ENTRY option" where
  "RemoveWalk k n s = (if k \<le> SortKey s n then Some n else RemoveWalk k (Flink s n) s)"

definition RemoveSearch :: "PKDEVICE_QUEUE \<Rightarrow> ULONG \<Rightarrow> devmem \<Rightarrow> PLIST_ENTRY option" where
  "RemoveSearch q k s =
     (let l = DeviceListHead q;
          e = Blink s l
      in if SortKey s e \<le> k then Some (Flink s l)
         else (let h = KiGetDeviceQueueKeyHint q s
               in RemoveWalk k (if h \<noteq> 0 \<and> SortKey s h < k then h else Flink s l) s))"

definition KeRemoveByKeyDeviceQueue ::
  "PKDEVICE_QUEUE \<Rightarrow> ULONG \<Rightarrow> devmem \<Rightarrow> (PKDEVICE_QUEUE_ENTRY \<times> devmem) option" where
  "KeRemoveByKeyDeviceQueue q k s =
     (let l = DeviceListHead q
      in if IsListEmpty l s then Some (0, set_Busy q False s)
         else do {
           e \<leftarrow> RemoveSearch q k s;
           let p = Blink s e;
           let s1 = KiSetDeviceQueueKeyHint q (if p = l then 0 else p) s;
           let s2 = snd (RemoveEntryList e s1);
           Some (e, set_Inserted e False s2)
         })"

text \<open>The search loop of \<open>KeRemoveByKeyDeviceQueueIfBusy\<close> returns the final \<open>NextEntry\<close>.\<close>

partial_function (option) IfBusyWalk ::
  "ULONG \<Rightarrow> PLIST_ENTRY \<Rightarrow> PLIST_ENTRY \<Rightarrow> devmem \<Rightarrow> PLIST_ENTRY option" where
  "IfBusyWalk k l n s =
     (if n = l then Some n
      else if k \<le> SortKey s n then Some n else IfBusyWalk k l (Flink s n) s)"

definition KeRemoveByKeyDeviceQueueIfBusy ::
  "PKDEVICE_QUEUE \<Rightarrow> ULONG \<Rightarrow> devmem \<Rightarrow> (PKDEVICE_QUEUE_ENTRY \<times> devmem) option" where
  "KeRemoveByKeyDeviceQueueIfBusy q k s =
     (let l = DeviceListHead q
      in if Busy s q then
           (if IsListEmpty l s then Some (0, set_Busy q False s)
            else do {
              n \<leftarrow> IfBusyWalk k l (Flink s l) s;
              let (e, s1) = (if n \<noteq> l then (n, snd (RemoveEntryList n s)) else RemoveHeadList l s);
              Some (e, KiInvalidateDeviceQueueKeyHint q e (set_Inserted e False s1))
            })
         else Some (0, s))"

definition KeRemoveEntryDeviceQueue ::
  "PKDEVICE_QUEUE \<Rightarrow> PKDEVICE_QUEUE_ENTRY \<Rightarrow> devmem \<Rightarrow> bool \<times> devmem" where
  "KeRemoveEntryDeviceQueue q e s =
     (let removed = Inserted s e
      in if removed then
           (True, KiInvalidateDeviceQueueKeyHint q e
                    (snd (RemoveEntryList e (set_Inserted e False s))))
         else (False, s))"

section \<open>Frame facts\<close>

lemma list_ops_frame [simp]:
  "SortKey (InsertTailList n e s) = SortKey s" "Inserted (InsertTailList n e s) = Inserted s"
  "Busy (InsertTailList n e s) = Busy s" "Hint (InsertTailList n e s) = Hint s"
  "SortKey (snd (RemoveEntryList e s)) = SortKey s"
  "Inserted (snd (RemoveEntryList e s)) = Inserted s"
  "Busy (snd (RemoveEntryList e s)) = Busy s" "Hint (snd (RemoveEntryList e s)) = Hint s"
  "SortKey (snd (RemoveHeadList e s)) = SortKey s"
  "Inserted (snd (RemoveHeadList e s)) = Inserted s"
  "Busy (snd (RemoveHeadList e s)) = Busy s" "Hint (snd (RemoveHeadList e s)) = Hint s"
  "SortKey (InitializeListHead l s) = SortKey s" "Inserted (InitializeListHead l s) = Inserted s"
  "Busy (InitializeListHead l s) = Busy s" "Hint (InitializeListHead l s) = Hint s"
  "Lock (InitializeListHead l s) = Lock s"
  by (simp_all add: InsertTailList_def RemoveEntryList_def RemoveHeadList_def
      InitializeListHead_def set_Flink_def set_Blink_def Let_def)

lemma field_sets_frame [simp]:
  "Flink (set_Inserted e b s) = Flink s" "Blink (set_Inserted e b s) = Blink s"
  "SortKey (set_Inserted e b s) = SortKey s" "Busy (set_Inserted e b s) = Busy s"
  "Hint (set_Inserted e b s) = Hint s"
  "Inserted (set_Inserted e b s) = (Inserted s)(e := b)"
  "Flink (set_Busy q b s) = Flink s" "Blink (set_Busy q b s) = Blink s"
  "SortKey (set_Busy q b s) = SortKey s" "Inserted (set_Busy q b s) = Inserted s"
  "Hint (set_Busy q b s) = Hint s" "Busy (set_Busy q b s) = (Busy s)(q := b)"
  "Flink (KiSetDeviceQueueKeyHint q e s) = Flink s"
  "Blink (KiSetDeviceQueueKeyHint q e s) = Blink s"
  "SortKey (KiSetDeviceQueueKeyHint q e s) = SortKey s"
  "Inserted (KiSetDeviceQueueKeyHint q e s) = Inserted s"
  "Busy (KiSetDeviceQueueKeyHint q e s) = Busy s"
  "Hint (KiSetDeviceQueueKeyHint q e s) = (Hint s)(q := ucast e)"
  by (simp_all add: set_Inserted_def set_Busy_def KiSetDeviceQueueKeyHint_def)

lemma invalidate_frame [simp]:
  "Flink (KiInvalidateDeviceQueueKeyHint q e s) = Flink s"
  "Blink (KiInvalidateDeviceQueueKeyHint q e s) = Blink s"
  "SortKey (KiInvalidateDeviceQueueKeyHint q e s) = SortKey s"
  "Inserted (KiInvalidateDeviceQueueKeyHint q e s) = Inserted s"
  "Busy (KiInvalidateDeviceQueueKeyHint q e s) = Busy s"
  by (simp_all add: KiInvalidateDeviceQueueKeyHint_def)

lemma dll_links_cong:
  "Flink s' = Flink s \<Longrightarrow> Blink s' = Blink s \<Longrightarrow> dll s' l xs = dll s l xs"
  using linked_cong [of "l # xs @ [l]" s s'] by (simp add: dll_def)

lemma dll_field_sets [simp]:
  "dll (set_Inserted e b s) l xs = dll s l xs"
  "dll (set_Busy q b s) l xs = dll s l xs"
  "dll (KiSetDeviceQueueKeyHint q e s) l xs = dll s l xs"
  "dll (KiInvalidateDeviceQueueKeyHint q e s) l xs = dll s l xs"
  "dll (s\<lparr>SortKey := f\<rparr>) l xs = dll s l xs"
  "dll (s\<lparr>Lock := g\<rparr>) l xs = dll s l xs"
  by (rule dll_links_cong; simp)+

lemma hint_frame [simp]:
  "KiGetDeviceQueueKeyHint q (set_Inserted e b s) = KiGetDeviceQueueKeyHint q s"
  "KiGetDeviceQueueKeyHint q (set_Busy p b s) = KiGetDeviceQueueKeyHint q s"
  "KiGetDeviceQueueKeyHint q (InsertTailList n e s) = KiGetDeviceQueueKeyHint q s"
  "KiGetDeviceQueueKeyHint q (snd (RemoveEntryList e s)) = KiGetDeviceQueueKeyHint q s"
  "KiGetDeviceQueueKeyHint q (snd (RemoveHeadList e s)) = KiGetDeviceQueueKeyHint q s"
  by (simp_all add: KiGetDeviceQueueKeyHint_def)

section \<open>The sequence a queue holds\<close>

text \<open>
  A hint is stored in 56 bits and sign extended on the way back, so it comes back as it was
  exactly for an address whose upper byte repeats bit 55, as kernel addresses do.
\<close>

definition canonical :: "64 word \<Rightarrow> bool" where
  "canonical a \<longleftrightarrow> scast (ucast a :: 56 word) = a"

definition devq :: "devmem \<Rightarrow> PKDEVICE_QUEUE \<Rightarrow> PKDEVICE_QUEUE_ENTRY list \<Rightarrow> bool" where
  "devq s q xs \<longleftrightarrow> dll s (DeviceListHead q) xs
     \<and> (\<forall>e \<in> set xs. Inserted s e \<and> canonical e \<and> e \<noteq> 0)
     \<and> (KiGetDeviceQueueKeyHint q s = 0 \<or> KiGetDeviceQueueKeyHint q s \<in> set xs)
     \<and> (\<not> Busy s q \<longrightarrow> xs = [])"

definition fresh_entry :: "PKDEVICE_QUEUE \<Rightarrow> PKDEVICE_QUEUE_ENTRY list \<Rightarrow> PKDEVICE_QUEUE_ENTRY \<Rightarrow> bool"
  where "fresh_entry q xs e \<longleftrightarrow> e \<notin> set (DeviceListHead q # xs) \<and> canonical e \<and> e \<noteq> 0"

lemma hint_set [simp]:
  "KiGetDeviceQueueKeyHint q (KiSetDeviceQueueKeyHint q e s) = scast (ucast e :: 56 word)"
  by (simp add: KiGetDeviceQueueKeyHint_def)

lemma canonical_0 [simp]: "canonical 0"
  by (simp add: canonical_def)

lemma hint_invalidate:
  "KiGetDeviceQueueKeyHint q (KiInvalidateDeviceQueueKeyHint q e s) =
     (if KiGetDeviceQueueKeyHint q s = e then 0 else KiGetDeviceQueueKeyHint q s)"
  by (auto simp: KiInvalidateDeviceQueueKeyHint_def)

lemma devq_dll: "devq s q xs \<Longrightarrow> dll s (DeviceListHead q) xs"
  by (simp add: devq_def)

lemma devq_empty_iff: "devq s q xs \<Longrightarrow> IsListEmpty (DeviceListHead q) s \<longleftrightarrow> xs = []"
  by (rule le.empty_iff [OF devq_dll])

section \<open>The searches\<close>

lemma InsertWalk_find:
  assumes "dll s l (us @ vs)" "n = last (l # us)" "\<exists>v \<in> set vs. k < SortKey s v"
  shows "InsertWalk k n s = find (\<lambda>e. k < SortKey s e) vs"
  using assms
proof (induction vs arbitrary: us n)
  case (Cons v vs)
  have nxt: "Flink s n = v"
    using Cons.prems(1,2) le.nxt_head [of s l "us @ v # vs"] le.nxt_mid [of s l "butlast us" n "v # vs"]
    by (cases us rule: rev_cases) auto
  show ?case
  proof (cases "k < SortKey s v")
    case False
    then have "InsertWalk k v s = find (\<lambda>e. k < SortKey s e) vs"
      using Cons.prems by (intro Cons.IH [of "us @ [v]"]) auto
    with False nxt show ?thesis by (subst InsertWalk.simps) auto
  qed (use nxt in \<open>subst InsertWalk.simps, auto\<close>)
qed simp

lemma RemoveWalk_find:
  assumes "dll s l (us @ vs)" "\<exists>v \<in> set vs. k \<le> SortKey s v"
  shows "RemoveWalk k (hd vs) s = find (\<lambda>e. k \<le> SortKey s e) vs"
  using assms
proof (induction vs arbitrary: us)
  case (Cons v vs)
  show ?case
  proof (cases "k \<le> SortKey s v")
    case False
    then have ne: "vs \<noteq> []" and ex: "\<exists>v \<in> set vs. k \<le> SortKey s v"
      using Cons.prems(2) by auto
    have "Flink s v = hd vs" using le.nxt_mid [OF Cons.prems(1)] ne by simp
    moreover have "RemoveWalk k (hd vs) s = find (\<lambda>e. k \<le> SortKey s e) vs"
      using Cons.prems(1) ex by (intro Cons.IH [of "us @ [v]"]) auto
    ultimately show ?thesis using False by (subst RemoveWalk.simps) auto
  qed (subst RemoveWalk.simps, auto)
qed simp

lemma IfBusyWalk_find:
  assumes "dll s l (us @ vs)"
  shows "IfBusyWalk k l (hd (vs @ [l])) s =
    Some (case find (\<lambda>e. k \<le> SortKey s e) vs of None \<Rightarrow> l | Some e \<Rightarrow> e)"
  using assms
proof (induction vs arbitrary: us)
  case Nil
  then show ?case by (subst IfBusyWalk.simps) simp
next
  case (Cons v vs)
  have "v \<noteq> l" using le.dist [OF Cons.prems] by auto
  moreover have "Flink s v = hd (vs @ [l])" using le.nxt_mid [OF Cons.prems] .
  moreover have "IfBusyWalk k l (hd (vs @ [l])) s =
      Some (case find (\<lambda>e. k \<le> SortKey s e) vs of None \<Rightarrow> l | Some e \<Rightarrow> e)"
    using Cons.prems by (intro Cons.IH [of "us @ [v]"]) simp
  ultimately show ?case by (subst IfBusyWalk.simps) simp
qed

section \<open>What each operation does to the sequence\<close>

definition key_insert ::
  "(PKDEVICE_QUEUE_ENTRY \<Rightarrow> ULONG) \<Rightarrow> ULONG \<Rightarrow> PKDEVICE_QUEUE_ENTRY \<Rightarrow>
   PKDEVICE_QUEUE_ENTRY list \<Rightarrow> PKDEVICE_QUEUE_ENTRY list" where
  "key_insert key k e xs = takeWhile (\<lambda>x. key x \<le> k) xs @ e # dropWhile (\<lambda>x. key x \<le> k) xs"

definition key_select ::
  "(PKDEVICE_QUEUE_ENTRY \<Rightarrow> ULONG) \<Rightarrow> ULONG \<Rightarrow> PKDEVICE_QUEUE_ENTRY list \<Rightarrow> PKDEVICE_QUEUE_ENTRY"
  where "key_select key k xs =
    (if key (last xs) \<le> k then hd xs else hd (dropWhile (\<lambda>x. key x < k) xs))"

definition documented_select ::
  "(PKDEVICE_QUEUE_ENTRY \<Rightarrow> ULONG) \<Rightarrow> ULONG \<Rightarrow> PKDEVICE_QUEUE_ENTRY list \<Rightarrow> PKDEVICE_QUEUE_ENTRY"
  where "documented_select key k xs =
    (case find (\<lambda>x. k \<le> key x) xs of None \<Rightarrow> hd xs | Some e \<Rightarrow> e)"

lemma find_dropWhile: "find P xs = (case dropWhile (\<lambda>x. \<not> P x) xs of [] \<Rightarrow> None | y # _ \<Rightarrow> Some y)"
  by (induction xs) auto

lemma find_skip: "\<forall>x \<in> set us. \<not> P x \<Longrightarrow> find P (us @ vs) = find P vs"
  by (induction us) auto

lemma find_in: "find P xs = Some e \<Longrightarrow> e \<in> set xs \<and> P e"
  by (induction xs) (auto split: if_splits)

lemma hd_dropWhile_find: "find P xs = Some e \<Longrightarrow> hd (dropWhile (\<lambda>x. \<not> P x) xs) = e"
  by (induction xs) (auto split: if_splits)

lemma find_ex: "\<exists>x \<in> set xs. P x \<Longrightarrow> \<exists>e. find P xs = Some e"
  by (induction xs) auto

lemma sorted_key_last: "sorted (map key xs) \<Longrightarrow> x \<in> set xs \<Longrightarrow> key x \<le> key (last xs)"
  for key :: "'a \<Rightarrow> 'b::linorder"
  by (cases xs rule: rev_cases) (auto simp: sorted_append)

lemma key_insert_tail:
  assumes "sorted (map key xs)" "\<not> (xs \<noteq> [] \<and> k < key (last xs))"
  shows "key_insert key k e xs = xs @ [e]"
proof -
  have "\<forall>x \<in> set xs. key x \<le> k"
    using assms sorted_key_last [OF assms(1)] by (cases "xs = []") (fastforce simp: not_less)+
  then show ?thesis by (simp add: key_insert_def takeWhile_eq_all_conv dropWhile_eq_Nil_conv)
qed

lemma key_insert_props:
  shows "mset (key_insert key k e xs) = add_mset e (mset xs)"
    and "set (key_insert key k e xs) = insert e (set xs)"
    and "sorted (map key xs) \<Longrightarrow> key e = k \<Longrightarrow> sorted (map key (key_insert key k e xs))"
proof -
  have split: "takeWhile (\<lambda>x. key x \<le> k) xs @ dropWhile (\<lambda>x. key x \<le> k) xs = xs" by simp
  have "mset (takeWhile (\<lambda>x. key x \<le> k) xs) + mset (dropWhile (\<lambda>x. key x \<le> k) xs) = mset xs"
    by (simp flip: mset_append)
  then show "mset (key_insert key k e xs) = add_mset e (mset xs)"
    by (simp add: key_insert_def)
  then show "set (key_insert key k e xs) = insert e (set xs)"
    by (metis set_mset_mset set_mset_add_mset_insert)
  assume srt: "sorted (map key xs)" and k: "key e = k"
  have "\<forall>x \<in> set (takeWhile (\<lambda>x. key x \<le> k) xs). key x \<le> k"
    by (auto dest: set_takeWhileD)
  moreover have "\<forall>x \<in> set (dropWhile (\<lambda>x. key x \<le> k) xs). k \<le> key x"
  proof (cases "dropWhile (\<lambda>x. key x \<le> k) xs")
    case (Cons y ys)
    then have "k < key y" using hd_dropWhile [of "\<lambda>x. key x \<le> k" xs] by (simp add: not_le)
    moreover have "sorted (map key (y # ys))"
      using srt split Cons by (metis sorted_append map_append)
    ultimately show ?thesis using Cons by fastforce
  next
    case Nil
    show ?thesis unfolding Nil by simp
  qed
  moreover have "sorted (map key (takeWhile (\<lambda>x. key x \<le> k) xs) @ map key (dropWhile (\<lambda>x. key x \<le> k) xs))"
    using srt by (simp flip: map_append)
  ultimately show "sorted (map key (key_insert key k e xs))"
    unfolding key_insert_def using k by (auto simp: sorted_append intro: order_trans)
qed

lemma devq_insert:
  assumes "devq s q (us @ vs)" "fresh_entry q (us @ vs) e" "n = hd (vs @ [DeviceListHead q])"
    and "Busy s q"
  shows "devq (set_Inserted e True (InsertTailList n e s)) q (us @ e # vs)"
proof -
  have "dll (InsertTailList n e s) (DeviceListHead q) (us @ e # vs)"
    using assms by (intro le.insert_before) (auto simp: devq_def fresh_entry_def)
  with assms show ?thesis by (auto simp: devq_def fresh_entry_def)
qed

lemma devq_set_Busy: "devq s q xs \<Longrightarrow> devq (set_Busy q True s) q xs"
  by (auto simp: devq_def)

lemma devq_SortKey: "devq (s\<lparr>SortKey := f\<rparr>) q xs \<longleftrightarrow> devq s q xs"
  by (simp add: devq_def KiGetDeviceQueueKeyHint_def)

lemma fun_upd_map_fresh: "e \<notin> set xs \<Longrightarrow> map (f(e := k)) xs = map f xs"
  by auto

lemma KeInsertByKey_busy:
  assumes d: "devq s q xs" and f: "fresh_entry q xs e" and srt: "sorted (map (SortKey s) xs)"
    and b: "Busy s q"
  obtains s' where "KeInsertByKeyDeviceQueue q e k s = Some (True, s')"
    "devq s' q (key_insert (SortKey s) k e xs)" "SortKey s' = (SortKey s)(e := k)"
    "Inserted s' = (Inserted s)(e := True)" "Busy s' q"
proof -
  let ?l = "DeviceListHead q"
  let ?s = "set_Busy q True (s\<lparr>SortKey := (SortKey s)(e := k)\<rparr>)"
  have d': "devq ?s q xs" by (intro devq_set_Busy) (simp add: devq_SortKey d)
  have e: "e \<notin> set xs" using f by (simp add: fresh_entry_def)
  have lst: "xs \<noteq> [] \<Longrightarrow> Blink ?s ?l = last xs"
    using le.last_nonempty [OF devq_dll [OF d']] .
  have key: "x \<in> set xs \<Longrightarrow> SortKey ?s x = SortKey s x" for x using e by auto
  define P where "P \<longleftrightarrow> xs \<noteq> [] \<and> k < SortKey s (last xs)"
  define n where "n = hd ((if P then dropWhile (\<lambda>x. SortKey s x \<le> k) xs else []) @ [?l])"
  have walk: "(if \<not> IsListEmpty ?l ?s \<and> k < SortKey ?s (Blink ?s ?l)
      then InsertWalk k ?l ?s else Some ?l) = Some n"
  proof (cases P)
    case True
    then have ne: "xs \<noteq> []" and lt: "k < SortKey ?s (last xs)" using key [of "last xs"] by (auto simp: P_def)
    then have "InsertWalk k ?l ?s = find (\<lambda>x. k < SortKey ?s x) xs"
      using devq_dll [OF d'] by (intro InsertWalk_find [of ?s ?l "[]"]) (auto intro: bexI [of _ "last xs"])
    also have "\<dots> = find (\<lambda>x. k < SortKey s x) xs"
      by (intro find_cong) (use e in auto)
    also have "\<dots> = Some n"
    proof -
      have "\<exists>x \<in> set xs. k < SortKey s x"
        using ne True by (intro bexI [of _ "last xs"]) (auto simp: P_def)
      then obtain y where y: "find (\<lambda>x. k < SortKey s x) xs = Some y"
        using find_ex by metis
      then have "dropWhile (\<lambda>x. SortKey s x \<le> k) xs \<noteq> []"
        by (auto dest!: find_in simp: not_le)
      then show ?thesis
        using True y hd_dropWhile_find [OF y] by (simp add: n_def not_less)
    qed
    finally show ?thesis using ne lt lst devq_empty_iff [OF d'] by simp
  next
    case False
    then show ?thesis using lst devq_empty_iff [OF d'] key [of "last xs"] by (auto simp: n_def P_def)
  qed
  define vs where "vs = (if P then dropWhile (\<lambda>x. SortKey s x \<le> k) xs else [])"
  define us where "us = (if P then takeWhile (\<lambda>x. SortKey s x \<le> k) xs else xs)"
  have xs: "xs = us @ vs" by (simp add: us_def vs_def)
  have ins: "us @ e # vs = key_insert (SortKey s) k e xs"
    using key_insert_tail [OF srt, of k e] by (auto simp: us_def vs_def P_def key_insert_def)
  have "devq (set_Inserted e True (InsertTailList n e ?s)) q (us @ e # vs)"
    by (rule devq_insert) (use d' f xs in \<open>auto simp: n_def vs_def\<close>)
  then show ?thesis
    using that [of "set_Inserted e True (InsertTailList n e ?s)"] walk b
    unfolding ins by (simp add: KeInsertByKeyDeviceQueue_def Let_def)
qed

lemma devq_remove:
  assumes "devq s q (us @ e # vs)" and "dll s1 (DeviceListHead q) (us @ vs)"
    and "Inserted s1 = Inserted s" "Busy s1 = Busy s"
    and "KiGetDeviceQueueKeyHint q s1 = 0 \<or> KiGetDeviceQueueKeyHint q s1 \<in> set (us @ vs)"
  shows "devq (set_Inserted e False s1) q (us @ vs)"
  using assms le.dist [OF devq_dll [OF assms(1)]] by (auto simp: devq_def)

lemma devq_remove_invalidate:
  assumes d: "devq s q (us @ e # vs)" and "dll s1 (DeviceListHead q) (us @ vs)"
    and "Inserted s1 = Inserted s" "Busy s1 = Busy s"
    and "KiGetDeviceQueueKeyHint q s1 = KiGetDeviceQueueKeyHint q s"
  shows "devq (KiInvalidateDeviceQueueKeyHint q e (set_Inserted e False s1)) q (us @ vs)"
  using assms le.dist [OF devq_dll [OF d]] by (auto simp: devq_def hint_invalidate)

lemma KeInsertDeviceQueue_busy:
  assumes "devq s q xs" "fresh_entry q xs e" "Busy s q"
  shows "fst (KeInsertDeviceQueue q e s)" and "devq (snd (KeInsertDeviceQueue q e s)) q (xs @ [e])"
  using devq_insert [of "set_Busy q True s" q xs "[]" e] devq_set_Busy [OF assms(1)] assms
  by (simp_all add: KeInsertDeviceQueue_def Let_def)

lemma KeRemoveDeviceQueue_nonempty:
  assumes "devq s q (e # xs)"
  shows "fst (KeRemoveDeviceQueue q s) = e" and "devq (snd (KeRemoveDeviceQueue q s)) q xs"
    and "SortKey (snd (KeRemoveDeviceQueue q s)) = SortKey s"
proof -
  note rm = le.remove_head [OF devq_dll [OF assms]]
  have ne: "\<not> IsListEmpty (DeviceListHead q) s" using devq_empty_iff [OF assms] by simp
  show "fst (KeRemoveDeviceQueue q s) = e"
    using rm ne by (simp add: KeRemoveDeviceQueue_def Let_def split_beta)
  show "devq (snd (KeRemoveDeviceQueue q s)) q xs"
    using devq_remove_invalidate [of s q "[]" e xs "snd (RemoveHeadList (DeviceListHead q) s)"]
      assms rm ne by (simp add: KeRemoveDeviceQueue_def Let_def split_beta)
  show "SortKey (snd (KeRemoveDeviceQueue q s)) = SortKey s"
    by (simp add: KeRemoveDeviceQueue_def Let_def split_beta)
qed

lemma sorted_before_hint:
  assumes "sorted (map key (us @ h # vs))" "key h < k"
  shows "find (\<lambda>x. k \<le> key x) (us @ h # vs) = find (\<lambda>x. k \<le> key x) (h # vs)"
  using assms by (intro find_skip) (fastforce simp: sorted_append)

lemma key_select_find:
  assumes "xs \<noteq> []" "\<not> key (last xs) \<le> k"
  shows "find (\<lambda>x. k \<le> key x) xs = Some (key_select key k xs)"
proof -
  have "\<exists>x \<in> set xs. k \<le> key x"
    using assms by (intro bexI [of _ "last xs"]) auto
  then obtain e where e: "find (\<lambda>x. k \<le> key x) xs = Some e"
    using find_ex by metis
  with hd_dropWhile_find [OF e] assms show ?thesis
    by (auto simp: key_select_def not_le)
qed

lemma RemoveSearch_select:
  assumes d: "devq s q xs" and ne: "xs \<noteq> []" and srt: "sorted (map (SortKey s) xs)"
  shows "RemoveSearch q k s = Some (key_select (SortKey s) k xs)"
proof (cases "SortKey s (last xs) \<le> k")
  case True
  then show ?thesis
    using le.last_nonempty [OF devq_dll [OF d] ne] le.first_nonempty [OF devq_dll [OF d] ne]
    by (simp add: RemoveSearch_def key_select_def Let_def)
next
  case False
  let ?h = "KiGetDeviceQueueKeyHint q s" and ?l = "DeviceListHead q"
  have ex: "\<exists>x \<in> set xs. k \<le> SortKey s x"
    using ne False by (intro bexI [of _ "last xs"]) auto
  have "RemoveWalk k (if ?h \<noteq> 0 \<and> SortKey s ?h < k then ?h else Flink s ?l) s
      = find (\<lambda>x. k \<le> SortKey s x) xs"
  proof (cases "?h \<noteq> 0 \<and> SortKey s ?h < k")
    case True
    then obtain us vs where xs: "xs = us @ ?h # vs"
      using d split_list [of ?h xs] by (auto simp: devq_def)
    have eq: "find (\<lambda>x. k \<le> SortKey s x) xs = find (\<lambda>x. k \<le> SortKey s x) (?h # vs)"
      using sorted_before_hint [of "SortKey s" us ?h vs k] srt True xs by metis
    have "\<exists>x \<in> set (?h # vs). k \<le> SortKey s x"
      using find_ex [OF ex] eq find_in by metis
    then have "RemoveWalk k ?h s = find (\<lambda>x. k \<le> SortKey s x) (?h # vs)"
      using RemoveWalk_find [of s ?l us "?h # vs" k] devq_dll [OF d] xs by simp
    with True eq show ?thesis by simp
  next
    case False
    then show ?thesis
      using RemoveWalk_find [of s ?l "[]" xs k] ex le.first_nonempty [OF devq_dll [OF d] ne]
        devq_dll [OF d] by auto
  qed
  with False show ?thesis
    using le.last_nonempty [OF devq_dll [OF d] ne] key_select_find [OF ne, of "SortKey s" k]
    by (simp add: RemoveSearch_def Let_def)
qed

lemma key_select_in: "xs \<noteq> [] \<Longrightarrow> key_select key k xs \<in> set xs"
  using key_select_find [of xs key k] find_in [of "\<lambda>x. k \<le> key x" xs]
  by (cases "key (last xs) \<le> k") (auto simp: key_select_def)

lemma KeRemoveByKey_nonempty:
  assumes d: "devq s q xs" and ne: "xs \<noteq> []" and srt: "sorted (map (SortKey s) xs)"
  obtains s' where
    "KeRemoveByKeyDeviceQueue q k s = Some (key_select (SortKey s) k xs, s')"
    "devq s' q (remove1 (key_select (SortKey s) k xs) xs)" "SortKey s' = SortKey s" "Busy s' = Busy s"
    "Inserted s' = (Inserted s)(key_select (SortKey s) k xs := False)"
proof -
  let ?l = "DeviceListHead q"
  define e where "e = key_select (SortKey s) k xs"
  obtain us vs where xs: "xs = us @ e # vs" and us: "e \<notin> set us"
    using split_list_first [OF key_select_in [OF ne, of "SortKey s" k]] by (auto simp: e_def)
  define p where "p = (if Blink s e = ?l then 0 else Blink s e)"
  let ?s2 = "snd (RemoveEntryList e (KiSetDeviceQueueKeyHint q p s))"
  have "Blink s e = last (?l # us)"
    using le.prv_mid devq_dll [OF d] xs by blast
  then have p: "p = 0 \<or> p \<in> set us" by (auto simp: p_def)
  moreover have "canonical p" using p d xs by (auto simp: devq_def)
  ultimately have hint: "KiGetDeviceQueueKeyHint q ?s2 = 0 \<or> KiGetDeviceQueueKeyHint q ?s2 \<in> set (us @ vs)"
    by (auto simp: canonical_def)
  have "dll ?s2 ?l (us @ vs)"
    using le.remove_entry [of "KiSetDeviceQueueKeyHint q p s" ?l us e vs] devq_dll [OF d] xs by simp
  then have "devq (set_Inserted e False ?s2) q (us @ vs)"
    using d xs hint by (intro devq_remove) auto
  moreover have "remove1 e xs = us @ vs" using xs us by (simp add: remove1_append)
  ultimately show ?thesis
    using that [of "set_Inserted e False ?s2"] RemoveSearch_select [OF d ne srt, of k]
      devq_empty_iff [OF d] ne
    by (simp add: KeRemoveByKeyDeviceQueue_def Let_def e_def p_def)
qed

lemma documented_select_in: "xs \<noteq> [] \<Longrightarrow> documented_select key k xs \<in> set xs"
  using find_in [of "\<lambda>x. k \<le> key x" xs] by (auto simp: documented_select_def split: option.splits)

lemma KeRemoveByKeyIfBusy_nonempty:
  assumes d: "devq s q xs" and ne: "xs \<noteq> []"
  obtains s' where
    "KeRemoveByKeyDeviceQueueIfBusy q k s = Some (documented_select (SortKey s) k xs, s')"
    "devq s' q (remove1 (documented_select (SortKey s) k xs) xs)" "SortKey s' = SortKey s"
    "Inserted s' = (Inserted s)(documented_select (SortKey s) k xs := False)"
proof -
  let ?l = "DeviceListHead q"
  define e where "e = documented_select (SortKey s) k xs"
  have busy: "Busy s q" using d ne by (auto simp: devq_def)
  obtain us vs where xs: "xs = us @ e # vs" and us: "e \<notin> set us"
    using split_list_first [OF documented_select_in [OF ne, of "SortKey s" k]] by (auto simp: e_def)
  define n where "n = (case find (\<lambda>x. k \<le> SortKey s x) xs of None \<Rightarrow> ?l | Some x \<Rightarrow> x)"
  have walk: "IfBusyWalk k ?l (Flink s ?l) s = Some n"
    using IfBusyWalk_find [of s ?l "[]" xs k] devq_dll [OF d] le.nxt_head [OF devq_dll [OF d]]
    by (simp add: n_def)
  define r where "r = (if n \<noteq> ?l then (n, snd (RemoveEntryList n s)) else RemoveHeadList ?l s)"
  have r: "fst r = e \<and> dll (snd r) ?l (us @ vs)"
  proof (cases "find (\<lambda>x. k \<le> SortKey s x) xs")
    case None
    then have "e = hd xs" and "n = ?l" by (simp_all add: e_def n_def documented_select_def)
    with xs us have "us = []" by (metis hd_append2 hd_in_set)
    with \<open>n = ?l\<close> show ?thesis
      using le.remove_head [of s ?l e vs] devq_dll [OF d] xs by (simp add: r_def)
  next
    case (Some x)
    then have "n = e" by (simp add: e_def n_def documented_select_def)
    moreover have "e \<noteq> ?l" using le.dist [OF devq_dll [OF d]] xs by auto
    ultimately show ?thesis
      using le.remove_entry [of s ?l us e vs] devq_dll [OF d] xs by (simp add: r_def)
  qed
  have "devq (KiInvalidateDeviceQueueKeyHint q e (set_Inserted e False (snd r))) q (us @ vs)"
    using d xs r by (intro devq_remove_invalidate [of s]) (auto simp: r_def [symmetric], simp_all add: r_def)
  moreover have "remove1 e xs = us @ vs" using xs us by (simp add: remove1_append)
  moreover have "KeRemoveByKeyDeviceQueueIfBusy q k s =
      Some (fst r, KiInvalidateDeviceQueueKeyHint q (fst r) (set_Inserted (fst r) False (snd r)))"
    using busy walk devq_empty_iff [OF d] ne
    by (simp add: KeRemoveByKeyDeviceQueueIfBusy_def r_def split_beta Let_def)
  moreover have "SortKey (snd r) = SortKey s" "Inserted (snd r) = Inserted s"
    by (simp_all add: r_def)
  ultimately show ?thesis
    using that [of "KiInvalidateDeviceQueueKeyHint q e (set_Inserted e False (snd r))"] r
    by (simp add: e_def)
qed

lemma KeRemoveEntry_member:
  assumes d: "devq s q xs" and "e \<in> set xs"
  shows "fst (KeRemoveEntryDeviceQueue q e s)"
    and "devq (snd (KeRemoveEntryDeviceQueue q e s)) q (remove1 e xs)"
    and "SortKey (snd (KeRemoveEntryDeviceQueue q e s)) = SortKey s"
proof -
  have ins: "Inserted s e" using assms by (simp add: devq_def)
  obtain us vs where xs: "xs = us @ e # vs" and us: "e \<notin> set us"
    using split_list_first [OF assms(2)] by blast
  let ?s1 = "snd (RemoveEntryList e (set_Inserted e False s))"
  have "dll ?s1 (DeviceListHead q) (us @ vs)"
    using le.remove_entry [of "set_Inserted e False s" "DeviceListHead q" us e vs] devq_dll [OF d] xs
    by simp
  then have "devq (KiInvalidateDeviceQueueKeyHint q e ?s1) q (us @ vs)"
    using d le.dist [OF devq_dll [OF d]] unfolding xs by (auto simp: devq_def hint_invalidate)
  then show "devq (snd (KeRemoveEntryDeviceQueue q e s)) q (remove1 e xs)"
    using ins xs us by (simp add: KeRemoveEntryDeviceQueue_def remove1_append)
qed (use assms in \<open>auto simp: KeRemoveEntryDeviceQueue_def devq_def Let_def\<close>)

section \<open>The queue as a transition system\<close>

text \<open>
  The calls a driver makes on one queue that is used by sort key: an entry is inserted only
  while it is not queued, and the unconditional removals are made by the owner of the busy
  device.
\<close>

inductive devq_step :: "PKDEVICE_QUEUE \<Rightarrow> devmem \<Rightarrow> devmem \<Rightarrow> bool" for q where
  insert_by_key: "\<not> Inserted s e \<Longrightarrow> e \<noteq> DeviceListHead q \<Longrightarrow> canonical e \<Longrightarrow> e \<noteq> 0 \<Longrightarrow>
     KeInsertByKeyDeviceQueue q e k s = Some (b, s') \<Longrightarrow> devq_step q s s'"
| remove_first: "Busy s q \<Longrightarrow> KeRemoveDeviceQueue q s = (r, s') \<Longrightarrow> devq_step q s s'"
| remove_by_key: "Busy s q \<Longrightarrow> KeRemoveByKeyDeviceQueue q k s = Some (r, s') \<Longrightarrow> devq_step q s s'"
| remove_by_key_if_busy: "KeRemoveByKeyDeviceQueueIfBusy q k s = Some (r, s') \<Longrightarrow> devq_step q s s'"
| remove_entry: "KeRemoveEntryDeviceQueue q e s = (b, s') \<Longrightarrow> devq_step q s s'"

definition devq_start :: "PKDEVICE_QUEUE \<Rightarrow> devmem \<Rightarrow> bool" where
  "devq_start q s \<longleftrightarrow> (\<exists>s0. (\<forall>e. \<not> Inserted s0 e) \<and> s = KeInitializeDeviceQueue q s0)"

definition devq_sorted :: "PKDEVICE_QUEUE \<Rightarrow> devmem \<Rightarrow> PKDEVICE_QUEUE_ENTRY list \<Rightarrow> bool" where
  "devq_sorted q s xs \<longleftrightarrow> devq s q xs \<and> sorted (map (SortKey s) xs) \<and> (\<forall>e. Inserted s e \<longleftrightarrow> e \<in> set xs)"

lemma remove1_sorted_key: "sorted (map key xs) \<Longrightarrow> sorted (map key (remove1 e xs))"
  for key :: "'a \<Rightarrow> 'b::linorder"
  by (induction xs) (auto simp: dest: notin_set_remove1 set_remove1_subset [THEN subsetD])

lemma devq_sorted_init: "devq_start q s \<Longrightarrow> devq_sorted q s []"
  using dll_InitializeListHead
  by (auto simp: devq_start_def devq_sorted_def devq_def KeInitializeDeviceQueue_def Let_def canonical_def [symmetric])

lemma devq_sorted_insert:
  assumes d: "devq_sorted q s xs" and fresh: "\<not> Inserted s e" "e \<noteq> DeviceListHead q" "canonical e" "e \<noteq> 0"
  shows "\<exists>b s'. KeInsertByKeyDeviceQueue q e k s = Some (b, s') \<and>
    devq_sorted q s' (if Busy s q then key_insert (SortKey s) k e xs else [])"
proof (cases "Busy s q")
  case True
  have e: "e \<notin> set xs" and fr: "fresh_entry q xs e"
    using d fresh by (auto simp: devq_sorted_def fresh_entry_def)
  obtain s' where s': "KeInsertByKeyDeviceQueue q e k s = Some (True, s')"
    "devq s' q (key_insert (SortKey s) k e xs)" "SortKey s' = (SortKey s)(e := k)"
    "Inserted s' = (Inserted s)(e := True)"
    using KeInsertByKey_busy [of s q xs e k] d fr True by (auto simp: devq_sorted_def)
  have "sorted (map ((SortKey s)(e := k)) xs)"
    using d e by (simp add: devq_sorted_def fun_upd_map_fresh)
  moreover have "key_insert ((SortKey s)(e := k)) k e xs = key_insert (SortKey s) k e xs"
    using e by (auto simp: key_insert_def intro!: arg_cong2 [where f = "\<lambda>a b. a @ e # b"]
        takeWhile_cong dropWhile_cong)
  ultimately have "sorted (map (SortKey s') (key_insert (SortKey s) k e xs))"
    using key_insert_props(3) [of "(SortKey s)(e := k)" xs e k] s'(3) by simp
  then show ?thesis
    using True d s' key_insert_props(2) [of "SortKey s" k e xs] by (auto simp: devq_sorted_def)
next
  case False
  with d fresh show ?thesis
    by (auto simp: devq_sorted_def devq_def KeInsertByKeyDeviceQueue_def Let_def
        KiGetDeviceQueueKeyHint_def)
qed

lemma devq_sorted_remove1:
  assumes "devq_sorted q s xs" "devq s' q (remove1 e xs)" "SortKey s' = SortKey s"
    "Inserted s' = (Inserted s)(e := False)"
  shows "devq_sorted q s' (remove1 e xs)"
proof -
  have "distinct xs" using assms(1) le.dist [OF devq_dll] by (auto simp: devq_sorted_def)
  then have "set (remove1 e xs) = set xs - {e}" by simp
  then show ?thesis
    using assms remove1_sorted_key [of "SortKey s" xs e] by (simp add: devq_sorted_def)
qed

lemma devq_sorted_idle: "devq_sorted q s [] \<Longrightarrow> devq_sorted q (set_Busy q False s) []"
  by (simp add: devq_sorted_def devq_def)

lemma devq_sorted_remove_first:
  assumes d: "devq_sorted q s xs"
  shows "\<exists>ys. devq_sorted q (snd (KeRemoveDeviceQueue q s)) ys"
proof (cases xs)
  case Nil
  with d show ?thesis
    using devq_empty_iff [of s q "[]"] devq_sorted_idle [of q s]
    by (auto simp: KeRemoveDeviceQueue_def devq_sorted_def Let_def)
next
  case (Cons e ys)
  then have "devq s q (e # ys)" using d by (simp add: devq_sorted_def)
  note rm = KeRemoveDeviceQueue_nonempty [OF this]
  have "Inserted (snd (KeRemoveDeviceQueue q s)) = (Inserted s)(e := False)"
    using rm(1) devq_empty_iff [of s q xs] d Cons
    by (auto simp: KeRemoveDeviceQueue_def devq_sorted_def Let_def split_beta)
  then show ?thesis
    using devq_sorted_remove1 [of q s xs "snd (KeRemoveDeviceQueue q s)" e] d rm(2,3) Cons by auto
qed

lemma devq_sorted_remove_by_key:
  assumes d: "devq_sorted q s xs"
  shows "\<exists>r s' ys. KeRemoveByKeyDeviceQueue q k s = Some (r, s') \<and> devq_sorted q s' ys"
proof (cases "xs = []")
  case True
  with d show ?thesis
    using devq_empty_iff [of s q "[]"] devq_sorted_idle [of q s]
    by (auto simp: KeRemoveByKeyDeviceQueue_def devq_sorted_def Let_def)
next
  case False
  obtain s' where "KeRemoveByKeyDeviceQueue q k s = Some (key_select (SortKey s) k xs, s')"
    "devq s' q (remove1 (key_select (SortKey s) k xs) xs)" "SortKey s' = SortKey s"
    "Inserted s' = (Inserted s)(key_select (SortKey s) k xs := False)"
    using KeRemoveByKey_nonempty [of s q xs k] d False by (auto simp: devq_sorted_def)
  with devq_sorted_remove1 [OF d] show ?thesis by blast
qed

lemma devq_sorted_remove_if_busy:
  assumes d: "devq_sorted q s xs"
  shows "\<exists>r s' ys. KeRemoveByKeyDeviceQueueIfBusy q k s = Some (r, s') \<and> devq_sorted q s' ys"
proof (cases "xs = []")
  case True
  with d show ?thesis
    using devq_empty_iff [of s q "[]"] devq_sorted_idle [of q s]
    by (auto simp: KeRemoveByKeyDeviceQueueIfBusy_def devq_sorted_def Let_def)
next
  case False
  obtain s' where
    "KeRemoveByKeyDeviceQueueIfBusy q k s = Some (documented_select (SortKey s) k xs, s')"
    "devq s' q (remove1 (documented_select (SortKey s) k xs) xs)" "SortKey s' = SortKey s"
    "Inserted s' = (Inserted s)(documented_select (SortKey s) k xs := False)"
    using KeRemoveByKeyIfBusy_nonempty [of s q xs k] d False by (auto simp: devq_sorted_def)
  with devq_sorted_remove1 [OF d] show ?thesis by blast
qed

lemma devq_sorted_remove_entry:
  assumes d: "devq_sorted q s xs"
  shows "\<exists>ys. devq_sorted q (snd (KeRemoveEntryDeviceQueue q e s)) ys"
proof (cases "Inserted s e")
  case True
  then have "e \<in> set xs" using d by (simp add: devq_sorted_def)
  moreover have "Inserted (snd (KeRemoveEntryDeviceQueue q e s)) = (Inserted s)(e := False)"
    using True by (simp add: KeRemoveEntryDeviceQueue_def)
  ultimately show ?thesis
    using devq_sorted_remove1 [OF d] KeRemoveEntry_member [of s q xs e] d
    by (auto simp: devq_sorted_def [of q s])
qed (use d in \<open>auto simp: KeRemoveEntryDeviceQueue_def\<close>)

interpretation dq: invariant_system "devq_start q" "devq_step q" "\<lambda>s. \<exists>xs. devq_sorted q s xs" for q
proof (unfold_locales, goal_cases)
  case (1 s) then show ?case using devq_sorted_init by blast
next
  case (2 s t)
  then obtain xs where d: "devq_sorted q s xs" by blast
  from 2(2) show ?case
  proof cases
    case (insert_by_key e k b)
    with devq_sorted_insert [OF d] show ?thesis by (metis Pair_inject option.inject)
  next
    case (remove_first r)
    with devq_sorted_remove_first [OF d] show ?thesis by simp
  next
    case (remove_by_key k r)
    with devq_sorted_remove_by_key [OF d, of k] show ?thesis by auto
  next
    case (remove_by_key_if_busy k r)
    with devq_sorted_remove_if_busy [OF d, of k] show ?thesis by auto
  next
    case (remove_entry e b)
    with devq_sorted_remove_entry [OF d, of e] show ?thesis by simp
  qed
qed

section \<open>Properties\<close>

text \<open>A busy queue at address \<open>0x1000\<close> with the entries \<open>0x2000\<close> (key 5) and \<open>0x3000\<close> (key 9).\<close>

definition sample_devmem :: devmem where
  "sample_devmem = \<lparr>
     Flink = (\<lambda>_. 0)(0x1008 := 0x2000, 0x2000 := 0x3000, 0x3000 := 0x1008),
     Blink = (\<lambda>_. 0)(0x1008 := 0x3000, 0x2000 := 0x1008, 0x3000 := 0x2000),
     SortKey = (\<lambda>_. 0)(0x2000 := 5, 0x3000 := 9),
     Inserted = (\<lambda>_. False)(0x2000 := True, 0x3000 := True),
     DqType = (\<lambda>_. 0)(0x1000 := 20), DqSize = (\<lambda>_. 0)(0x1000 := 40), Lock = (\<lambda>_. 0),
     Busy = (\<lambda>_. False)(0x1000 := True), Hint = (\<lambda>_. 0)\<rparr>"

lemma sample_devq: "devq sample_devmem 0x1000 [0x2000, 0x3000]"
  by (simp add: devq_def dll_def sample_devmem_def DeviceListHead_def canonical_def
      KiGetDeviceQueueKeyHint_def)

lemma sample_sorted: "sorted (map (SortKey sample_devmem) [0x2000, 0x3000])"
  by (simp add: sample_devmem_def)

lemma sample_fresh: "fresh_entry 0x1000 [0x2000, 0x3000] 0x4000"
  by (simp add: fresh_entry_def DeviceListHead_def canonical_def)

lemma sample_Busy: "Busy sample_devmem 0x1000"
  by (simp add: sample_devmem_def)

text \<open>
  C1: In every state that calls on a device queue can reach from its initialisation, the list
  is well linked and sorted by key, an entry is marked \<open>Inserted\<close> exactly when it is on the
  list, and the search hint is null or an entry of the list; an idle device has no entries.
\<close>

theorem devq_reachable_inv:
  assumes "\<forall>e. \<not> Inserted s0 e" and "(devq_step q)\<^sup>*\<^sup>* (KeInitializeDeviceQueue q s0) s"
  shows "\<exists>xs. dll s (DeviceListHead q) xs \<and> sorted (map (SortKey s) xs)
    \<and> (\<forall>e. Inserted s e \<longleftrightarrow> e \<in> set xs)
    \<and> (KiGetDeviceQueueKeyHint q s = 0 \<or> KiGetDeviceQueueKeyHint q s \<in> set xs)
    \<and> (\<not> Busy s q \<longrightarrow> xs = [])"
proof -
  have "devq_start q (KeInitializeDeviceQueue q s0)" using assms(1) by (auto simp: devq_start_def)
  from dq.reachable_inv [OF this assms(2)] show ?thesis
    by (auto simp: devq_sorted_def devq_def)
qed

definition sample_start :: devmem where
  "sample_start = \<lparr>Flink = (\<lambda>_. 0), Blink = (\<lambda>_. 0), SortKey = (\<lambda>_. 0), Inserted = (\<lambda>_. False),
     DqType = (\<lambda>_. 0), DqSize = (\<lambda>_. 0), Lock = (\<lambda>_. 0), Busy = (\<lambda>_. False), Hint = (\<lambda>_. 0)\<rparr>"

lemma sample_insert:
  assumes "devq_sorted 0x1000 s xs" "e \<notin> set xs" "canonical e" "e \<noteq> 0" "e \<noteq> DeviceListHead 0x1000" "Busy s 0x1000"
  shows "\<exists>s' ys. devq_step 0x1000 s s' \<and> devq_sorted 0x1000 s' ys \<and> set ys = insert e (set xs) \<and> Busy s' 0x1000"
proof -
  have "\<not> Inserted s e" using assms(1,2) by (simp add: devq_sorted_def)
  then obtain b s' where s': "KeInsertByKeyDeviceQueue 0x1000 e 5 s = Some (b, s')" "devq_sorted 0x1000 s' (key_insert (SortKey s) 5 e xs)"
    using devq_sorted_insert [OF assms(1) _ assms(5,3,4), of 5] assms(6) by auto
  have "set (takeWhile (\<lambda>x. SortKey s x \<le> 5) xs) \<union> set (dropWhile (\<lambda>x. SortKey s x \<le> 5) xs) = set xs"
    by (metis set_append takeWhile_dropWhile_id)
  then have st: "set (key_insert (SortKey s) 5 e xs) = insert e (set xs)" by (simp add: key_insert_def)
  then have "Busy s' 0x1000" using s'(2) by (auto simp: devq_sorted_def devq_def)
  then show ?thesis using devq_step.insert_by_key [OF \<open>\<not> Inserted s e\<close> assms(5,3,4) s'(1)] s'(2) st by blast
qed

theorem devq_reachable_inv_witness:
  "\<exists>s xs. (devq_step 0x1000)\<^sup>*\<^sup>* (KeInitializeDeviceQueue 0x1000 sample_start) s
    \<and> dll s (DeviceListHead 0x1000) xs \<and> sorted (map (SortKey s) xs) \<and> set xs = {0x3000, 0x4000}"
proof -
  let ?i = "KeInitializeDeviceQueue 0x1000 sample_start"
  let ?s = "snd (the (KeInsertByKeyDeviceQueue 0x1000 0x2000 5 ?i))"
  have fresh: "\<forall>e. \<not> Inserted sample_start e" by (simp add: sample_start_def)
  have idle: "\<not> Busy ?i 0x1000" "\<not> Inserted ?i 0x2000"
    by (simp_all add: KeInitializeDeviceQueue_def sample_start_def Let_def)
  then have ins: "KeInsertByKeyDeviceQueue 0x1000 0x2000 5 ?i = Some (False, ?s)" "Busy ?s 0x1000"
    by (simp_all add: KeInsertByKeyDeviceQueue_def Let_def)
  have 0: "devq_sorted 0x1000 ?i []" using fresh by (intro devq_sorted_init) (auto simp: devq_start_def)
  have 1: "devq_step 0x1000 ?i ?s"
    by (rule devq_step.insert_by_key [OF idle(2) _ _ _ ins(1)]) (simp_all add: DeviceListHead_def canonical_def)
  have d1: "devq_sorted 0x1000 ?s []"
    using devq_sorted_insert [OF 0 idle(2), of 5] idle(1) ins(1) by (auto simp: DeviceListHead_def canonical_def)
  have e: "canonical 0x3000" "canonical 0x4000" "0x3000 \<noteq> DeviceListHead 0x1000" "0x4000 \<noteq> DeviceListHead 0x1000"
    by (simp_all add: DeviceListHead_def canonical_def)
  obtain s2 xs2 where 2: "devq_step 0x1000 ?s s2" "devq_sorted 0x1000 s2 xs2" "set xs2 = {0x3000}" "Busy s2 0x1000"
    using sample_insert [OF d1 _ e(1) _ e(3) ins(2)] by auto
  obtain s3 xs3 where 3: "devq_step 0x1000 s2 s3" "devq_sorted 0x1000 s3 xs3" "set xs3 = {0x3000, 0x4000}"
    using sample_insert [OF 2(2) _ e(2) _ e(4) 2(4)] 2(3) by (auto simp: insert_commute)
  have st: "(devq_step 0x1000)\<^sup>*\<^sup>* ?i s3" using 1 2(1) 3(1) by (meson converse_rtranclp_into_rtranclp rtranclp.rtrancl_refl)
  have "{e. Inserted s3 e} = {0x3000, 0x4000}" using 3(2,3) by (auto simp: devq_sorted_def)
  then show ?thesis using devq_reachable_inv [OF fresh st] st by blast
qed

text \<open>
  C2: On a busy queue sorted by key, \<open>KeInsertByKeyDeviceQueue\<close> returns TRUE and places the
  entry after every entry with a key at most its own and before every entry with a greater key
  (so equal keys stay in arrival order), and the queue is sorted again.
\<close>

theorem KeInsertByKeyDeviceQueue_stable:
  assumes "devq s q xs" "sorted (map (SortKey s) xs)" "fresh_entry q xs e" "Busy s q"
  shows "\<exists>s'. KeInsertByKeyDeviceQueue q e k s = Some (True, s')
    \<and> devq s' q (takeWhile (\<lambda>x. SortKey s x \<le> k) xs @ e # dropWhile (\<lambda>x. SortKey s x \<le> k) xs)
    \<and> SortKey s' = (SortKey s)(e := k)"
  using KeInsertByKey_busy [OF assms(1,3,2,4), of k] unfolding key_insert_def by metis

theorem KeInsertByKeyDeviceQueue_stable_witness:
  "\<exists>s'. KeInsertByKeyDeviceQueue 0x1000 0x4000 5 sample_devmem = Some (True, s')
    \<and> devq s' 0x1000 [0x2000, 0x4000, 0x3000]"
proof -
  have "takeWhile (\<lambda>x. SortKey sample_devmem x \<le> 5) [0x2000, 0x3000] @
      0x4000 # dropWhile (\<lambda>x. SortKey sample_devmem x \<le> 5) [0x2000, 0x3000]
      = [0x2000, 0x4000, 0x3000]"
    by (simp add: sample_devmem_def)
  with KeInsertByKeyDeviceQueue_stable [OF sample_devq sample_sorted sample_fresh sample_Busy, of 5]
  show ?thesis by auto
qed

text \<open>
  C3: On a sorted non-empty queue \<open>KeRemoveByKeyDeviceQueue\<close> always returns, whatever valid
  hint it starts from, with the entry a search from the head of the list would select: the
  first entry with a key at least the given one, or the head when the last key is not greater
  than the given one; that entry alone leaves the queue and the invariant is kept.
\<close>

theorem KeRemoveByKeyDeviceQueue_hint:
  assumes "devq s q xs" "xs \<noteq> []" "sorted (map (SortKey s) xs)"
    and "e = (if SortKey s (last xs) \<le> k then hd xs else hd (dropWhile (\<lambda>x. SortKey s x < k) xs))"
  shows "\<exists>s'. KeRemoveByKeyDeviceQueue q k s = Some (e, s') \<and> devq s' q (remove1 e xs)
    \<and> SortKey s' = SortKey s \<and> Inserted s' = (Inserted s)(e := False)"
proof -
  have e: "key_select (SortKey s) k xs = e" by (simp add: key_select_def assms(4))
  show ?thesis
    using KeRemoveByKey_nonempty [OF assms(1-3), of k] unfolding e by blast
qed

theorem KeRemoveByKeyDeviceQueue_hint_witness:
  "\<exists>s'. KeRemoveByKeyDeviceQueue 0x1000 6 sample_devmem = Some (0x3000, s')
    \<and> devq s' 0x1000 [0x2000]"
  using KeRemoveByKeyDeviceQueue_hint [OF sample_devq _ sample_sorted, of "0x3000" 6]
  by (auto simp: sample_devmem_def)

text \<open>
  C4: When the greatest queued key equals the requested one and the smallest does not,
  \<open>KeRemoveByKeyDeviceQueue\<close> returns the head of the list, whose key is smaller than the
  requested key, although an entry with the requested key is queued and its description
  promises the first entry with a key greater than or equal to the requested one;
  \<open>KeRemoveByKeyDeviceQueueIfBusy\<close> returns an entry with the requested key.
\<close>

theorem KeRemoveByKeyDeviceQueue_tie:
  assumes "devq s q xs" "xs \<noteq> []" "sorted (map (SortKey s) xs)"
    and "SortKey s (last xs) = k" "SortKey s (hd xs) < k"
  shows "(\<exists>s'. KeRemoveByKeyDeviceQueue q k s = Some (hd xs, s'))
    \<and> (\<exists>e s'. KeRemoveByKeyDeviceQueueIfBusy q k s = Some (e, s') \<and> SortKey s e = k)"
proof
  show "\<exists>s'. KeRemoveByKeyDeviceQueue q k s = Some (hd xs, s')"
    using KeRemoveByKey_nonempty [OF assms(1-3), of k] assms(4) by (auto simp: key_select_def)
  obtain e where e: "find (\<lambda>x. k \<le> SortKey s x) xs = Some e"
    using find_ex [of xs "\<lambda>x. k \<le> SortKey s x"] assms(2,4) by (metis last_in_set order_refl)
  then have "SortKey s e = k"
    using find_in [OF e] sorted_key_last [OF assms(3)] assms(4) by fastforce
  moreover have "documented_select (SortKey s) k xs = e"
    using e by (simp add: documented_select_def)
  ultimately show "\<exists>e s'. KeRemoveByKeyDeviceQueueIfBusy q k s = Some (e, s') \<and> SortKey s e = k"
    using KeRemoveByKeyIfBusy_nonempty [OF assms(1,2), of k] by metis
qed

theorem KeRemoveByKeyDeviceQueue_tie_witness:
  "SortKey sample_devmem 0x2000 \<noteq> 9
    \<and> (\<exists>s'. KeRemoveByKeyDeviceQueue 0x1000 9 sample_devmem = Some (0x2000, s'))"
  using KeRemoveByKeyDeviceQueue_tie [OF sample_devq _ sample_sorted, of 9]
  by (auto simp: sample_devmem_def)

end
