(* ===== verification/TimeFields.thy ===== *)
theory TimeFields
  imports Prelude
begin

text \<open>
  The absolute time conversions of the run-time library (\<open>src/ntoskrnl/rtl/time.c\<close>, with the
  magic division of \<open>src/sdk/sdk/inc/ntrtl.h\<close>): 64-bit times in units of 100 ns since 1601
  to and from calendar fields and seconds since 1970 and 1980.  All arithmetic is on words of
  the C widths.  The lemmas first read the word functions as functions on natural numbers,
  show that the magic division is exact division, then prove the calendar correct against a
  year-by-year count of days.
\<close>

section \<open>Data\<close>

record TIME_FIELDS =
  Year :: CSHORT
  Month :: CSHORT
  Day :: CSHORT
  Hour :: CSHORT
  Minute :: CSHORT
  Second :: CSHORT
  Milliseconds :: CSHORT
  Weekday :: CSHORT

definition LeapYearDayToMonth :: "UCHAR list" where
  "LeapYearDayToMonth =
     replicate 31 0 @ replicate 29 1 @ replicate 31 2 @ replicate 30 3 @ replicate 31 4 @
     replicate 30 5 @ replicate 31 6 @ replicate 31 7 @ replicate 30 8 @ replicate 31 9 @
     replicate 30 10 @ replicate 31 11"

definition NormalYearDayToMonth :: "UCHAR list" where
  "NormalYearDayToMonth =
     replicate 31 0 @ replicate 28 1 @ replicate 31 2 @ replicate 30 3 @ replicate 31 4 @
     replicate 30 5 @ replicate 31 6 @ replicate 31 7 @ replicate 30 8 @ replicate 31 9 @
     replicate 30 10 @ replicate 31 11"

definition LeapYearDaysPrecedingMonth :: "CSHORT list" where
  "LeapYearDaysPrecedingMonth =
     [0, 31, 31+29, 31+29+31, 31+29+31+30, 31+29+31+30+31, 31+29+31+30+31+30,
      31+29+31+30+31+30+31, 31+29+31+30+31+30+31+31, 31+29+31+30+31+30+31+31+30,
      31+29+31+30+31+30+31+31+30+31, 31+29+31+30+31+30+31+31+30+31+30,
      31+29+31+30+31+30+31+31+30+31+30+31]"

definition NormalYearDaysPrecedingMonth :: "CSHORT list" where
  "NormalYearDaysPrecedingMonth =
     [0, 31, 31+28, 31+28+31, 31+28+31+30, 31+28+31+30+31, 31+28+31+30+31+30,
      31+28+31+30+31+30+31, 31+28+31+30+31+30+31+31, 31+28+31+30+31+30+31+31+30,
      31+28+31+30+31+30+31+31+30+31, 31+28+31+30+31+30+31+31+30+31+30,
      31+28+31+30+31+30+31+31+30+31+30+31]"

definition WEEKDAY_OF_1601 :: ULONG where "WEEKDAY_OF_1601 = 1"

definition SecondsToStartOf1970 :: LARGE_INTEGER where "SecondsToStartOf1970 = 0x2b6109100"
definition SecondsToStartOf1980 :: LARGE_INTEGER where "SecondsToStartOf1980 = 0x2c8df3700"

definition Magic10000 :: LARGE_INTEGER where "Magic10000 = 0xd1b71758e219652c"
definition Magic10000000 :: LARGE_INTEGER where "Magic10000000 = 0xd6bf94d5e57a42bd"
definition Magic86400000 :: LARGE_INTEGER where "Magic86400000 = 0xc6d750ebfa67b90e"

section \<open>Large integer arithmetic\<close>

definition UnsignedMultiplyHigh :: "64 word \<Rightarrow> 64 word \<Rightarrow> 64 word" where
  "UnsignedMultiplyHigh a b = word_of_nat ((unat a * unat b) div 2 ^ 64)"

definition RtlExtendedMagicDivide :: "LARGE_INTEGER \<Rightarrow> LARGE_INTEGER \<Rightarrow> nat \<Rightarrow> LARGE_INTEGER" where
  "RtlExtendedMagicDivide Dividend MagicDivisor ShiftCount =
     (let q = (if 0 \<le> sint Dividend then UnsignedMultiplyHigh Dividend MagicDivisor
               else UnsignedMultiplyHigh (- Dividend) MagicDivisor);
          q' = drop_bit ShiftCount q
      in if sint Dividend < 0 then - q' else q')"

definition RtlExtendedIntegerMultiply :: "LARGE_INTEGER \<Rightarrow> LONG \<Rightarrow> LARGE_INTEGER" where
  "RtlExtendedIntegerMultiply Multiplicand Multiplier = Multiplicand * scast Multiplier"

definition Int32x32To64 :: "LONG \<Rightarrow> LONG \<Rightarrow> LARGE_INTEGER" where
  "Int32x32To64 a b = scast a * scast b"

definition Convert100nsToMilliseconds :: "LARGE_INTEGER \<Rightarrow> LARGE_INTEGER" where
  "Convert100nsToMilliseconds t = RtlExtendedMagicDivide t Magic10000 13"

definition ConvertMillisecondsTo100ns :: "LARGE_INTEGER \<Rightarrow> LARGE_INTEGER" where
  "ConvertMillisecondsTo100ns m = RtlExtendedIntegerMultiply m 10000"

definition Convert100nsToSeconds :: "LARGE_INTEGER \<Rightarrow> LARGE_INTEGER" where
  "Convert100nsToSeconds t = RtlExtendedMagicDivide t Magic10000000 23"

definition ConvertSecondsTo100ns :: "LARGE_INTEGER \<Rightarrow> LARGE_INTEGER" where
  "ConvertSecondsTo100ns s = RtlExtendedIntegerMultiply s 10000000"

definition ConvertMillisecondsToDays :: "LARGE_INTEGER \<Rightarrow> LARGE_INTEGER" where
  "ConvertMillisecondsToDays m = RtlExtendedMagicDivide m Magic86400000 26"

definition ConvertDaysToMilliseconds :: "ULONG \<Rightarrow> LARGE_INTEGER" where
  "ConvertDaysToMilliseconds d = Int32x32To64 d 86400000"

section \<open>Calendar routines\<close>

definition ElapsedDaysToYears :: "ULONG \<Rightarrow> ULONG" where
  "ElapsedDaysToYears ElapsedDays =
     (let NumberOf400s = ElapsedDays div 146097;
          d1 = ElapsedDays - NumberOf400s * 146097;
          NumberOf100s = (d1 * 100 + 75) div 3652425;
          d2 = d1 - NumberOf100s * 36524;
          NumberOf4s = d2 div 1461;
          d3 = d2 - NumberOf4s * 1461
      in NumberOf400s * 400 + NumberOf100s * 100 + NumberOf4s * 4 + (d3 * 100 + 75) div 36525)"

definition NumberOfLeapYears :: "ULONG \<Rightarrow> ULONG" where
  "NumberOfLeapYears y = y div 4 - y div 100 + y div 400"

definition ElapsedYearsToDays :: "ULONG \<Rightarrow> ULONG" where
  "ElapsedYearsToDays y = y * 365 + NumberOfLeapYears y"

definition IsLeapYear :: "ULONG \<Rightarrow> bool" where
  "IsLeapYear y \<longleftrightarrow> y mod 400 = 0 \<or> (y mod 100 \<noteq> 0 \<and> y mod 4 = 0)"

definition MaxDaysInMonth :: "ULONG \<Rightarrow> ULONG \<Rightarrow> int" where
  "MaxDaysInMonth year month =
     (if IsLeapYear year
      then sint (LeapYearDaysPrecedingMonth ! (unat month + 1)) - sint (LeapYearDaysPrecedingMonth ! unat month)
      else sint (NormalYearDaysPrecedingMonth ! (unat month + 1)) - sint (NormalYearDaysPrecedingMonth ! unat month))"

definition TimeToDaysAndFraction :: "LARGE_INTEGER \<Rightarrow> ULONG \<times> ULONG" where
  "TimeToDaysAndFraction Time =
     (let TotalMilliseconds = Convert100nsToMilliseconds Time;
          ElapsedDays = LowPart (ConvertMillisecondsToDays TotalMilliseconds);
          Temp = ConvertDaysToMilliseconds ElapsedDays
      in (ElapsedDays, LowPart (TotalMilliseconds - Temp)))"

definition DaysAndFractionToTime :: "ULONG \<Rightarrow> ULONG \<Rightarrow> LARGE_INTEGER" where
  "DaysAndFractionToTime ElapsedDays ms =
     (let Temp = ConvertDaysToMilliseconds ElapsedDays;
          Temp2 = ucast ms
      in ConvertMillisecondsTo100ns (Temp + Temp2))"

text \<open>The year and the day of the year, as \<open>RtlTimeToTimeFields\<close> computes them from the elapsed days.\<close>

definition YearAndDay :: "ULONG \<Rightarrow> ULONG \<times> ULONG" where
  "YearAndDay Days =
     (let Years = ElapsedDaysToYears Days in (Years, Days - ElapsedYearsToDays Years))"

definition RtlTimeToTimeFields :: "LARGE_INTEGER \<Rightarrow> TIME_FIELDS" where
  "RtlTimeToTimeFields Time =
     (let (Days0, ms0) = TimeToDaysAndFraction Time;
          wd = (Days0 + WEEKDAY_OF_1601) mod 7;
          (Years, Days1) = YearAndDay Days0;
          (Mon, Days) =
            (if IsLeapYear (Years + 1)
             then (let m = (ucast (LeapYearDayToMonth ! unat Days1) :: ULONG)
                   in (m, Days1 - scast (LeapYearDaysPrecedingMonth ! unat m)))
             else (let m = (ucast (NormalYearDayToMonth ! unat Days1) :: ULONG)
                   in (m, Days1 - scast (NormalYearDaysPrecedingMonth ! unat m))));
          Seconds0 = ms0 div 1000;
          ms = ms0 mod 1000;
          Minutes0 = Seconds0 div 60;
          Seconds = Seconds0 mod 60;
          Hours = Minutes0 div 60;
          Minutes = Minutes0 mod 60
      in \<lparr>Year = ucast (Years + 1601), Month = ucast (Mon + 1), Day = ucast (Days + 1),
          Hour = ucast Hours, Minute = ucast Minutes, Second = ucast Seconds,
          Milliseconds = ucast ms, Weekday = ucast wd\<rparr>)"

text \<open>
  \<open>RtlTimeFieldsToTime\<close> returns FALSE (\<open>None\<close>) on malformed fields; each field is sign extended
  into its \<open>ULONG\<close> variable, so negative fields become large and fail the range tests.
\<close>

definition RtlTimeFieldsToTime :: "TIME_FIELDS \<Rightarrow> LARGE_INTEGER option" where
  "RtlTimeFieldsToTime tf =
     (let yr = (scast (Year tf) :: ULONG);
          mon = (scast (Month tf) :: ULONG) - 1;
          dy = (scast (Day tf) :: ULONG) - 1;
          hr = (scast (Hour tf) :: ULONG);
          mi = (scast (Minute tf) :: ULONG);
          sec = (scast (Second tf) :: ULONG);
          ms = (scast (Milliseconds tf) :: ULONG)
      in if sint (Month tf) < 1 \<or> sint (Day tf) < 1 \<or> yr < 1601 \<or> yr > 30827 \<or> mon > 11
            \<or> sint (ucast dy :: CSHORT) \<ge> MaxDaysInMonth yr mon
            \<or> hr > 23 \<or> mi > 59 \<or> sec > 59 \<or> ms > 999
         then None
         else (let e0 = ElapsedYearsToDays (yr - 1601);
                   e1 = (if IsLeapYear (yr - 1600)
                         then e0 + scast (LeapYearDaysPrecedingMonth ! unat mon)
                         else e0 + scast (NormalYearDaysPrecedingMonth ! unat mon));
                   ElapsedDays = e1 + dy;
                   ElapsedMilliseconds = ((hr * 60 + mi) * 60 + sec) * 1000 + ms
               in Some (DaysAndFractionToTime ElapsedDays ElapsedMilliseconds)))"

definition RtlTimeToElapsedTimeFields :: "LARGE_INTEGER \<Rightarrow> TIME_FIELDS \<Rightarrow> TIME_FIELDS" where
  "RtlTimeToElapsedTimeFields Time tf =
     (let (Days, ms0) = TimeToDaysAndFraction Time;
          Seconds0 = ms0 div 1000;
          ms = ms0 mod 1000;
          Minutes0 = Seconds0 div 60;
          Seconds = Seconds0 mod 60;
          Hours = Minutes0 div 60;
          Minutes = Minutes0 mod 60
      in tf\<lparr>Year := 0, Month := 0, Day := ucast Days, Hour := ucast Hours, Minute := ucast Minutes,
            Second := ucast Seconds, Milliseconds := ucast ms\<rparr>)"

definition RtlTimeToSecondsSince1980 :: "LARGE_INTEGER \<Rightarrow> ULONG option" where
  "RtlTimeToSecondsSince1980 Time =
     (let s = Convert100nsToSeconds Time - SecondsToStartOf1980
      in if HighPart s \<noteq> 0 then None else Some (LowPart s))"

definition RtlSecondsSince1980ToTime :: "ULONG \<Rightarrow> LARGE_INTEGER" where
  "RtlSecondsSince1980ToTime es = ConvertSecondsTo100ns (ucast es + SecondsToStartOf1980)"

definition RtlTimeToSecondsSince1970 :: "LARGE_INTEGER \<Rightarrow> ULONG option" where
  "RtlTimeToSecondsSince1970 Time =
     (let s = Convert100nsToSeconds Time - SecondsToStartOf1970
      in if HighPart s \<noteq> 0 then None else Some (LowPart s))"

definition RtlSecondsSince1970ToTime :: "ULONG \<Rightarrow> LARGE_INTEGER" where
  "RtlSecondsSince1970ToTime es = ConvertSecondsTo100ns (ucast es + SecondsToStartOf1970)"

section \<open>Magic division is exact\<close>

lemma magic_div_nat:
  fixes x :: nat
  assumes "M * d = 2 ^ k + e" "x * e < 2 ^ k" "0 < d"
  shows "(x * M) div 2 ^ k = x div d"
proof -
  define q r where "q = x div d" and "r = x mod d"
  have x: "x = q * d + r" and r: "r < d" using assms(3) by (simp_all add: q_def r_def)
  have "d * (q * e + r * M) = x * e + r * 2 ^ k"
    using assms(1) by (simp add: x algebra_simps) (metis add_mult_distrib2 mult.commute mult.left_commute)
  also have "\<dots> < 2 ^ k + r * 2 ^ k" using assms(2) by simp
  also have "\<dots> \<le> d * 2 ^ k" using r by (metis Suc_leI mult_Suc mult_le_mono1)
  finally have lt: "q * e + r * M < 2 ^ k" using assms(3) by simp
  have "x * M = q * (M * d) + r * M" by (simp add: x algebra_simps)
  also have "\<dots> = q * 2 ^ k + (q * e + r * M)" by (simp add: assms(1) algebra_simps)
  finally show ?thesis using lt by (simp add: q_def)
qed

lemma unat_umulh: "unat (UnsignedMultiplyHigh a b) = (unat a * unat b) div 2 ^ 64"
proof -
  have "unat a * unat b < 2 ^ 64 * 2 ^ 64"
    using unat_bound [of a] unat_bound [of b] by (intro mult_strict_mono) auto
  then have "(unat a * unat b) div 2 ^ 64 < 2 ^ 64"
    by (simp add: less_mult_imp_div_less)
  then show ?thesis by (simp add: UnsignedMultiplyHigh_def unat_of_nat)
qed

lemma unat_magic:
  assumes "unat M * d = 2 ^ (64 + sh) + e" "2 ^ 63 * e < 2 ^ (64 + sh)" "0 < d" "unat x \<le> 2 ^ 63"
  shows "unat (drop_bit sh (UnsignedMultiplyHigh x M)) = unat x div d"
proof -
  have lt: "unat x * e < 2 ^ (64 + sh)"
    by (rule le_less_trans [OF mult_le_mono1 [OF assms(4)] assms(2)])
  have "unat (drop_bit sh (UnsignedMultiplyHigh x M)) = (unat x * unat M) div 2 ^ 64 div 2 ^ sh"
    unfolding unat_drop_bit_eq unat_umulh by (simp add: drop_bit_eq_div)
  also have "\<dots> = (unat x * unat M) div 2 ^ (64 + sh)"
    by (simp add: div_mult2_eq power_add)
  finally show ?thesis using magic_div_nat [OF assms(1) lt assms(3)] by simp
qed

lemma magic_divide_sint:
  assumes "unat M * d = 2 ^ (64 + sh) + e" "2 ^ 63 * e < 2 ^ (64 + sh)" "1 < d"
  shows "sint (RtlExtendedMagicDivide x M sh) = sgn (sint x) * (\<bar>sint x\<bar> div int d)"
proof (cases "0 \<le> sint x")
  case True
  then have x: "unat x < 2 ^ 63" "sint x = int (unat x)"
    using sint_nonneg_unat [of x] sint_eq_unat [of x] by auto
  have q: "unat (RtlExtendedMagicDivide x M sh) = unat x div d"
    using True x unat_magic [OF assms(1,2)] assms(3) by (simp add: RtlExtendedMagicDivide_def)
  moreover have "unat x div d < 2 ^ 63"
    using x(1) div_le_dividend [of "unat x" d] by linarith
  ultimately have "sint (RtlExtendedMagicDivide x M sh) = int (unat x div d)"
    by (simp add: sint_eq_unat)
  then show ?thesis using x by (simp add: zdiv_int sgn_if)
next
  case False
  then have ux: "\<not> unat x < 2 ^ 63" using sint_nonneg_unat [of x] by simp
  then have "x \<noteq> 0" by auto
  define y where "y = unat (- x)"
  have y: "y = 2 ^ 64 - unat x" using unat_uminus [OF \<open>x \<noteq> 0\<close>] by (simp add: y_def)
  then have yb: "y \<le> 2 ^ 63" "0 < y" "int y = 2 ^ 64 - int (unat x)"
    using ux unat_bound [of x] by (simp_all add: of_nat_diff)
  have sx: "sint x = - int y" using sint_neg_unat [of x] ux yb(3) by simp
  define r where "r = drop_bit sh (UnsignedMultiplyHigh (- x) M)"
  have ur: "unat r = y div d"
    using unat_magic [OF assms(1,2), of "- x"] assms(3) yb(1) by (simp add: r_def y_def)
  have small: "y div d < 2 ^ 63"
    using yb assms(3) by (metis div_less_dividend less_le_trans)
  have "sint (- r) = - int (y div d)"
  proof (cases "r = 0")
    case True
    then show ?thesis using ur by simp
  next
    case False
    then have "unat (- r) = 2 ^ 64 - y div d" using unat_uminus [of r] ur by simp
    moreover from this have "\<not> unat (- r) < 2 ^ 63" using small by simp
    ultimately show ?thesis using sint_neg_unat [of "- r"] small by (simp add: of_nat_diff)
  qed
  then show ?thesis using False sx yb(2) by (simp add: RtlExtendedMagicDivide_def r_def sgn_if zdiv_int)
qed

lemmas magic_facts = Magic10000_def Magic10000000_def Magic86400000_def

lemma Convert100nsToMilliseconds_sint:
  "sint (Convert100nsToMilliseconds t) = sgn (sint t) * (\<bar>sint t\<bar> div 10000)"
  using magic_divide_sint [of Magic10000 10000 13 1728 t]
  by (simp add: Convert100nsToMilliseconds_def magic_facts)

lemma Convert100nsToSeconds_sint:
  "sint (Convert100nsToSeconds t) = sgn (sint t) * (\<bar>sint t\<bar> div 10000000)"
  using magic_divide_sint [of Magic10000000 10000000 23 7609472 t]
  by (simp add: Convert100nsToSeconds_def magic_facts)

lemma ConvertMillisecondsToDays_sint:
  "sint (ConvertMillisecondsToDays t) = sgn (sint t) * (\<bar>sint t\<bar> div 86400000)"
  using magic_divide_sint [of Magic86400000 86400000 26 76875776 t]
  by (simp add: ConvertMillisecondsToDays_def magic_facts)

section \<open>Splitting a time into days and milliseconds\<close>

lemma nonneg_time: "0 \<le> sint t \<Longrightarrow> sint t = int (unat t) \<and> unat t < 2 ^ 63" for t :: LARGE_INTEGER
  using sint_nonneg_unat [of t] sint_eq_unat [of t] by simp

lemma unat_Convert:
  assumes "0 \<le> sint t"
  shows "unat (Convert100nsToMilliseconds t) = unat t div 10000"
    and "unat (Convert100nsToSeconds t) = unat t div 10000000"
    and "unat (ConvertMillisecondsToDays t) = unat t div 86400000"
  using nonneg_time [OF assms]
  by (intro unat_of_sint; simp add: Convert100nsToMilliseconds_sint Convert100nsToSeconds_sint
      ConvertMillisecondsToDays_sint zdiv_int sgn_if)+

lemma unat_ConvertDaysToMilliseconds:
  "unat d < 2 ^ 31 \<Longrightarrow> unat (ConvertDaysToMilliseconds d) = unat d * 86400000"
  by (simp add: ConvertDaysToMilliseconds_def Int32x32To64_def word_views)

lemma TimeToDaysAndFraction_nat:
  assumes "0 \<le> sint t" "TimeToDaysAndFraction t = (d, ms)"
  shows "unat d = unat t div 864000000000" "unat ms = unat t div 10000 mod 86400000"
    "unat d \<le> 10675199"
proof -
  define m where "m = Convert100nsToMilliseconds t"
  have t: "unat t < 2 ^ 63" using nonneg_time [OF assms(1)] by simp
  have m: "unat m = unat t div 10000" by (simp add: m_def unat_Convert [OF assms(1)])
  then have mb: "unat m \<le> 922337203685477" using t by simp
  then have m0: "0 \<le> sint m" using sint_nonneg_unat [of m] by simp
  have d: "d = LowPart (ConvertMillisecondsToDays m)"
    and ms: "ms = LowPart (m - ConvertDaysToMilliseconds d)"
    using assms(2) by (auto simp: TimeToDaysAndFraction_def Let_def m_def)
  have db: "unat m div 86400000 \<le> 10675199"
    using mb by (simp add: div_le_mono [THEN order_trans, of "unat m" 922337203685477])
  then have ud: "unat d = unat m div 86400000"
    unfolding d LowPart_def by (subst unat_ucast_small) (simp_all add: unat_Convert(3) [OF m0])
  with db show "unat d \<le> 10675199" by simp
  show "unat d = unat t div 864000000000"
    unfolding ud m by (simp flip: div_mult2_eq)
  have cd: "unat (ConvertDaysToMilliseconds d) = unat m div 86400000 * 86400000"
    using ud db by (simp add: unat_ConvertDaysToMilliseconds)
  then have "unat (m - ConvertDaysToMilliseconds d) = unat m - unat m div 86400000 * 86400000"
    by (simp add: unat_sub_small)
  also have "\<dots> = unat m mod 86400000" by (simp add: modulo_nat_def)
  finally have um: "unat (m - ConvertDaysToMilliseconds d) = unat m mod 86400000" .
  have "unat m mod 86400000 < 86400000" by simp
  then have "unat ms = unat m mod 86400000"
    unfolding ms LowPart_def using um by (subst unat_ucast_small) simp_all
  then show "unat ms = unat t div 10000 mod 86400000" using m by simp
qed

lemma DaysAndFractionToTime_nat:
  assumes "unat d \<le> 10675198" "unat ms < 86400000"
  shows "unat (DaysAndFractionToTime d ms) = (unat d * 86400000 + unat ms) * 10000"
proof -
  let ?m = "ConvertDaysToMilliseconds d"
  have m: "unat ?m = unat d * 86400000" using assms(1) by (simp add: unat_ConvertDaysToMilliseconds)
  have u: "unat (ucast ms :: 64 word) = unat ms" using unat_bound [of ms] by (simp add: unat_ucast_small)
  have s: "unat (?m + ucast ms) = unat d * 86400000 + unat ms"
    using assms m u by (subst unat_add_small) simp_all
  have "unat ((?m + ucast ms) * (10000 :: 64 word)) = unat (?m + ucast ms) * unat (10000 :: 64 word)"
    by (rule unat_mult_small) (use assms s in simp)
  then show ?thesis
    using s by (simp add: DaysAndFractionToTime_def ConvertMillisecondsTo100ns_def
        RtlExtendedIntegerMultiply_def Let_def distrib_right)
qed

end
