(* ===== verification/TimeCalendar.thy ===== *)
theory TimeCalendar
  imports TimeFields
begin

text \<open>
  Correctness of the calendar part of \<open>src/ntoskrnl/rtl/time.c\<close>: the block computation of the
  year, the day and month tables, and the round trips between 64-bit times, calendar fields and
  the 1970 and 1980 second counts.  The reference is a year-by-year count of days.
\<close>

section \<open>The calendar\<close>

text \<open>
  The reference: the Gregorian leap year rule, and the days from 1 January 1601 to 1 January of
  the year \<open>1601 + n\<close> counted year by year.
\<close>

definition leap :: "nat \<Rightarrow> bool" where
  "leap y \<longleftrightarrow> 4 dvd y \<and> (\<not> 100 dvd y \<or> 400 dvd y)"

fun days_before_year :: "nat \<Rightarrow> nat" where
  "days_before_year 0 = 0"
| "days_before_year (Suc n) = days_before_year n + (if leap (1601 + n) then 366 else 365)"

lemma leap_mods:
  shows "leap n \<longleftrightarrow> n mod 400 = 0 \<or> (n mod 100 \<noteq> 0 \<and> n mod 4 = 0)"
    and "n mod 400 = 0 \<Longrightarrow> n mod 100 = 0" and "n mod 100 = 0 \<Longrightarrow> n mod 4 = 0"
proof -
  show h: "n mod 400 = 0 \<Longrightarrow> n mod 100 = 0" and f: "n mod 100 = 0 \<Longrightarrow> n mod 4 = 0"
    using dvd_trans [of 100 400 n] dvd_trans [of 4 100 n] by (simp_all add: mod_eq_0_iff_dvd)
  show "leap n \<longleftrightarrow> n mod 400 = 0 \<or> (n mod 100 \<noteq> 0 \<and> n mod 4 = 0)"
    unfolding leap_def using h f by (auto simp: mod_eq_0_iff_dvd)
qed

lemma leap_1600: "leap (1600 + n) \<longleftrightarrow> leap n"
  unfolding leap_def by presburger

lemma leap_1601: "leap (1601 + n) \<longleftrightarrow> leap (Suc n)"
  using leap_1600 [of "Suc n"] by simp

lemma leap_div:
  "(if leap (Suc n) then 1 else 0) + Suc n div 100 + n div 4 + n div 400
   = Suc n div 4 + Suc n div 400 + n div 100"
  using leap_mods [of "Suc n"] by (simp add: div_Suc [of n])

lemma days_before_year_closed: "days_before_year n + n div 100 = n * 365 + n div 4 + n div 400"
proof (induction n)
  case (Suc n)
  then show ?case
    using leap_div [of n] leap_1601 [of n] by (cases "leap (Suc n)") simp_all
qed simp

lemma unat_NumberOfLeapYears:
  "unat (NumberOfLeapYears y) + unat y div 100 = unat y div 4 + unat y div 400"
proof -
  have "unat y < 4294967296" using unat_bound [of y] by simp
  moreover have "unat y div 100 \<le> unat y div 4" by (rule div_le_mono2) auto
  moreover have "unat (y div 4 - y div 100) = unat y div 4 - unat y div 100"
    using calculation by (simp add: word_views)
  ultimately show ?thesis
    unfolding NumberOfLeapYears_def by (subst unat_add_small) (auto simp: unat_div_word)
qed

lemma unat_ElapsedYearsToDays:
  assumes "unat y \<le> 11759221"
  shows "unat (ElapsedYearsToDays y) = days_before_year (unat y)"
proof -
  have l: "unat y * 365 + unat (NumberOfLeapYears y) < 4294967296"
  proof -
    have "4 * (unat y div 4) \<le> unat y" "unat y < 100 + 100 * (unat y div 100)"
      "400 * (unat y div 400) \<le> unat y"
      by (simp_all add: dividend_less_times_div)
    then show ?thesis using unat_NumberOfLeapYears [of y] assms by linarith
  qed
  have m: "unat (y * 365) = unat y * 365" using assms by (subst unat_mult_small) auto
  have "unat (ElapsedYearsToDays y) = unat y * 365 + unat (NumberOfLeapYears y)"
    unfolding ElapsedYearsToDays_def using m l assms by (subst unat_add_small) auto
  then show ?thesis
    using days_before_year_closed [of "unat y"] unat_NumberOfLeapYears [of y] by simp
qed

lemma IsLeapYear_leap: "IsLeapYear y \<longleftrightarrow> leap (unat y)"
proof -
  have "IsLeapYear y \<longleftrightarrow> unat (y mod 400) = 0 \<or> (unat (y mod 100) \<noteq> 0 \<and> unat (y mod 4) = 0)"
    by (simp add: IsLeapYear_def unat_0_iff)
  also have "\<dots> \<longleftrightarrow> leap (unat y)"
    by (simp add: unat_mod_word leap_mods(1))
  finally show ?thesis .
qed

text \<open>The block computation of \<open>ElapsedDaysToYears\<close> on natural numbers.\<close>

lemma days_of_blocks:
  assumes "b \<le> 3" "c \<le> 24" "e \<le> 3"
  shows "days_before_year (a * 400 + b * 100 + c * 4 + e) = a * 146097 + b * 36524 + c * 1461 + e * 365"
proof -
  let ?y = "a * 400 + b * 100 + c * 4 + e"
  have "?y div 4 = a * 100 + b * 25 + c" "?y div 100 = a * 4 + b" "?y div 400 = a"
    by (rule div_nat_eqI; use assms in simp)+
  then show ?thesis using days_before_year_closed [of ?y] by simp
qed

lemma year_blocks:
  fixes d :: nat
  defines "a \<equiv> d div 146097" and "r \<equiv> d mod 146097"
  defines "b \<equiv> (r * 100 + 75) div 3652425"
  defines "r2 \<equiv> r - b * 36524"
  defines "c \<equiv> r2 div 1461" and "r3 \<equiv> r2 - (r2 div 1461) * 1461"
  defines "e \<equiv> (r3 * 100 + 75) div 36525"
  shows "b * 36524 \<le> r" "r < 146097" "b \<le> 3" "c \<le> 24" "e \<le> 3" "c * 1461 \<le> r2" "r3 \<le> 1460"
    and "days_before_year (a * 400 + b * 100 + c * 4 + e) \<le> d"
    and "d < days_before_year (Suc (a * 400 + b * 100 + c * 4 + e))"
proof -
  show r: "r < 146097" by (simp add: r_def)
  have b1: "b * 3652425 \<le> r * 100 + 75" "r * 100 + 75 < (b + 1) * 3652425"
    unfolding b_def using dividend_less_div_times [of 3652425 "r * 100 + 75"]
    by (simp_all add: div_times_less_eq_dividend)
  then show b3: "b \<le> 3" using r by linarith
  show br: "b * 36524 \<le> r" using b1(1) b3 by linarith
  have rb: "r = b * 36524 + r2" using br by (simp add: r2_def)
  have r2: "r2 \<le> 36524" using b1(2) b3 r rb by simp
  have r2': "r2 < 36524" if "b \<le> 2" using b1(2) that rb by simp
  have c1: "c * 1461 + r3 = r2" "r3 < 1461" unfolding c_def r3_def by (simp_all add: minus_div_mult_eq_mod)
  show c24: "c \<le> 24" using c1 r2 by linarith
  show "c * 1461 \<le> r2" "r3 \<le> 1460" using c1 by linarith+
  have e1: "e * 36525 \<le> r3 * 100 + 75" "r3 * 100 + 75 < (e + 1) * 36525"
    unfolding e_def using dividend_less_div_times [of 36525 "r3 * 100 + 75"]
    by (simp_all add: div_times_less_eq_dividend)
  then show e3: "e \<le> 3" using c1(2) by linarith
  have d: "d = a * 146097 + r" by (simp add: a_def r_def)
  let ?y = "a * 400 + b * 100 + c * 4 + e"
  have dy: "days_before_year ?y = a * 146097 + b * 36524 + c * 1461 + e * 365"
    by (rule days_of_blocks [OF b3 c24 e3])
  have e365: "e * 365 \<le> r3" using e1 e3 by linarith
  show "days_before_year ?y \<le> d" using dy d c1(1) e365 rb by linarith
  have gap: "d - days_before_year ?y = r3 - e * 365"
    using dy d c1(1) e365 rb by linarith
  have "r3 - e * 365 < (if leap (1601 + ?y) then 366 else 365)"
  proof (cases "r3 - e * 365 < 365")
    case False
    then have ge: "e * 365 + 365 \<le> r3" by simp
    then have e: "e = 3" using e1(2) e3 by simp
    then have r3: "r3 = 1460" using ge c1(2) by simp
    have "leap (Suc ?y)"
    proof (cases "c = 24")
      case True
      then have "b = 3" using r2' c1(1) r3 b3 by linarith
      then have "Suc ?y = 400 * (a + 1)" using True e by simp
      then have "Suc ?y mod 400 = 0" by (simp only: mod_mult_self1_is_0)
      then show ?thesis by (simp only: leap_mods(1) simp_thms)
    next
      case False
      have "Suc ?y = (4 * c + 4) + 100 * (a * 4 + b)" using e by simp
      then have "Suc ?y mod 100 = (4 * c + 4) mod 100" by (simp only: mod_mult_self2)
      then have h: "Suc ?y mod 100 \<noteq> 0" using False c24 by simp
      have "Suc ?y = 4 * (a * 100 + b * 25 + c + 1)" using e by simp
      then have "Suc ?y mod 4 = 0" by (simp only: mod_mult_self1_is_0)
      with h show ?thesis by (simp only: leap_mods(1) simp_thms not_False_eq_True)
    qed
    then show ?thesis using leap_1601 [of ?y] e r3 by simp
  qed simp
  then show "d < days_before_year (Suc ?y)"
    using gap \<open>days_before_year ?y \<le> d\<close> by simp
qed

lemma unat_biased_div:
  "unat w < 146097 \<Longrightarrow> unat ((w * 100 + 75) div c) = (unat w * 100 + 75) div unat c" for w c :: ULONG
  by (simp add: word_views)

lemma ElapsedDaysToYears_spec:
  shows "days_before_year (unat (ElapsedDaysToYears d)) \<le> unat d"
    and "unat d < days_before_year (Suc (unat (ElapsedDaysToYears d)))"
proof -
  note yb = year_blocks [of "unat d"]
  have "unat d < 29399 * 146097" using unat_bound [of d] by simp
  then have a: "unat d div 146097 < 29399" by (rule less_mult_imp_div_less)
  define w1 where "w1 = d mod 146097"
  have w1: "unat w1 = unat d mod 146097" by (simp add: w1_def word_views)
  define b where "b = (w1 * 100 + 75) div 3652425"
  have b: "unat b = (unat d mod 146097 * 100 + 75) div 3652425"
    using w1 by (simp add: b_def unat_biased_div)
  define w2 where "w2 = w1 - b * 36524"
  have b3: "unat b \<le> 3" using yb(3) b by simp
  then have "unat (b * 36524) = unat b * 36524" by (simp add: word_views)
  then have w2: "unat w2 = unat d mod 146097 - unat b * 36524"
    using yb(1) b w1 by (simp add: w2_def unat_sub_small)
  define c where "c = w2 div 1461"
  have c: "unat c = unat w2 div 1461" by (simp add: c_def word_views)
  define w3 where "w3 = w2 mod 1461"
  have w3: "unat w3 = unat w2 - unat w2 div 1461 * 1461" "unat w3 < 1461"
    by (simp_all add: w3_def word_views minus_div_mult_eq_mod)
  define e where "e = (w3 * 100 + 75) div 36525"
  have e: "unat e = (unat w3 * 100 + 75) div 36525" using w3(2) by (simp add: e_def unat_biased_div)
  have e3: "unat e \<le> 3" unfolding e w3(1) w2 b by (rule yb(5))
  have c24: "unat c \<le> 24" unfolding c w2 b by (rule yb(4))
  have "ElapsedDaysToYears d = d div 146097 * 400 + b * 100 + c * 4 + e"
    unfolding ElapsedDaysToYears_def b_def c_def e_def w1_def w2_def w3_def Let_def
    by (simp add: minus_div_mult_eq_mod)
  moreover have "unat (d div 146097 * 400 + b * 100 + c * 4 + e)
      = unat d div 146097 * 400 + unat b * 100 + unat c * 4 + unat e"
    using a b3 c24 e3 by (simp add: unat_add_small unat_mult_small unat_div_word)
  ultimately have y: "unat (ElapsedDaysToYears d)
      = unat d div 146097 * 400 + unat b * 100 + unat c * 4 + unat e" by simp
  show "days_before_year (unat (ElapsedDaysToYears d)) \<le> unat d"
    unfolding y e w3(1) c w2 b by (rule yb(8))
  show "unat d < days_before_year (Suc (unat (ElapsedDaysToYears d)))"
    unfolding y e w3(1) c w2 b by (rule yb(9))
qed

lemma days_before_year_ge: "n * 365 + n div 400 \<le> days_before_year n"
proof -
  have "n div 100 \<le> n div 4" by (rule div_le_mono2) auto
  then show ?thesis using days_before_year_closed [of n] by linarith
qed

lemma days_before_year_mono: "m \<le> n \<Longrightarrow> days_before_year m \<le> days_before_year n"
  by (rule lift_Suc_mono_le [of days_before_year]) simp_all

lemma year_unique:
  assumes "days_before_year m \<le> d" "d < days_before_year (Suc m)"
    "days_before_year n \<le> d" "d < days_before_year (Suc n)"
  shows "m = n"
proof (rule ccontr)
  assume "m \<noteq> n"
  then consider "Suc m \<le> n" | "Suc n \<le> m" by linarith
  then show False
    by cases (use days_before_year_mono assms in \<open>metis leD le_trans\<close>)+
qed

lemma ElapsedDaysToYears_bound: "unat (ElapsedDaysToYears d) \<le> 11759221"
proof (rule ccontr)
  let ?y = "unat (ElapsedDaysToYears d)"
  assume "\<not> ?y \<le> 11759221"
  then have "11759222 \<le> ?y" by simp
  then have "days_before_year 11759222 \<le> days_before_year ?y" by (rule days_before_year_mono)
  then show False
    using ElapsedDaysToYears_spec(1) [of d] unat_bound [of d] days_before_year_closed [of 11759222] by simp
qed

lemma YearAndDay_spec:
  assumes "YearAndDay d = (y, n)"
  shows "unat d = days_before_year (unat y) + unat n"
    and "unat n < (if leap (1601 + unat y) then 366 else 365)"
    and "IsLeapYear (y + 1) \<longleftrightarrow> leap (1601 + unat y)"
proof -
  have y: "y = ElapsedDaysToYears d" and n: "n = d - ElapsedYearsToDays y"
    using assms by (auto simp: YearAndDay_def Let_def)
  have yb: "unat y \<le> 11759221" unfolding y by (rule ElapsedDaysToYears_bound)
  have le: "days_before_year (unat y) \<le> unat d" and lt: "unat d < days_before_year (Suc (unat y))"
    unfolding y by (rule ElapsedDaysToYears_spec)+
  have "unat n = unat d - days_before_year (unat y)"
    unfolding n using le by (simp add: unat_sub_small unat_ElapsedYearsToDays [OF yb])
  then show "unat d = days_before_year (unat y) + unat n"
    and "unat n < (if leap (1601 + unat y) then 366 else 365)"
    using le lt by (auto split: if_splits)
  have "unat (y + 1) = Suc (unat y)" using yb by (simp add: word_views)
  then show "IsLeapYear (y + 1) \<longleftrightarrow> leap (1601 + unat y)"
    by (simp only: IsLeapYear_leap leap_1601)
qed

section \<open>Months\<close>

text \<open>
  The reference for dates: the length of a month (1 for January), the days of the year before a
  month (0 for January), and the number of days from 1 January 1601 to a date.
\<close>

definition days_in_month :: "bool \<Rightarrow> nat \<Rightarrow> nat" where
  "days_in_month lp m = (if m = 2 then (if lp then 29 else 28) else if m \<in> {4, 6, 9, 11} then 30 else 31)"

fun month_start :: "bool \<Rightarrow> nat \<Rightarrow> nat" where
  "month_start lp 0 = 0"
| "month_start lp (Suc m) = month_start lp m + days_in_month lp (Suc m)"

definition valid_date :: "nat \<Rightarrow> nat \<Rightarrow> nat \<Rightarrow> bool" where
  "valid_date y m d \<longleftrightarrow> 1601 \<le> y \<and> 1 \<le> m \<and> m \<le> 12 \<and> 1 \<le> d \<and> d \<le> days_in_month (leap y) m"

definition date_days :: "nat \<Rightarrow> nat \<Rightarrow> nat \<Rightarrow> nat" where
  "date_days y m d = days_before_year (y - 1601) + month_start (leap y) (m - 1) + (d - 1)"

definition DayToMonth :: "bool \<Rightarrow> UCHAR list" where
  "DayToMonth lp = (if lp then LeapYearDayToMonth else NormalYearDayToMonth)"

definition DaysPrecedingMonth :: "bool \<Rightarrow> CSHORT list" where
  "DaysPrecedingMonth lp = (if lp then LeapYearDaysPrecedingMonth else NormalYearDaysPrecedingMonth)"

lemma month_start_values:
  shows "month_start lp 1 = 31" "month_start lp (Suc 0) = 31"
    and "month_start lp 2 = (if lp then 60 else 59)" "month_start lp 3 = (if lp then 91 else 90)"
    and "month_start lp 4 = (if lp then 121 else 120)" "month_start lp 5 = (if lp then 152 else 151)"
    and "month_start lp 6 = (if lp then 182 else 181)" "month_start lp 7 = (if lp then 213 else 212)"
    and "month_start lp 8 = (if lp then 244 else 243)" "month_start lp 9 = (if lp then 274 else 273)"
    and "month_start lp 10 = (if lp then 305 else 304)" "month_start lp 11 = (if lp then 335 else 334)"
    and "month_start lp 12 = (if lp then 366 else 365)"
  by (simp_all add: eval_nat_numeral days_in_month_def)

text \<open>Each day table is the sequence of months, each repeated for its days.\<close>

definition month_runs :: "bool \<Rightarrow> nat \<Rightarrow> UCHAR list" where
  "month_runs lp k = concat (map (\<lambda>m. replicate (days_in_month lp (Suc m)) (word_of_nat m)) [0..<k])"

lemma month_runs_length: "length (month_runs lp k) = month_start lp k"
  by (induction k) (simp_all add: month_runs_def)

lemma month_runs_nth:
  "n < month_start lp k \<Longrightarrow>
   \<exists>m<k. month_runs lp k ! n = word_of_nat m \<and> month_start lp m \<le> n \<and> n < month_start lp (Suc m)"
proof (induction k)
  case (Suc k)
  have app: "month_runs lp (Suc k) = month_runs lp k @ replicate (days_in_month lp (Suc k)) (word_of_nat k)"
    by (simp add: month_runs_def)
  show ?case
  proof (cases "n < month_start lp k")
    case True
    then obtain m where "m < k" "month_runs lp k ! n = word_of_nat m" "month_start lp m \<le> n"
        "n < month_start lp (Suc m)"
      using Suc.IH by blast
    then show ?thesis
      using True unfolding app
      by (intro exI [of _ m]) (simp add: nth_append month_runs_length del: month_start.simps)
  next
    case False
    then show ?thesis
      using Suc.prems unfolding app by (intro exI [of _ k]) (simp add: nth_append month_runs_length)
  qed
qed simp

lemma DayToMonth_runs: "DayToMonth lp = month_runs lp 12"
proof -
  have "[0..<12] = [0, 1, 2, 3, 4, 5, 6, 7, 8, 9, 10, 11 :: nat]" by (simp add: upt_rec)
  then show ?thesis
    by (simp add: DayToMonth_def LeapYearDayToMonth_def NormalYearDayToMonth_def month_runs_def
        days_in_month_def)
qed

lemma DayToMonth_length: "length (DayToMonth lp) = (if lp then 366 else 365)"
  by (simp add: DayToMonth_runs month_runs_length month_start_values)

lemma DayToMonth_month:
  assumes "n < length (DayToMonth lp)" "m = unat (DayToMonth lp ! n)"
  shows "m < 12" "month_start lp m \<le> n" "n < month_start lp (Suc m)"
proof -
  obtain k where k: "k < 12" "DayToMonth lp ! n = word_of_nat k"
      "month_start lp k \<le> n" "n < month_start lp (Suc k)"
    using month_runs_nth [of n lp 12] assms(1) unfolding DayToMonth_runs month_runs_length by blast
  then have "m = k" using assms(2) by (simp add: unat_of_nat)
  then show "m < 12" "month_start lp m \<le> n" "n < month_start lp (Suc m)" using k by blast+
qed

lemma unat_DaysPrecedingMonth:
  assumes "m \<le> 12"
  shows "unat (DaysPrecedingMonth lp ! m) = month_start lp m"
proof -
  have "m \<in> {0, 1, 2, 3, 4, 5, 6, 7, 8, 9, 10, 11, 12}" using assms by simp presburger
  then show ?thesis
    by (auto simp: DaysPrecedingMonth_def LeapYearDaysPrecedingMonth_def
        NormalYearDaysPrecedingMonth_def month_start_values days_in_month_def)
qed

lemma month_start_mono: "m \<le> n \<Longrightarrow> month_start lp m \<le> month_start lp n"
  by (rule lift_Suc_mono_le [of "month_start lp"]) simp_all

lemma month_start_le: "m \<le> 12 \<Longrightarrow> month_start lp m \<le> 366"
  using month_start_mono [of m 12 lp] by (simp add: month_start_values split: if_splits)

section \<open>Calendar fields\<close>

lemma month_and_day:
  fixes n :: ULONG
  assumes "unat n < (if lp then 366 else 365)"
    and m: "m = (ucast (DayToMonth lp ! unat n) :: ULONG)"
    and k: "k = n - scast (DaysPrecedingMonth lp ! unat m)"
  shows "unat m < 12" "month_start lp (unat m) + unat k = unat n"
    "unat k < days_in_month lp (Suc (unat m))"
proof -
  let ?c = "DayToMonth lp ! unat n" and ?p = "DaysPrecedingMonth lp ! unat m"
  have um: "unat m = unat ?c" unfolding m by (rule unat_ucast_small) (use unat_bound [of ?c] in simp)
  have "unat n < length (DayToMonth lp)" using assms(1) by (simp add: DayToMonth_length)
  note dm = DayToMonth_month [OF this um]
  show "unat m < 12" by (rule dm(1))
  have up: "unat ?p = month_start lp (unat m)" using dm(1) by (intro unat_DaysPrecedingMonth) simp
  have "month_start lp (unat m) \<le> 366" using dm(1) by (intro month_start_le) simp
  then have "unat (scast ?p :: ULONG) = month_start lp (unat m)"
    using up by (subst unat_scast_small) simp_all
  then have "unat k = unat n - month_start lp (unat m)" using dm(2) by (simp add: k unat_sub_small)
  then show "month_start lp (unat m) + unat k = unat n" "unat k < days_in_month lp (Suc (unat m))"
    using dm(2,3) by simp_all
qed

lemma RtlTimeToTimeFields_eq:
  assumes "TimeToDaysAndFraction t = (d, ms)" "YearAndDay d = (y, n)"
    "lp = leap (1601 + unat y)" "m = (ucast (DayToMonth lp ! unat n) :: ULONG)"
    "k = n - scast (DaysPrecedingMonth lp ! unat m)"
  shows "RtlTimeToTimeFields t =
    \<lparr>Year = ucast (y + 1601), Month = ucast (m + 1), Day = ucast (k + 1),
     Hour = ucast (ms div 1000 div 60 div 60), Minute = ucast (ms div 1000 div 60 mod 60),
     Second = ucast (ms div 1000 mod 60), Milliseconds = ucast (ms mod 1000),
     Weekday = ucast ((d + WEEKDAY_OF_1601) mod 7)\<rparr>"
  using YearAndDay_spec(3) [OF assms(2)] assms
  by (simp add: RtlTimeToTimeFields_def DayToMonth_def DaysPrecedingMonth_def Let_def)

lemma time_of_day:
  fixes ms :: ULONG
  assumes "unat ms < 86400000"
  shows "unat (ucast (ms div 1000 div 60 div 60) :: CSHORT) = unat ms div 3600000"
    and "unat (ucast (ms div 1000 div 60 mod 60) :: CSHORT) = unat ms div 60000 mod 60"
    and "unat (ucast (ms div 1000 mod 60) :: CSHORT) = unat ms div 1000 mod 60"
    and "unat (ucast (ms mod 1000) :: CSHORT) = unat ms mod 1000"
    and "unat ms div 3600000 < 24"
proof -
  have h: "unat ms div 3600000 < 24" by (rule less_mult_imp_div_less) (use assms in simp)
  have lt: "n mod 60 < 65536" "n mod 1000 < 65536" for n :: nat
    using mod_less_divisor [of 60 n] mod_less_divisor [of 1000 n] by linarith+
  have eq: "unat (ms div 1000 div 60 div 60) = unat ms div 3600000"
    "unat (ms div 1000 div 60 mod 60) = unat ms div 60000 mod 60"
    "unat (ms div 1000 mod 60) = unat ms div 1000 mod 60"
    "unat (ms mod 1000) = unat ms mod 1000"
    by (simp_all add: unat_div_word unat_mod_word flip: div_mult2_eq)
  show "unat (ucast (ms div 1000 div 60 div 60) :: CSHORT) = unat ms div 3600000"
    using h by (subst unat_ucast_small) (simp_all add: eq)
  show "unat (ucast (ms div 1000 div 60 mod 60) :: CSHORT) = unat ms div 60000 mod 60"
    "unat (ucast (ms div 1000 mod 60) :: CSHORT) = unat ms div 1000 mod 60"
    "unat (ucast (ms mod 1000) :: CSHORT) = unat ms mod 1000"
    using lt by (subst unat_ucast_small, simp_all add: eq)+
  show "unat ms div 3600000 < 24" by (rule h)
qed

lemma days_before_year_29228: "days_before_year 29228 = 10675308"
  using days_before_year_closed [of 29228] by simp

lemma TimeToTimeFields_nat:
  assumes t: "0 \<le> sint t" and f: "f = RtlTimeToTimeFields t"
  shows "valid_date (unat (Year f)) (unat (Month f)) (unat (Day f))"
    and "date_days (unat (Year f)) (unat (Month f)) (unat (Day f)) = unat t div 864000000000"
    and "unat (Year f) \<le> 30828"
    and "unat (Hour f) = unat t div 10000 mod 86400000 div 3600000"
    and "unat (Minute f) = unat t div 10000 mod 86400000 div 60000 mod 60"
    and "unat (Second f) = unat t div 10000 mod 86400000 div 1000 mod 60"
    and "unat (Milliseconds f) = unat t div 10000 mod 86400000 mod 1000"
    and "unat (Weekday f) = (unat t div 864000000000 + 1) mod 7"
proof -
  obtain d ms where dm: "TimeToDaysAndFraction t = (d, ms)" by force
  obtain y n where yn: "YearAndDay d = (y, n)" by force
  define lp where "lp = leap (1601 + unat y)"
  define m where "m = (ucast (DayToMonth lp ! unat n) :: ULONG)"
  define k where "k = n - scast (DaysPrecedingMonth lp ! unat m)"
  note fe = f [unfolded RtlTimeToTimeFields_eq [OF dm yn lp_def m_def k_def]]
  note ds = TimeToDaysAndFraction_nat [OF t dm]
  note ys = YearAndDay_spec [OF yn, folded lp_def]
  note mk = month_and_day [OF ys(2) m_def k_def]
  have "days_before_year (unat y) < days_before_year 29228"
    using ys(1) ds(3) by (simp add: days_before_year_29228)
  then have yb: "unat y < 29228" using days_before_year_mono not_less by blast
  have "unat k < 31" using mk(3) by (simp add: days_in_month_def split: if_splits)
  then have fy: "unat (Year f) = unat y + 1601" "unat (Month f) = unat m + 1" "unat (Day f) = unat k + 1"
    using yb mk(1) unfolding fe by (simp_all add: word_views)
  show "unat (Year f) \<le> 30828" using yb fy by simp
  show "valid_date (unat (Year f)) (unat (Month f)) (unat (Day f))"
    using mk by (simp add: valid_date_def fy lp_def add.commute)
  show "date_days (unat (Year f)) (unat (Month f)) (unat (Day f)) = unat t div 864000000000"
    using mk(2) ys(1) ds(1) by (simp add: date_days_def fy lp_def add.commute)
  have msb: "unat ms < 86400000" using ds(2) by simp
  show "unat (Hour f) = unat t div 10000 mod 86400000 div 3600000"
    "unat (Minute f) = unat t div 10000 mod 86400000 div 60000 mod 60"
    "unat (Second f) = unat t div 10000 mod 86400000 div 1000 mod 60"
    "unat (Milliseconds f) = unat t div 10000 mod 86400000 mod 1000"
    unfolding fe TIME_FIELDS.select_convs ds(2) [symmetric] by (rule time_of_day [OF msb])+
  show "unat (Weekday f) = (unat t div 864000000000 + 1) mod 7"
    unfolding fe using ds(1,3) by (simp add: WEEKDAY_OF_1601_def word_views)
qed

text \<open>The fields \<open>RtlTimeFieldsToTime\<close> accepts, and the time they denote, on natural numbers.\<close>

definition fields_ok :: "TIME_FIELDS \<Rightarrow> bool" where
  "fields_ok tf \<longleftrightarrow> valid_date (unat (Year tf)) (unat (Month tf)) (unat (Day tf)) \<and> unat (Year tf) \<le> 30827
     \<and> unat (Hour tf) \<le> 23 \<and> unat (Minute tf) \<le> 59 \<and> unat (Second tf) \<le> 59
     \<and> unat (Milliseconds tf) \<le> 999"

definition fields_time :: "TIME_FIELDS \<Rightarrow> nat" where
  "fields_time tf = (date_days (unat (Year tf)) (unat (Month tf)) (unat (Day tf)) * 86400000
     + ((unat (Hour tf) * 60 + unat (Minute tf)) * 60 + unat (Second tf)) * 1000
     + unat (Milliseconds tf)) * 10000"

lemma unat_scast_ULONG:
  "unat (scast w :: ULONG) = (if unat w < 32768 then unat w else unat w + 4294901760)" for w :: CSHORT
proof (cases "unat w < 32768")
  case True
  then show ?thesis by (simp add: unat_scast_small)
next
  case False
  define u where "u = int (unat w)"
  have u: "32768 \<le> u" "u < 65536" "sint w = u - 65536"
  proof -
    have "unat w < 65536" using unat_bound [of w] by simp
    then show "32768 \<le> u" "u < 65536" using False unfolding u_def by linarith+
    show "sint w = u - 65536" using False sint_neg_unat [of w] unfolding u_def by simp
  qed
  have "uint (scast w :: ULONG) = sint w mod 4294967296"
    unfolding scast_eq uint_word_of_int by simp
  also have "\<dots> = (u - 65536 + 4294967296) mod 4294967296" unfolding u(3) by (rule mod_add_self2 [symmetric])
  also have "\<dots> = u + 4294901760" using u by (simp add: mod_pos_pos_trivial)
  finally have "nat (uint (scast w :: ULONG)) = nat (int (unat w + 4294901760))"
    by (simp only: u_def of_nat_add of_nat_numeral)
  then show ?thesis using False by (simp only: nat_int unat_eq_nat_uint [symmetric] if_False)
qed

lemma MaxDaysInMonth_days:
  assumes "unat m < 12"
  shows "MaxDaysInMonth y m = int (days_in_month (leap (unat y)) (Suc (unat m)))"
proof -
  define lp where "lp = leap (unat y)"
  have "sint (DaysPrecedingMonth lp ! k) = int (month_start lp k)" if "k \<le> 12" for k
    using unat_DaysPrecedingMonth [OF that, of lp] month_start_le [OF that, of lp]
    by (subst sint_eq_unat) simp_all
  from this [of "unat m"] this [of "Suc (unat m)"] show ?thesis
    using assms unfolding MaxDaysInMonth_def IsLeapYear_leap lp_def
    by (simp add: DaysPrecedingMonth_def split: if_splits)
qed

lemma scast_ULONG_less:
  "n \<le> 32768 \<Longrightarrow> unat (scast w :: ULONG) < n \<longleftrightarrow> unat w < n" for w :: CSHORT
  by (simp add: unat_scast_ULONG)

lemma sint_less_1: "sint w < 1 \<longleftrightarrow> \<not> (1 \<le> unat w \<and> unat w < 32768)" for w :: CSHORT
proof (cases "unat w < 32768")
  case True
  then have "sint w = int (unat w)" using sint_eq_unat [of w] by simp
  then show ?thesis using True by linarith
next
  case False
  then show ?thesis using sint_nonneg_unat [of w] by simp
qed

lemma date_days_bound:
  assumes "valid_date y m d" "y \<le> 30827"
  shows "date_days y m d \<le> 10675198"
proof -
  have "days_before_year (y - 1601) \<le> days_before_year 29226" using assms(2) by (intro days_before_year_mono) simp
  moreover have "days_before_year 29226 = 10674577" using days_before_year_closed [of 29226] by simp
  moreover have "month_start (leap y) (m - 1) \<le> 366" using assms(1) by (intro month_start_le) (auto simp: valid_date_def)
  moreover have "d \<le> 31" using assms(1) by (simp add: valid_date_def days_in_month_def split: if_splits)
  ultimately show ?thesis unfolding date_days_def by linarith
qed

lemma unat_scast_pred:
  "1 \<le> unat w \<Longrightarrow> unat w < 32768 \<Longrightarrow> unat ((scast w :: ULONG) - 1) = unat w - 1" for w :: CSHORT
  by (subst unat_sub_small) (simp_all add: unat_scast_ULONG)

lemma sint_day_pred:
  fixes w :: CSHORT
  assumes "1 \<le> unat w" "unat w < 32768"
  shows "sint (ucast ((scast w :: ULONG) - 1) :: CSHORT) = int (unat w) - 1"
proof -
  have "unat (ucast ((scast w :: ULONG) - 1) :: CSHORT) = unat w - 1"
    using assms by (subst unat_ucast_small) (simp_all add: unat_scast_pred)
  then have "sint (ucast ((scast w :: ULONG) - 1) :: CSHORT) = int (unat w - 1)"
    using assms by (subst sint_eq_unat) simp_all
  then show ?thesis using assms(1) by linarith
qed

lemma date_check:
  fixes y m d :: CSHORT
  defines "yr \<equiv> (scast y :: ULONG)" and "mon \<equiv> (scast m :: ULONG) - 1" and "dy \<equiv> (scast d :: ULONG) - 1"
  shows "sint m < 1 \<or> sint d < 1 \<or> yr < 1601 \<or> yr > 30827 \<or> mon > 11
      \<or> sint (ucast dy :: CSHORT) \<ge> MaxDaysInMonth yr mon
    \<longleftrightarrow> \<not> (valid_date (unat y) (unat m) (unat d) \<and> unat y \<le> 30827)"
proof (cases "1 \<le> unat m \<and> unat m \<le> 12 \<and> 1 \<le> unat d \<and> unat d < 32768 \<and> 1601 \<le> unat y \<and> unat y \<le> 30827")
  case True
  then have r: "1 \<le> unat m" "unat m < 32768" "1 \<le> unat d" "unat d < 32768" by simp_all
  have mon: "unat mon = unat m - 1" unfolding mon_def by (rule unat_scast_pred [OF r(1,2)])
  have yr: "unat yr = unat y" unfolding yr_def using True by (simp add: unat_scast_ULONG)
  have dy: "sint (ucast dy :: CSHORT) = int (unat d) - 1" unfolding dy_def by (rule sint_day_pred [OF r(3,4)])
  have "MaxDaysInMonth yr mon = int (days_in_month (leap (unat y)) (unat m))"
    using True mon by (subst MaxDaysInMonth_days) (auto simp: yr)
  then have "sint (ucast dy :: CSHORT) \<ge> MaxDaysInMonth yr mon \<longleftrightarrow> \<not> unat d \<le> days_in_month (leap (unat y)) (unat m)"
    using dy by linarith
  moreover have "\<not> mon > 11" "\<not> yr < 1601" "\<not> yr > 30827"
    using True mon yr by (auto simp: word_less_nat_alt)
  moreover have "\<not> sint m < 1" "\<not> sint d < 1" using r by (simp_all add: sint_less_1)
  ultimately show ?thesis using True by (simp add: valid_date_def)
next
  case False
  then have inv: "\<not> (valid_date (unat y) (unat m) (unat d) \<and> unat y \<le> 30827)"
    by (auto simp: valid_date_def days_in_month_def split: if_splits)
  have "sint m < 1 \<or> sint d < 1 \<or> yr < 1601 \<or> yr > 30827 \<or> mon > 11"
  proof (rule ccontr)
    assume c: "\<not> ?thesis"
    then have r: "1 \<le> unat m" "unat m < 32768" "1 \<le> unat d" "unat d < 32768"
      by (simp_all add: sint_less_1)
    have "\<not> unat yr < 1601" "\<not> 30827 < unat yr" "\<not> 11 < unat mon"
      using c by (simp_all add: word_less_nat_alt)
    then have "1601 \<le> unat y" "unat y \<le> 30827" "unat m \<le> 12"
      using unat_scast_pred [OF r(1,2)] unfolding yr_def mon_def
      by (simp_all add: unat_scast_ULONG split: if_splits)
    with False r show False by simp
  qed
  with inv show ?thesis by blast
qed

lemma fields_rejected: "RtlTimeFieldsToTime tf = None \<longleftrightarrow> \<not> fields_ok tf"
proof -
  have "RtlTimeFieldsToTime tf = None \<longleftrightarrow>
      \<not> (valid_date (unat (Year tf)) (unat (Month tf)) (unat (Day tf)) \<and> unat (Year tf) \<le> 30827)
      \<or> 23 < (scast (Hour tf) :: ULONG) \<or> 59 < (scast (Minute tf) :: ULONG)
      \<or> 59 < (scast (Second tf) :: ULONG) \<or> 999 < (scast (Milliseconds tf) :: ULONG)"
    unfolding RtlTimeFieldsToTime_def Let_def date_check [symmetric] by simp
  then show ?thesis
    unfolding fields_ok_def word_less_nat_alt by (simp add: unat_scast_ULONG) linarith
qed

lemma unat_time_fields_days:
  fixes y m d :: CSHORT
  assumes v: "valid_date (unat y) (unat m) (unat d)" "unat y \<le> 30827"
    and yr: "yr = (scast y :: ULONG)" and mon: "mon = (scast m :: ULONG) - 1"
    and dy: "dy = (scast d :: ULONG) - 1"
    and e: "e = ElapsedYearsToDays (yr - 1601)
      + scast (DaysPrecedingMonth (IsLeapYear (yr - 1600)) ! unat mon)"
  shows "unat (e + dy) = date_days (unat y) (unat m) (unat d)"
proof -
  define lp where "lp = leap (unat y)"
  have r: "1601 \<le> unat y" "1 \<le> unat m" "unat m \<le> 12" "1 \<le> unat d" "unat d \<le> 31"
    using v(1) by (auto simp: valid_date_def days_in_month_def split: if_splits)
  have uy: "unat yr = unat y" unfolding yr using v(2) by (simp add: unat_scast_ULONG)
  have um: "unat mon = unat m - 1" and ud: "unat dy = unat d - 1"
    unfolding mon dy using r by (simp_all only: unat_scast_pred)
  have y1: "unat (yr - 1601) = unat y - 1601" and y0: "unat (yr - 1600) = unat y - 1600"
    using r(1) uy by (simp_all add: unat_sub_small)
  have l: "IsLeapYear (yr - 1600) = lp"
    unfolding IsLeapYear_leap y0 lp_def using leap_1600 [of "unat y - 1600"] r(1) by simp
  have e0: "unat (ElapsedYearsToDays (yr - 1601)) = days_before_year (unat y - 1601)"
    using v(2) by (subst unat_ElapsedYearsToDays) (simp_all add: y1)
  have up: "unat (DaysPrecedingMonth lp ! unat mon) = month_start lp (unat m - 1)"
    using r(3) um by (subst unat_DaysPrecedingMonth) simp_all
  have "month_start lp (unat m - 1) \<le> 366" using r(3) by (intro month_start_le) simp
  then have e1: "unat (scast (DaysPrecedingMonth lp ! unat mon) :: ULONG) = month_start lp (unat m - 1)"
    using up by (subst unat_scast_small) simp_all
  have b: "date_days (unat y) (unat m) (unat d) \<le> 10675198" by (rule date_days_bound [OF v])
  then have "unat e = days_before_year (unat y - 1601) + month_start lp (unat m - 1)"
    unfolding e l using e0 e1 by (subst unat_add_small) (simp_all add: date_days_def lp_def)
  then show ?thesis
    using b ud by (subst unat_add_small) (simp_all add: date_days_def lp_def)
qed

lemma unat_time_fields_ms:
  fixes h mi s ms :: CSHORT
  assumes "unat h \<le> 23" "unat mi \<le> 59" "unat s \<le> 59" "unat ms \<le> 999"
  shows "unat ((((scast h :: ULONG) * 60 + scast mi) * 60 + scast s) * 1000 + scast ms)
    = ((unat h * 60 + unat mi) * 60 + unat s) * 1000 + unat ms"
    and "((unat h * 60 + unat mi) * 60 + unat s) * 1000 + unat ms < 86400000"
proof -
  have u: "unat (scast h :: ULONG) = unat h" "unat (scast mi :: ULONG) = unat mi"
    "unat (scast s :: ULONG) = unat s" "unat (scast ms :: ULONG) = unat ms"
    using assms by (simp_all add: unat_scast_ULONG)
  define a where "a = (scast h :: ULONG) * 60 + scast mi"
  have a: "unat a = unat h * 60 + unat mi"
    unfolding a_def using assms u by (simp add: unat_add_small unat_mult_small)
  define b where "b = a * 60 + scast s"
  have b: "unat b = unat a * 60 + unat s"
    unfolding b_def using assms u a by (simp add: unat_add_small unat_mult_small)
  have "unat (b * 1000 + scast ms) = unat b * 1000 + unat ms"
    using assms u a b by (simp add: unat_add_small unat_mult_small)
  then show "unat ((((scast h :: ULONG) * 60 + scast mi) * 60 + scast s) * 1000 + scast ms)
      = ((unat h * 60 + unat mi) * 60 + unat s) * 1000 + unat ms"
    unfolding b a unfolding a_def b_def .
  show "((unat h * 60 + unat mi) * 60 + unat s) * 1000 + unat ms < 86400000"
    using assms by simp
qed

lemma fields_accepted:
  assumes "fields_ok tf"
  obtains t where "RtlTimeFieldsToTime tf = Some t" "unat t = fields_time tf"
proof -
  have v: "valid_date (unat (Year tf)) (unat (Month tf)) (unat (Day tf))" "unat (Year tf) \<le> 30827"
    and f: "unat (Hour tf) \<le> 23" "unat (Minute tf) \<le> 59" "unat (Second tf) \<le> 59"
      "unat (Milliseconds tf) \<le> 999"
    using assms by (simp_all add: fields_ok_def)
  define e where "e = ElapsedYearsToDays ((scast (Year tf) :: ULONG) - 1601)
    + scast (DaysPrecedingMonth (IsLeapYear (scast (Year tf) - 1600)) ! unat ((scast (Month tf) :: ULONG) - 1))"
  define d where "d = e + (scast (Day tf) - 1)"
  define ms where "ms = (((scast (Hour tf) :: ULONG) * 60 + scast (Minute tf)) * 60 + scast (Second tf)) * 1000
    + scast (Milliseconds tf)"
  have "RtlTimeFieldsToTime tf \<noteq> None" using assms fields_rejected by blast
  then have "RtlTimeFieldsToTime tf = Some (DaysAndFractionToTime d ms)"
    unfolding d_def e_def ms_def RtlTimeFieldsToTime_def Let_def DaysPrecedingMonth_def
    by (simp split: if_splits)
  moreover have ud: "unat d = date_days (unat (Year tf)) (unat (Month tf)) (unat (Day tf))"
    unfolding d_def by (rule unat_time_fields_days [OF v refl refl refl e_def])
  then have "unat d \<le> 10675198" using date_days_bound [OF v] by simp
  then have "unat (DaysAndFractionToTime d ms) = fields_time tf"
    using unat_time_fields_ms [OF f] ud unfolding ms_def fields_time_def
    by (subst DaysAndFractionToTime_nat) simp_all
  ultimately show thesis by (rule that)
qed

lemma fields_time_bound: "fields_ok tf \<Longrightarrow> fields_time tf < 9223372036854775808"
  using date_days_bound [of "unat (Year tf)" "unat (Month tf)" "unat (Day tf)"]
  by (simp add: fields_ok_def fields_time_def)

section \<open>Round trips\<close>

lemma time_of_day_sum:
  "((x div 3600000 * 60 + x div 60000 mod 60) * 60 + x div 1000 mod 60) * 1000 + x mod 1000 = x" for x :: nat
proof -
  have "x div 3600000 = x div 60000 div 60" "x div 60000 = x div 1000 div 60"
    by (simp_all flip: div_mult2_eq)
  then show ?thesis by (metis div_mult_mod_eq)
qed

lemma fields_time_TimeToTimeFields:
  assumes "0 \<le> sint t"
  shows "fields_time (RtlTimeToTimeFields t) = unat t - unat t mod 10000"
proof -
  let ?x = "unat t div 10000"
  have "unat t div 864000000000 = ?x div 86400000" by (simp flip: div_mult2_eq)
  then have "fields_time (RtlTimeToTimeFields t) = (?x div 86400000 * 86400000
      + (((?x mod 86400000 div 3600000 * 60 + ?x mod 86400000 div 60000 mod 60) * 60
      + ?x mod 86400000 div 1000 mod 60) * 1000 + ?x mod 86400000 mod 1000)) * 10000"
    unfolding fields_time_def TimeToTimeFields_nat [OF assms refl] by simp
  also have "\<dots> = ?x * 10000" unfolding time_of_day_sum by simp
  also have "\<dots> = unat t - unat t mod 10000" by (rule minus_mod_eq_div_mult [symmetric])
  finally show ?thesis .
qed

lemma valid_date_in_year:
  assumes "valid_date y m d"
  shows "days_before_year (y - 1601) \<le> date_days y m d" "date_days y m d < days_before_year (Suc (y - 1601))"
    and "month_start (leap y) (m - 1) \<le> date_days y m d - days_before_year (y - 1601)"
    and "date_days y m d - days_before_year (y - 1601) < month_start (leap y) (Suc (m - 1))"
proof -
  have r: "1601 \<le> y" "1 \<le> m" "m \<le> 12" "1 \<le> d" "d \<le> days_in_month (leap y) m"
    using assms by (simp_all add: valid_date_def)
  show "days_before_year (y - 1601) \<le> date_days y m d"
    "month_start (leap y) (m - 1) \<le> date_days y m d - days_before_year (y - 1601)"
    by (simp_all add: date_days_def)
  have lt: "month_start (leap y) (m - 1) + (d - 1) < month_start (leap y) m"
    using r month_start.simps(2) [of "leap y" "m - 1"] by simp
  then show "date_days y m d - days_before_year (y - 1601) < month_start (leap y) (Suc (m - 1))"
    using r(2) by (simp add: date_days_def del: month_start.simps)
  have "month_start (leap y) m \<le> (if leap y then 366 else 365)"
    using month_start_mono [OF r(3), of "leap y"] by (simp add: month_start_values)
  then show "date_days y m d < days_before_year (Suc (y - 1601))"
    using lt r(1) by (simp add: date_days_def)
qed

lemma month_unique:
  assumes "month_start lp m \<le> x" "x < month_start lp (Suc m)" "month_start lp n \<le> x" "x < month_start lp (Suc n)"
  shows "m = n"
proof (rule ccontr)
  assume "m \<noteq> n"
  then consider "Suc m \<le> n" | "Suc n \<le> m" by linarith
  then show False
    by cases (use month_start_mono assms in \<open>metis leD le_trans\<close>)+
qed

lemma date_days_inj:
  assumes "valid_date y m d" "valid_date y' m' d'" "date_days y m d = date_days y' m' d'"
  shows "y = y' \<and> m = m' \<and> d = d'"
proof -
  have "y - 1601 = y' - 1601"
    using year_unique valid_date_in_year(1,2) [OF assms(1)] valid_date_in_year(1,2) [OF assms(2)] assms(3)
    by metis
  then have y: "y = y'" using assms(1,2) by (auto simp: valid_date_def)
  then have "m - 1 = m' - 1"
    using month_unique valid_date_in_year(3,4) [OF assms(1)] valid_date_in_year(3,4) [OF assms(2)] assms(3)
    by metis
  then have m: "m = m'" using assms(1,2) by (auto simp: valid_date_def)
  then have "d = d'" using assms y by (auto simp: valid_date_def date_days_def)
  with y m show ?thesis by simp
qed

lemma mixed_radix:
  fixes h m s ms D :: nat
  assumes "h \<le> 23" "m \<le> 59" "s \<le> 59" "ms \<le> 999"
  defines "x \<equiv> D * 86400000 + ((h * 60 + m) * 60 + s) * 1000 + ms"
  shows "x div 86400000 = D" "x mod 86400000 div 3600000 = h" "x mod 86400000 div 60000 mod 60 = m"
    "x mod 86400000 div 1000 mod 60 = s" "x mod 86400000 mod 1000 = ms"
proof -
  define w where "w = h * 60 + m"
  define z where "z = w * 60 + s"
  define y where "y = z * 1000 + ms"
  have y: "y < 86400000" unfolding y_def z_def w_def using assms(1-4) by simp
  have x: "x = D * 86400000 + y" by (simp add: x_def y_def z_def w_def)
  show "x div 86400000 = D" using y by (simp add: x)
  have xm: "x mod 86400000 = y" using y by (simp add: x)
  have q: "y div 1000 = z" "y mod 1000 = ms" using assms(4) by (simp_all add: y_def)
  have q2: "y div 60000 = w" "z mod 60 = s"
    using div_mult2_eq [of y 1000 60] assms(3) by (simp_all add: q z_def)
  have q3: "y div 3600000 = h" "w mod 60 = m"
    using div_mult2_eq [of y 60000 60] assms(2) by (simp_all add: q2 w_def)
  show "x mod 86400000 div 3600000 = h" "x mod 86400000 div 60000 mod 60 = m"
    "x mod 86400000 div 1000 mod 60 = s" "x mod 86400000 mod 1000 = ms"
    unfolding xm using q q2 q3 assms by simp_all
qed

lemma TimeToTimeFields_of_fields:
  assumes ok: "fields_ok tf" and t: "unat t = fields_time tf" "0 \<le> sint t"
  shows "RtlTimeToTimeFields t
    = tf\<lparr>Weekday := word_of_nat ((date_days (unat (Year tf)) (unat (Month tf)) (unat (Day tf)) + 1) mod 7)\<rparr>"
proof -
  define D where "D = date_days (unat (Year tf)) (unat (Month tf)) (unat (Day tf))"
  define f where "f = RtlTimeToTimeFields t"
  note nat = TimeToTimeFields_nat [OF t(2) f_def]
  have f: "unat (Hour tf) \<le> 23" "unat (Minute tf) \<le> 59" "unat (Second tf) \<le> 59" "unat (Milliseconds tf) \<le> 999"
    and v: "valid_date (unat (Year tf)) (unat (Month tf)) (unat (Day tf))"
    using ok by (simp_all add: fields_ok_def)
  have x: "unat t div 10000 = D * 86400000 + ((unat (Hour tf) * 60 + unat (Minute tf)) * 60
      + unat (Second tf)) * 1000 + unat (Milliseconds tf)"
    unfolding t(1) fields_time_def D_def by simp
  note mr = mixed_radix [OF f, of D, folded x]
  have days: "unat t div 864000000000 = D" using div_mult2_eq [of "unat t" 10000 86400000] mr(1) by simp
  have "unat (Year f) = unat (Year tf) \<and> unat (Month f) = unat (Month tf) \<and> unat (Day f) = unat (Day tf)"
    by (rule date_days_inj [OF nat(1) v]) (simp only: nat(2) days D_def)
  moreover have "unat (Hour f) = unat (Hour tf)" "unat (Minute f) = unat (Minute tf)"
    "unat (Second f) = unat (Second tf)" "unat (Milliseconds f) = unat (Milliseconds tf)"
    unfolding nat using mr by blast+
  moreover have "Weekday f = word_of_nat ((D + 1) mod 7)"
    by (rule word_eqI_unat) (simp add: nat(8) days unat_of_nat)
  ultimately show ?thesis
    unfolding f_def [symmetric] D_def [symmetric] by (intro TIME_FIELDS.equality) (auto intro: word_eqI_unat)
qed

section \<open>Seconds since 1970 and 1980\<close>

lemma HighPart_zero: "HighPart x = 0 \<longleftrightarrow> unat x < 4294967296"
proof -
  have "unat x div 4294967296 < 4294967296"
    by (rule less_mult_imp_div_less) (use unat_bound [of x] in simp)
  then have "unat (HighPart x) = unat x div 4294967296"
    unfolding HighPart_def by (subst unat_ucast_small) (simp_all add: drop_bit_eq_div unat_div_word)
  then show ?thesis by (simp add: unat_0_iff [symmetric] div_eq_0_iff)
qed

lemma uint_LARGE: "uint x = sint x mod 18446744073709551616" for x :: LARGE_INTEGER
  by (simp add: uint_sint take_bit_eq_mod)

lemma HighPart_LowPart_diff:
  fixes s :: LARGE_INTEGER
  assumes us: "uint s = (q - b) mod 18446744073709551616"
    and qb: "\<bar>q\<bar> \<le> 922337203685" and b: "0 < b" "b < 2 ^ 40"
  shows "HighPart s = 0 \<longleftrightarrow> b \<le> q \<and> q < b + 4294967296"
    and "b \<le> q \<Longrightarrow> LowPart s = word_of_int (q - b)"
proof -
  have pos: "uint s = q - b" if "b \<le> q"
    unfolding us using qb b(1) that by (intro mod_pos_pos_trivial) linarith+
  then show "b \<le> q \<Longrightarrow> LowPart s = word_of_int (q - b)" unfolding LowPart_def ucast_eq by (simp only:)
  have "int (unat s) = uint s" by simp
  then have "unat s < 4294967296 \<longleftrightarrow> uint s < 4294967296" by linarith
  also have "\<dots> \<longleftrightarrow> b \<le> q \<and> q < b + 4294967296"
  proof (cases "b \<le> q")
    case True
    then show ?thesis using pos by linarith
  next
    case False
    have "uint s = (q - b + 18446744073709551616) mod 18446744073709551616" unfolding us by simp
    also have "\<dots> = q - b + 18446744073709551616"
      using False qb b by (intro mod_pos_pos_trivial) simp_all
    finally show ?thesis using False qb b(2) by simp
  qed
  finally show "HighPart s = 0 \<longleftrightarrow> b \<le> q \<and> q < b + 4294967296" unfolding HighPart_zero .
qed

lemma seconds_since:
  fixes B :: LARGE_INTEGER
  assumes B: "sint B = b" "0 < b" "b < 2 ^ 40"
  shows "(let s = Convert100nsToSeconds t - B in if HighPart s \<noteq> 0 then None else Some (LowPart s))
    = (if b \<le> sint t div 10000000 \<and> sint t div 10000000 < b + 4294967296
       then Some (word_of_int (sint t div 10000000 - b)) else None)"
proof -
  define q where "q = sint (Convert100nsToSeconds t)"
  define s where "s = Convert100nsToSeconds t - B"
  have "sint t < 2 ^ 63" "- (2 ^ 63) \<le> sint t" using sint_lt [of t] sint_ge [of t] by simp_all
  then have "\<bar>sint t\<bar> \<le> 9223372036854775808" by simp
  then have "\<bar>sint t\<bar> div 10000000 \<le> 922337203685"
    using zdiv_mono1 [of "\<bar>sint t\<bar>" 9223372036854775808 10000000] by simp
  moreover have "0 \<le> \<bar>sint t\<bar> div 10000000" by (simp add: pos_imp_zdiv_nonneg_iff)
  ultimately have qb: "\<bar>q\<bar> \<le> 922337203685"
    unfolding q_def Convert100nsToSeconds_sint by (auto simp: abs_mult sgn_if)
  have "uint s = (uint (Convert100nsToSeconds t) - uint B) mod 18446744073709551616"
    by (simp add: s_def uint_word_ariths)
  also have "\<dots> = (q - b) mod 18446744073709551616"
    unfolding uint_LARGE q_def B(1) [symmetric] by (simp add: mod_diff_eq)
  finally have us: "uint s = (q - b) mod 18446744073709551616" .
  note diff = HighPart_LowPart_diff [OF us qb B(2,3)]
  have "q = sint t div 10000000" if "0 \<le> sint t"
    using that by (simp add: q_def Convert100nsToSeconds_sint sgn_if)
  moreover have "q \<le> 0 \<and> sint t div 10000000 < 0" if "sint t < 0"
    using that by (simp add: q_def Convert100nsToSeconds_sint sgn_if pos_imp_zdiv_nonneg_iff pos_imp_zdiv_neg_iff)
  ultimately have q: "b \<le> sint t div 10000000 \<or> b \<le> q \<Longrightarrow> q = sint t div 10000000"
    using B(2) by linarith
  show ?thesis
    unfolding s_def [symmetric] Let_def using diff q by auto
qed

lemma unat_seconds_to_time:
  fixes s :: ULONG
  assumes "unat B < 2 ^ 40"
  shows "unat (ConvertSecondsTo100ns (ucast s + B)) = (unat s + unat B) * 10000000"
proof -
  have s: "unat (ucast s :: LARGE_INTEGER) = unat s" "unat s < 4294967296"
    using unat_bound [of s] by (simp_all add: unat_ucast_small)
  have a: "unat (ucast s + B) = unat s + unat B" using s assms by (subst unat_add_small) simp_all
  have "unat ((ucast s + B) * (10000000 :: LARGE_INTEGER)) = unat (ucast s + B) * unat (10000000 :: LARGE_INTEGER)"
    by (rule unat_mult_small) (use assms s a in simp)
  then show ?thesis
    unfolding ConvertSecondsTo100ns_def RtlExtendedIntegerMultiply_def a by simp
qed

lemma seconds_bases:
  shows "sint SecondsToStartOf1970 = 11644473600" "unat SecondsToStartOf1970 = 11644473600"
    and "sint SecondsToStartOf1980 = 11960006400" "unat SecondsToStartOf1980 = 11960006400"
  by (simp_all add: SecondsToStartOf1970_def SecondsToStartOf1980_def)

lemma seconds_back:
  fixes t :: LARGE_INTEGER and s :: ULONG
  assumes "unat t = (unat s + b) * 10000000" "b < 2 ^ 34"
  shows "sint t div 10000000 = int (unat s) + int b" "word_of_int (int (unat s)) = s"
    "int (unat s) < 4294967296"
proof -
  have s: "unat s < 4294967296" using unat_bound [of s] by simp
  then show "int (unat s) < 4294967296" by linarith
  have "unat t < 2 ^ 63" unfolding assms(1) using s assms(2) by simp
  then have "sint t = int ((unat s + b) * 10000000)" using sint_eq_unat [of t] assms(1) by simp
  then show "sint t div 10000000 = int (unat s) + int b" by simp
  show "word_of_int (int (unat s)) = s" by simp
qed

lemma fields_ok_TimeToTimeFields:
  assumes "0 \<le> sint t"
  shows "fields_ok (RtlTimeToTimeFields t) \<longleftrightarrow> sint t < 9223149888000000000"
proof -
  define f where "f = RtlTimeToTimeFields t"
  note nat = TimeToTimeFields_nat [OF assms f_def]
  have "unat t div 10000 mod 86400000 div 3600000 < 24" by (rule less_mult_imp_div_less) simp
  moreover have "n mod 60 \<le> 59" "n mod 1000 \<le> 999" for n :: nat
    using mod_less_divisor [of 60 n] mod_less_divisor [of 1000 n] by linarith+
  ultimately have "fields_ok f \<longleftrightarrow> unat (Year f) \<le> 30827"
    using nat(1) unfolding fields_ok_def nat(4-7) by simp
  also have "\<dots> \<longleftrightarrow> date_days (unat (Year f)) (unat (Month f)) (unat (Day f)) < days_before_year 29227"
  proof
    assume "unat (Year f) \<le> 30827"
    then have "Suc (unat (Year f) - 1601) \<le> 29227" by simp
    then show "date_days (unat (Year f)) (unat (Month f)) (unat (Day f)) < days_before_year 29227"
      using days_before_year_mono valid_date_in_year(2) [OF nat(1)] less_le_trans by blast
  next
    assume "date_days (unat (Year f)) (unat (Month f)) (unat (Day f)) < days_before_year 29227"
    then have "\<not> days_before_year 29227 \<le> days_before_year (unat (Year f) - 1601)"
      using valid_date_in_year(1) [OF nat(1)] by linarith
    then have "\<not> 29227 \<le> unat (Year f) - 1601" using days_before_year_mono by blast
    then show "unat (Year f) \<le> 30827" by simp
  qed
  also have "\<dots> \<longleftrightarrow> unat t < 9223149888000000000"
    unfolding nat(2) using days_before_year_closed [of 29227] by (simp add: div_less_iff_less_mult)
  also have "\<dots> \<longleftrightarrow> sint t < 9223149888000000000" using nonneg_time [OF assms] by linarith
  finally show ?thesis unfolding f_def .
qed

section \<open>The properties\<close>

text \<open>
  C10: the magic-number divisions are exact: for every 64-bit input, negative ones and the most
  negative one included, they give the quotient by 10000, 10000000 and 86400000 truncated
  towards zero.
\<close>

theorem magic_divisions_exact:
  "sint (Convert100nsToMilliseconds t) = sgn (sint t) * (\<bar>sint t\<bar> div 10000)
   \<and> sint (Convert100nsToSeconds t) = sgn (sint t) * (\<bar>sint t\<bar> div 10000000)
   \<and> sint (ConvertMillisecondsToDays t) = sgn (sint t) * (\<bar>sint t\<bar> div 86400000)"
  by (simp only: Convert100nsToMilliseconds_sint Convert100nsToSeconds_sint ConvertMillisecondsToDays_sint)

text \<open>
  C9: \<open>RtlTimeToTimeFields\<close> never indexes its tables out of range, for any 64-bit time, a
  negative one included: the day of the year is inside the table of the year's kind and the
  month read from it is a month.
\<close>

theorem RtlTimeToTimeFields_tables:
  "let (y, n) = YearAndDay (fst (TimeToDaysAndFraction t));
       tbl = (if IsLeapYear (y + 1) then LeapYearDayToMonth else NormalYearDayToMonth)
   in unat n < length tbl \<and> unat (tbl ! unat n) < 12"
proof -
  obtain y n where yn: "YearAndDay (fst (TimeToDaysAndFraction t)) = (y, n)" by force
  note ys = YearAndDay_spec [OF yn]
  have "unat n < length (DayToMonth (IsLeapYear (y + 1)))"
    using ys(2) by (simp add: DayToMonth_length ys(3))
  from this DayToMonth_month(1) [OF this refl] show ?thesis
    unfolding yn by (simp add: DayToMonth_def)
qed

text \<open>
  C7: the fields of a non-negative time are a date of the Gregorian calendar whose number of
  days after 1 January 1601, counted year by year and month by month, is the time's number of
  whole days; the time of day fields are the time's milliseconds in the day in mixed radix, and
  the week day counts from Monday 1 January 1601.
\<close>

theorem RtlTimeToTimeFields_calendar:
  assumes "0 \<le> sint t" "f = RtlTimeToTimeFields t"
  shows "valid_date (unat (Year f)) (unat (Month f)) (unat (Day f))
    \<and> date_days (unat (Year f)) (unat (Month f)) (unat (Day f)) = unat t div 864000000000
    \<and> ((unat (Hour f) * 60 + unat (Minute f)) * 60 + unat (Second f)) * 1000 + unat (Milliseconds f)
       = unat t div 10000 mod 86400000
    \<and> unat (Hour f) < 24 \<and> unat (Minute f) < 60 \<and> unat (Second f) < 60 \<and> unat (Milliseconds f) < 1000
    \<and> unat (Weekday f) = (unat t div 864000000000 + 1) mod 7"
proof -
  have "unat t div 10000 mod 86400000 div 3600000 < 24" by (rule less_mult_imp_div_less) simp
  then show ?thesis
    unfolding TimeToTimeFields_nat(2-8) [OF assms] time_of_day_sum
    using TimeToTimeFields_nat(1) [OF assms] by simp
qed

theorem RtlTimeToTimeFields_calendar_witness:
  "0 \<le> sint (126227808000000000 :: LARGE_INTEGER)
   \<and> date_days (unat (Year (RtlTimeToTimeFields 126227808000000000)))
       (unat (Month (RtlTimeToTimeFields 126227808000000000)))
       (unat (Day (RtlTimeToTimeFields 126227808000000000))) = 146097"
  using RtlTimeToTimeFields_calendar [of 126227808000000000, OF _ refl] by simp

text \<open>
  C8: \<open>RtlTimeFieldsToTime\<close> accepts exactly the dates of the calendar from 1601 to 30827 with a
  time of day in range, and gives the 100 ns count of that moment; every other record, with a
  negative field, a day past the end of its month or 29 February of a common year, is refused.
\<close>

theorem RtlTimeFieldsToTime_spec:
  "RtlTimeFieldsToTime tf = (if fields_ok tf then Some (word_of_nat (fields_time tf)) else None)"
proof (cases "fields_ok tf")
  case True
  then obtain t where t: "RtlTimeFieldsToTime tf = Some t" "unat t = fields_time tf"
    by (rule fields_accepted)
  then have "t = word_of_nat (fields_time tf)" by (simp flip: t(2))
  then show ?thesis using True t(1) by simp
next
  case False
  then show ?thesis using fields_rejected by simp
qed

text \<open>
  C6: converting a non-negative time to fields and back gives the time rounded down to a whole
  millisecond, up to the end of the year 30827; later times have fields the way back refuses.
\<close>

theorem time_fields_round_trip:
  assumes "0 \<le> sint t"
  shows "RtlTimeFieldsToTime (RtlTimeToTimeFields t)
    = (if sint t < 9223149888000000000 then Some (t - t mod 10000) else None)"
proof (cases "fields_ok (RtlTimeToTimeFields t)")
  case True
  then obtain r where r: "RtlTimeFieldsToTime (RtlTimeToTimeFields t) = Some r"
      "unat r = fields_time (RtlTimeToTimeFields t)"
    by (rule fields_accepted)
  have "unat (t mod 10000) \<le> unat t" by (simp add: unat_mod_word)
  then have "unat (t - t mod 10000) = unat t - unat t mod 10000"
    by (simp add: unat_sub_small unat_mod_word)
  then have "r = t - t mod 10000"
    using r(2) fields_time_TimeToTimeFields [OF assms] by (intro word_eqI_unat) simp
  then show ?thesis using r(1) True fields_ok_TimeToTimeFields [OF assms] by simp
next
  case False
  then show ?thesis using fields_rejected fields_ok_TimeToTimeFields [OF assms] by simp
qed

theorem time_fields_round_trip_witness:
  "0 \<le> sint (126227808000000001 :: LARGE_INTEGER)
   \<and> RtlTimeFieldsToTime (RtlTimeToTimeFields 126227808000000001) = Some 126227808000000000"
  using time_fields_round_trip [of 126227808000000001] by simp

text \<open>
  C5: converting accepted fields to a time and back gives the same fields, with the week day
  of the date filled in.
\<close>

theorem fields_time_round_trip:
  assumes "RtlTimeFieldsToTime tf = Some t"
  shows "RtlTimeToTimeFields t
    = tf\<lparr>Weekday := word_of_nat ((date_days (unat (Year tf)) (unat (Month tf)) (unat (Day tf)) + 1) mod 7)\<rparr>"
proof (rule TimeToTimeFields_of_fields)
  show ok: "fields_ok tf" using assms fields_rejected [of tf] by (cases "fields_ok tf") auto
  then obtain r where r: "RtlTimeFieldsToTime tf = Some r" "unat r = fields_time tf"
    by (rule fields_accepted)
  then show t: "unat t = fields_time tf" using assms by simp
  show "0 \<le> sint t"
    unfolding sint_nonneg_unat t using fields_time_bound [OF ok] by simp
qed

definition sample_fields :: TIME_FIELDS where
  "sample_fields = \<lparr>Year = 2000, Month = 2, Day = 29, Hour = 23, Minute = 59, Second = 58,
     Milliseconds = 7, Weekday = 0\<rparr>"

lemma sample_fields_ok: "fields_ok sample_fields"
  by (simp add: fields_ok_def valid_date_def sample_fields_def days_in_month_def leap_def)

theorem fields_time_round_trip_witness:
  "\<exists>t. RtlTimeFieldsToTime sample_fields = Some t
    \<and> RtlTimeToTimeFields t = sample_fields\<lparr>Weekday := 2\<rparr>"
proof -
  obtain t where t: "RtlTimeFieldsToTime sample_fields = Some t"
    using fields_accepted [OF sample_fields_ok] by blast
  have "date_days 2000 2 29 = 145790"
    using days_before_year_closed [of 399] by (simp add: date_days_def days_in_month_def)
  then show ?thesis using t fields_time_round_trip [OF t] by (simp add: sample_fields_def)
qed

text \<open>
  C11: the conversion to seconds since 1970 succeeds exactly on the times whose whole seconds
  fit an unsigned 32-bit count from 1970 and gives that count; the conversion back is its right
  inverse.
\<close>

theorem seconds_1970:
  "RtlTimeToSecondsSince1970 t =
     (if 11644473600 \<le> sint t div 10000000 \<and> sint t div 10000000 < 11644473600 + 2 ^ 32
      then Some (word_of_int (sint t div 10000000 - 11644473600)) else None)
   \<and> RtlTimeToSecondsSince1970 (RtlSecondsSince1970ToTime s) = Some s
   \<and> unat SecondsToStartOf1970 = date_days 1970 1 1 * 86400"
proof -
  have f: "RtlTimeToSecondsSince1970 t =
     (if 11644473600 \<le> sint t div 10000000 \<and> sint t div 10000000 < 11644473600 + 2 ^ 32
      then Some (word_of_int (sint t div 10000000 - 11644473600)) else None)" for t
    unfolding RtlTimeToSecondsSince1970_def
    by (subst seconds_since [of SecondsToStartOf1970 11644473600 t]) (simp_all add: seconds_bases)
  have "unat (RtlSecondsSince1970ToTime s) = (unat s + 11644473600) * 10000000"
    unfolding RtlSecondsSince1970ToTime_def by (subst unat_seconds_to_time) (simp_all add: seconds_bases)
  note sb = seconds_back [OF this, simplified]
  have "RtlTimeToSecondsSince1970 (RtlSecondsSince1970ToTime s) = Some s"
    unfolding f using sb by simp
  moreover have "unat SecondsToStartOf1970 = date_days 1970 1 1 * 86400"
    using days_before_year_closed [of 369] by (simp add: seconds_bases date_days_def)
  ultimately show ?thesis using f by blast
qed

text \<open>C12: the same for seconds since 1980.\<close>

theorem seconds_1980:
  "RtlTimeToSecondsSince1980 t =
     (if 11960006400 \<le> sint t div 10000000 \<and> sint t div 10000000 < 11960006400 + 2 ^ 32
      then Some (word_of_int (sint t div 10000000 - 11960006400)) else None)
   \<and> RtlTimeToSecondsSince1980 (RtlSecondsSince1980ToTime s) = Some s
   \<and> unat SecondsToStartOf1980 = date_days 1980 1 1 * 86400"
proof -
  have f: "RtlTimeToSecondsSince1980 t =
     (if 11960006400 \<le> sint t div 10000000 \<and> sint t div 10000000 < 11960006400 + 2 ^ 32
      then Some (word_of_int (sint t div 10000000 - 11960006400)) else None)" for t
    unfolding RtlTimeToSecondsSince1980_def
    by (subst seconds_since [of SecondsToStartOf1980 11960006400 t]) (simp_all add: seconds_bases)
  have "unat (RtlSecondsSince1980ToTime s) = (unat s + 11960006400) * 10000000"
    unfolding RtlSecondsSince1980ToTime_def by (subst unat_seconds_to_time) (simp_all add: seconds_bases)
  note sb = seconds_back [OF this, simplified]
  have "RtlTimeToSecondsSince1980 (RtlSecondsSince1980ToTime s) = Some s"
    unfolding f using sb by simp
  moreover have "unat SecondsToStartOf1980 = date_days 1980 1 1 * 86400"
    using days_before_year_closed [of 379] by (simp add: seconds_bases date_days_def)
  ultimately show ?thesis using f by blast
qed

end
