(* ===== verification/Rundown.thy ===== *)
theory Rundown
  imports Prelude
begin

text \<open>
  Rundown protection (\<open>src/ntoskrnl/ex/rundown.c\<close> with the inline fast paths of
  \<open>src/ntoskrnl/inc/ex.h\<close>): a lock-free reference count that a rundown thread closes and
  drains.  The memory holds the \<open>EX_RUNDOWN_REF\<close> words and the wait blocks on the stacks of
  rundown threads; every interlocked operation is one atomic step, every turn of a
  compare-exchange loop is one definition, and threads interleave arbitrarily.  The lemmas read
  the atomic steps as arithmetic on the number of protections.
\<close>

section \<open>Memory\<close>

text \<open>
  The event of a wait block is \<open>None\<close> until \<open>KeInitializeEvent\<close> has run on it, then its signal
  state.
\<close>

record EX_RUNDOWN_WAIT_BLOCK =
  WbCount :: ULONG_PTR
  WakeEvent :: "bool option"

record rdmem =
  RrCount :: "ULONG_PTR \<Rightarrow> ULONG_PTR"
  blocks :: "ULONG_PTR \<rightharpoonup> EX_RUNDOWN_WAIT_BLOCK"

definition EX_RUNDOWN_ACTIVE :: ULONG_PTR where "EX_RUNDOWN_ACTIVE = 1"
definition EX_RUNDOWN_COUNT_SHIFT :: nat where "EX_RUNDOWN_COUNT_SHIFT = 1"
definition EX_RUNDOWN_COUNT_INC :: ULONG where "EX_RUNDOWN_COUNT_INC = push_bit EX_RUNDOWN_COUNT_SHIFT 1"

text \<open>Interlocked operations on a rundown word: the new memory and the value found there.\<close>

definition InterlockedCompareExchangePointer ::
  "ULONG_PTR \<Rightarrow> ULONG_PTR \<Rightarrow> ULONG_PTR \<Rightarrow> 'x rdmem_scheme \<Rightarrow> 'x rdmem_scheme \<times> ULONG_PTR" where
  "InterlockedCompareExchangePointer a New Old s =
     (if RrCount s a = Old then (s\<lparr>RrCount := (RrCount s)(a := New)\<rparr>, Old) else (s, RrCount s a))"

definition InterlockedExchangePointer ::
  "ULONG_PTR \<Rightarrow> ULONG_PTR \<Rightarrow> 'x rdmem_scheme \<Rightarrow> 'x rdmem_scheme" where
  "InterlockedExchangePointer a New s = s\<lparr>RrCount := (RrCount s)(a := New)\<rparr>"

text \<open>\<open>InterlockedExchangeAdd64\<close> on the count of a wait block; \<open>None\<close> when the block is not there.\<close>

definition InterlockedExchangeAdd64 ::
  "ULONG_PTR \<Rightarrow> ULONG_PTR \<Rightarrow> 'x rdmem_scheme \<Rightarrow> ('x rdmem_scheme \<times> ULONG_PTR) option" where
  "InterlockedExchangeAdd64 b x s =
     (case blocks s b of None \<Rightarrow> None
      | Some w \<Rightarrow> Some (s\<lparr>blocks := (blocks s)(b \<mapsto> w\<lparr>WbCount := WbCount w + x\<rparr>)\<rparr>, WbCount w))"

text \<open>\<open>KeInitializeEvent\<close> with the initial state FALSE, and \<open>KeSetEvent\<close>, on the event of a block.\<close>

definition KeInitializeEvent_block :: "ULONG_PTR \<Rightarrow> 'x rdmem_scheme \<Rightarrow> 'x rdmem_scheme" where
  "KeInitializeEvent_block b s =
     s\<lparr>blocks := (blocks s)(b := map_option (\<lambda>w. w\<lparr>WakeEvent := Some False\<rparr>) (blocks s b))\<rparr>"

definition KeSetEvent_block :: "ULONG_PTR \<Rightarrow> 'x rdmem_scheme \<Rightarrow> 'x rdmem_scheme option" where
  "KeSetEvent_block b s =
     (case blocks s b of None \<Rightarrow> None
      | Some w \<Rightarrow> if WakeEvent w = None then None
                  else Some (s\<lparr>blocks := (blocks s)(b \<mapsto> w\<lparr>WakeEvent := Some True\<rparr>)\<rparr>))"

section \<open>The routines\<close>

definition ExfInitializeRundownProtection :: "ULONG_PTR \<Rightarrow> 'x rdmem_scheme \<Rightarrow> 'x rdmem_scheme" where
  "ExfInitializeRundownProtection RunRef s = s\<lparr>RrCount := (RrCount s)(RunRef := 0)\<rparr>"

definition ExfReInitializeRundownProtection :: "ULONG_PTR \<Rightarrow> 'x rdmem_scheme \<Rightarrow> 'x rdmem_scheme" where
  "ExfReInitializeRundownProtection RunRef s = InterlockedExchangePointer RunRef 0 s"

definition ExfRundownCompleted :: "ULONG_PTR \<Rightarrow> 'x rdmem_scheme \<Rightarrow> 'x rdmem_scheme" where
  "ExfRundownCompleted RunRef s = InterlockedExchangePointer RunRef EX_RUNDOWN_ACTIVE s"

text \<open>One turn of an acquire loop: it returns, or goes round with the value the exchange found.\<close>

datatype acq_turn = AReturn bool | ARetry ULONG_PTR

definition ExfAcquireRundownProtection ::
  "ULONG_PTR \<Rightarrow> ULONG_PTR \<Rightarrow> 'x rdmem_scheme \<Rightarrow> 'x rdmem_scheme \<times> acq_turn" where
  "ExfAcquireRundownProtection RunRef Value s =
     (if Value AND EX_RUNDOWN_ACTIVE \<noteq> 0 then (s, AReturn False)
      else (let NewValue = Value + ucast EX_RUNDOWN_COUNT_INC;
                (s', Found) = InterlockedCompareExchangePointer RunRef NewValue Value s
            in (s', if Found = Value then AReturn True else ARetry Found)))"

text \<open>
  The product \<open>EX_RUNDOWN_COUNT_INC * Count\<close> is a 32-bit one (an \<open>int\<close> constant times a
  \<open>ULONG\<close>), widened afterwards.
\<close>

definition ExAcquireRundownProtectionEx ::
  "ULONG \<Rightarrow> ULONG_PTR \<Rightarrow> ULONG_PTR \<Rightarrow> 'x rdmem_scheme \<Rightarrow> 'x rdmem_scheme \<times> acq_turn" where
  "ExAcquireRundownProtectionEx Cnt RunRef Value s =
     (if Value AND EX_RUNDOWN_ACTIVE \<noteq> 0 then (s, AReturn False)
      else (let NewValue = Value + ucast (EX_RUNDOWN_COUNT_INC * Cnt);
                (s', Found) = InterlockedCompareExchangePointer RunRef NewValue Value s
            in (s', if Found = Value then AReturn True else ARetry Found)))"

text \<open>The inline fast path: one attempt; \<open>False\<close> means the call of the full routine follows.\<close>

definition ExAcquireRundownProtection ::
  "ULONG_PTR \<Rightarrow> ULONG_PTR \<Rightarrow> 'x rdmem_scheme \<Rightarrow> 'x rdmem_scheme \<times> bool" where
  "ExAcquireRundownProtection RunRef Read s =
     (let Value = Read AND NOT EX_RUNDOWN_ACTIVE;
          NewValue = Value + ucast EX_RUNDOWN_COUNT_INC;
          (s', Found) = InterlockedCompareExchangePointer RunRef NewValue Value s
      in (s', Found = Value))"

text \<open>
  One turn of a release loop: released; released as the last one, with the wake-up of the block
  still to do; or again.  \<open>None\<close> is an access to a wait block that is not there.
\<close>

datatype rel_turn = RReturn | RWake ULONG_PTR | RRetry ULONG_PTR

definition ExfReleaseRundownProtection ::
  "ULONG_PTR \<Rightarrow> ULONG_PTR \<Rightarrow> 'x rdmem_scheme \<Rightarrow> ('x rdmem_scheme \<times> rel_turn) option" where
  "ExfReleaseRundownProtection RunRef Value s =
     (if Value AND EX_RUNDOWN_ACTIVE \<noteq> 0
      then (let WaitBlock = Value AND NOT EX_RUNDOWN_ACTIVE
            in case InterlockedExchangeAdd64 WaitBlock (- 1) s of None \<Rightarrow> None
               | Some (s', Old) \<Rightarrow> Some (s', if Old - 1 = 0 then RWake WaitBlock else RReturn))
      else (let NewValue = Value - ucast EX_RUNDOWN_COUNT_INC;
                (s', Found) = InterlockedCompareExchangePointer RunRef NewValue Value s
            in Some (s', if Found = Value then RReturn else RRetry Found)))"

definition ExReleaseRundownProtectionEx ::
  "ULONG \<Rightarrow> ULONG_PTR \<Rightarrow> ULONG_PTR \<Rightarrow> 'x rdmem_scheme \<Rightarrow> ('x rdmem_scheme \<times> rel_turn) option" where
  "ExReleaseRundownProtectionEx Cnt RunRef Value s =
     (if Value AND EX_RUNDOWN_ACTIVE \<noteq> 0
      then (let WaitBlock = Value AND NOT EX_RUNDOWN_ACTIVE
            in case InterlockedExchangeAdd64 WaitBlock (- ucast Cnt) s of None \<Rightarrow> None
               | Some (s', Old) \<Rightarrow> Some (s', if Old = ucast Cnt then RWake WaitBlock else RReturn))
      else (let NewValue = Value - ucast (EX_RUNDOWN_COUNT_INC * Cnt);
                (s', Found) = InterlockedCompareExchangePointer RunRef NewValue Value s
            in Some (s', if Found = Value then RReturn else RRetry Found)))"

definition ExReleaseRundownProtection ::
  "ULONG_PTR \<Rightarrow> ULONG_PTR \<Rightarrow> 'x rdmem_scheme \<Rightarrow> 'x rdmem_scheme \<times> bool" where
  "ExReleaseRundownProtection RunRef Read s =
     (let Value = Read AND NOT EX_RUNDOWN_ACTIVE;
          NewValue = Value - ucast EX_RUNDOWN_COUNT_INC;
          (s', Found) = InterlockedCompareExchangePointer RunRef NewValue Value s
      in (s', Found = Value))"

text \<open>
  The wait: the fast path first; then the loop, whose turns carry \<open>Value\<close> and whether \<open>Event\<close>
  is set; then blocked on the event of the wait block at \<open>WaitBlock\<close>, on the thread's stack.
\<close>

datatype wait_turn = WReturn | WTurn ULONG_PTR bool | WBlock

definition ExfWaitForRundownProtectionRelease ::
  "ULONG_PTR \<Rightarrow> 'x rdmem_scheme \<Rightarrow> 'x rdmem_scheme \<times> wait_turn" where
  "ExfWaitForRundownProtectionRelease RunRef s =
     (let (s', Value) = InterlockedCompareExchangePointer RunRef EX_RUNDOWN_ACTIVE 0 s
      in (s', if Value = 0 \<or> Value = EX_RUNDOWN_ACTIVE then WReturn else WTurn Value False))"

text \<open>The inline fast path of the wait; \<open>False\<close> means the call of the full routine follows.\<close>

definition ExWaitForRundownProtectionRelease ::
  "ULONG_PTR \<Rightarrow> 'x rdmem_scheme \<Rightarrow> 'x rdmem_scheme \<times> bool" where
  "ExWaitForRundownProtectionRelease RunRef s =
     (let (s', OldValue) = InterlockedCompareExchangePointer RunRef EX_RUNDOWN_ACTIVE 0 s
      in (s', \<not> (OldValue \<noteq> 0 \<and> OldValue \<noteq> EX_RUNDOWN_ACTIVE)))"

definition ExfWaitForRundownProtectionRelease_turn ::
  "ULONG_PTR \<Rightarrow> ULONG_PTR \<Rightarrow> ULONG_PTR \<Rightarrow> bool \<Rightarrow> 'x rdmem_scheme \<Rightarrow> 'x rdmem_scheme \<times> wait_turn" where
  "ExfWaitForRundownProtectionRelease_turn RunRef WaitBlock Value EventSet s =
     (let WaitCount = drop_bit EX_RUNDOWN_COUNT_SHIFT Value;
          Init = (WaitCount > 0 \<and> \<not> EventSet);
          s1 = (if Init then KeInitializeEvent_block WaitBlock s else s);
          s2 = s1\<lparr>blocks := (blocks s1)(WaitBlock :=
                 map_option (\<lambda>w. w\<lparr>WbCount := WaitCount\<rparr>) (blocks s1 WaitBlock))\<rparr>;
          NewValue = WaitBlock OR EX_RUNDOWN_ACTIVE;
          (s3, Found) = InterlockedCompareExchangePointer RunRef NewValue Value s2
      in (s3, if Found = Value then (if WaitCount > 0 then WBlock else WReturn)
              else WTurn Found (EventSet \<or> Init)))"

text \<open>The stack frame of a waiting thread: its block appears with arbitrary contents and goes away.\<close>

definition push_block :: "ULONG_PTR \<Rightarrow> EX_RUNDOWN_WAIT_BLOCK \<Rightarrow> 'x rdmem_scheme \<Rightarrow> 'x rdmem_scheme" where
  "push_block b w s = s\<lparr>blocks := (blocks s)(b \<mapsto> w\<lparr>WakeEvent := None\<rparr>)\<rparr>"

definition pop_block :: "ULONG_PTR \<Rightarrow> 'x rdmem_scheme \<Rightarrow> 'x rdmem_scheme" where
  "pop_block b s = s\<lparr>blocks := (blocks s)(b := None)\<rparr>"

text \<open>
  \<open>KeWaitForSingleObject\<close> on the event of a block, for the thread that owns it: it goes on when
  the (synchronization) event is signalled and resets it.
\<close>

definition wait_event :: "ULONG_PTR \<Rightarrow> 'x rdmem_scheme \<Rightarrow> 'x rdmem_scheme option" where
  "wait_event b s =
     (case blocks s b of None \<Rightarrow> None
      | Some w \<Rightarrow> if WakeEvent w = Some True
                  then Some (s\<lparr>blocks := (blocks s)(b \<mapsto> w\<lparr>WakeEvent := Some False\<rparr>)\<rparr>) else None)"

end
