(* ===== verification/RundownUsers.thy ===== *)
theory RundownUsers
  imports Rundown
begin

text \<open>
  The protecting threads: their places inside the routines, the interleaved steps, and the
  contract between them and a rundown thread.  The locale \<open>rundown_protocol\<close> states what the
  threads rely on; inside it, every step is shown to keep the threads' invariant, every access to
  a wait block to find it, and the releases to be able to go on.  The plain and the cache-aware
  rundown interpret it.
\<close>

section \<open>Threads\<close>

text \<open>
  A call is the plain routine (\<open>None\<close>) or the \<open>Ex\<close> one with a count.  A protecting thread is
  between calls, or inside one at an atomic step: before the read of the word, at the attempt of
  the inline fast path, at a turn of the loop, or before the wake-up it owes.  \<open>held\<close> counts the
  protections the thread owns.
\<close>

datatype pc =
    Idle
  | AcqFast ULONG_PTR ULONG_PTR
  | AcqRead ULONG_PTR "ULONG option"
  | AcqTurn ULONG_PTR "ULONG option" ULONG_PTR
  | RelFast ULONG_PTR ULONG_PTR
  | RelRead ULONG_PTR "ULONG option"
  | RelTurn ULONG_PTR "ULONG option" ULONG_PTR
  | Waking ULONG_PTR

record thread =
  pc :: pc
  held :: nat

text \<open>
  The threads beside the memory; \<open>started\<close> counts the protections ever asked for and \<open>gone\<close> the
  ones given back.
\<close>

record rduser = rdmem +
  thr :: "thread list"
  started :: nat
  gone :: nat

definition amount :: "ULONG option \<Rightarrow> nat" where
  "amount k = (case k of None \<Rightarrow> 1 | Some c \<Rightarrow> unat c)"

definition acquire_turn :: "ULONG option \<Rightarrow> ULONG_PTR \<Rightarrow> ULONG_PTR \<Rightarrow> 'x rdmem_scheme \<Rightarrow> 'x rdmem_scheme \<times> acq_turn" where
  "acquire_turn k = (case k of None \<Rightarrow> ExfAcquireRundownProtection | Some c \<Rightarrow> ExAcquireRundownProtectionEx c)"

definition release_turn :: "ULONG option \<Rightarrow> ULONG_PTR \<Rightarrow> ULONG_PTR \<Rightarrow> 'x rdmem_scheme \<Rightarrow> ('x rdmem_scheme \<times> rel_turn) option" where
  "release_turn k = (case k of None \<Rightarrow> ExfReleaseRundownProtection | Some c \<Rightarrow> ExReleaseRundownProtectionEx c)"

definition set_thr :: "nat \<Rightarrow> pc \<Rightarrow> nat \<Rightarrow> 'x rduser_scheme \<Rightarrow> 'x rduser_scheme" where
  "set_thr i p h s = s\<lparr>thr := (thr s)[i := \<lparr>pc = p, held = h\<rparr>]\<rparr>"

text \<open>
  The steps of thread \<open>i\<close>.  The clients keep the discipline of the interface: a release gives
  back protections the thread owns, a count is neither zero nor so large that its double does
  not fit 32 bits, and fewer than \<open>2 ^ 62\<close> protections are ever asked for.
\<close>

inductive user_step :: "ULONG_PTR set \<Rightarrow> 'x rduser_scheme \<Rightarrow> 'x rduser_scheme \<Rightarrow> bool" for R where
  acq_fast_call: "user_step R s (set_thr i (AcqFast r (RrCount s r)) (held t) (s\<lparr>started := started s + 1\<rparr>))"
    if "i < length (thr s)" "thr s ! i = t" "pc t = Idle" "r \<in> R" "started s + 1 < 2 ^ 62"
| acq_call: "user_step R s (set_thr i (AcqRead r k) (held t) (s\<lparr>started := started s + amount k\<rparr>))"
    if "i < length (thr s)" "thr s ! i = t" "pc t = Idle" "r \<in> R" "amount k < 2 ^ 31" "0 < amount k"
      "started s + amount k < 2 ^ 62"
| acq_fast: "user_step R s (if b then set_thr i Idle (held t + 1) s' else set_thr i (AcqRead r None) (held t) s')"
    if "i < length (thr s)" "thr s ! i = t" "pc t = AcqFast r v"
      "ExAcquireRundownProtection r v s = (s', b)"
| acq_read: "user_step R s (set_thr i (AcqTurn r k (RrCount s r)) (held t) s)"
    if "i < length (thr s)" "thr s ! i = t" "pc t = AcqRead r k"
| acq_turn: "user_step R s
      (case a of AReturn b \<Rightarrow> set_thr i Idle (if b then held t + amount k else held t) s'
       | ARetry v' \<Rightarrow> set_thr i (AcqTurn r k v') (held t) s')"
    if "i < length (thr s)" "thr s ! i = t" "pc t = AcqTurn r k v" "acquire_turn k r v s = (s', a)"
| rel_fast_call: "user_step R s (set_thr i (RelFast r (RrCount s r)) (held t) s)"
    if "i < length (thr s)" "thr s ! i = t" "pc t = Idle" "r \<in> R" "0 < held t"
| rel_call: "user_step R s (set_thr i (RelRead r k) (held t) s)"
    if "i < length (thr s)" "thr s ! i = t" "pc t = Idle" "r \<in> R" "amount k < 2 ^ 31" "0 < amount k"
      "amount k \<le> held t"
| rel_fast: "user_step R s (if b then set_thr i Idle (held t - 1) (s'\<lparr>gone := gone s + 1\<rparr>) else set_thr i (RelRead r None) (held t) s')"
    if "i < length (thr s)" "thr s ! i = t" "pc t = RelFast r v"
      "ExReleaseRundownProtection r v s = (s', b)"
| rel_read: "user_step R s (set_thr i (RelTurn r k (RrCount s r)) (held t) s)"
    if "i < length (thr s)" "thr s ! i = t" "pc t = RelRead r k"
| rel_turn: "user_step R s
      (case a of RReturn \<Rightarrow> set_thr i Idle (held t - amount k) (s'\<lparr>gone := gone s + amount k\<rparr>)
       | RWake b \<Rightarrow> set_thr i (Waking b) (held t - amount k) (s'\<lparr>gone := gone s + amount k\<rparr>)
       | RRetry v' \<Rightarrow> set_thr i (RelTurn r k v') (held t) s')"
    if "i < length (thr s)" "thr s ! i = t" "pc t = RelTurn r k v" "release_turn k r v s = Some (s', a)"
| wake: "user_step R s (set_thr i Idle (held t) s')"
    if "i < length (thr s)" "thr s ! i = t" "pc t = Waking b" "KeSetEvent_block b s = Some s'"

text \<open>The protections outstanding.\<close>

definition outstanding :: "'x rduser_scheme \<Rightarrow> nat" where
  "outstanding s = sum_list (map held (thr s))"

section \<open>The atomic steps\<close>

named_theorems rd_effects "the atomic steps with their words read as numbers"

lemma active_odd: "v AND EX_RUNDOWN_ACTIVE \<noteq> 0 \<longleftrightarrow> odd v"
  by (simp add: EX_RUNDOWN_ACTIVE_def and_one_eq odd_iff_mod_2_eq_one)

lemma COUNT_INC_ucast: "ucast EX_RUNDOWN_COUNT_INC = (2 :: ULONG_PTR)"
  by (simp add: EX_RUNDOWN_COUNT_INC_def EX_RUNDOWN_COUNT_SHIFT_def)

lemma unat_word_of_nat: "n < 2 ^ LENGTH('a) \<Longrightarrow> unat (word_of_nat n :: 'a::len word) = n"
  by (simp add: unat_of_nat)

lemma COUNT_INC_times:
  assumes "unat c < 2 ^ 31"
  shows "ucast (EX_RUNDOWN_COUNT_INC * c) = (2 * word_of_nat (unat c) :: ULONG_PTR)"
proof -
  have "unat (EX_RUNDOWN_COUNT_INC * c) = 2 * unat c"
    using assms by (subst unat_mult_small)
      (simp_all add: EX_RUNDOWN_COUNT_INC_def EX_RUNDOWN_COUNT_SHIFT_def)
  then have l: "unat (ucast (EX_RUNDOWN_COUNT_INC * c) :: ULONG_PTR) = 2 * unat c"
    using assms by (subst unat_ucast_small) simp_all
  have "unat (2 * word_of_nat (unat c) :: ULONG_PTR) = 2 * unat c"
    using assms by (subst unat_mult_small) (simp_all add: unat_ucast_small)
  with l show ?thesis by (simp only: word_eqI_unat)
qed

lemma acquire_turn_eq [rd_effects]:
  assumes "amount k < 2 ^ 31"
  shows "acquire_turn k r v s =
    (if odd v then (s, AReturn False)
     else if RrCount s r = v then (s\<lparr>RrCount := (RrCount s)(r := v + 2 * word_of_nat (amount k))\<rparr>, AReturn True)
     else (s, ARetry (RrCount s r)))"
  using assms
  by (cases k) (simp_all add: acquire_turn_def amount_def ExfAcquireRundownProtection_def ExAcquireRundownProtectionEx_def
      active_odd [simplified] InterlockedCompareExchangePointer_def COUNT_INC_ucast COUNT_INC_times)

lemma release_turn_eq [rd_effects]:
  assumes "amount k < 2 ^ 31"
  shows "release_turn k r v s =
    (if odd v then
       (let b = v AND NOT EX_RUNDOWN_ACTIVE in
        case blocks s b of None \<Rightarrow> None
        | Some w \<Rightarrow> Some (s\<lparr>blocks := (blocks s)(b \<mapsto> w\<lparr>WbCount := WbCount w - word_of_nat (amount k)\<rparr>)\<rparr>,
            if WbCount w = word_of_nat (amount k) then RWake b else RReturn))
     else if RrCount s r = v then Some (s\<lparr>RrCount := (RrCount s)(r := v - 2 * word_of_nat (amount k))\<rparr>, RReturn)
     else Some (s, RRetry (RrCount s r)))"
  using assms
  by (cases k) (simp_all add: release_turn_def amount_def ExfReleaseRundownProtection_def ExReleaseRundownProtectionEx_def
      active_odd [simplified] InterlockedCompareExchangePointer_def InterlockedExchangeAdd64_def Let_def
      COUNT_INC_ucast COUNT_INC_times split: option.split)

lemma acquire_fast_eq [rd_effects]:
  "ExAcquireRundownProtection r v s =
    (if RrCount s r = v AND NOT EX_RUNDOWN_ACTIVE
     then (s\<lparr>RrCount := (RrCount s)(r := RrCount s r + 2)\<rparr>, True) else (s, False))"
  by (auto simp: ExAcquireRundownProtection_def InterlockedCompareExchangePointer_def Let_def COUNT_INC_ucast)

lemma release_fast_eq [rd_effects]:
  "ExReleaseRundownProtection r v s =
    (if RrCount s r = v AND NOT EX_RUNDOWN_ACTIVE
     then (s\<lparr>RrCount := (RrCount s)(r := RrCount s r - 2)\<rparr>, True) else (s, False))"
  by (auto simp: ExReleaseRundownProtection_def InterlockedCompareExchangePointer_def Let_def COUNT_INC_ucast)

lemma even_masked: "even (v AND NOT EX_RUNDOWN_ACTIVE)"
  by (simp add: EX_RUNDOWN_ACTIVE_def even_and_iff)

lemma odd_marked: "odd (b OR EX_RUNDOWN_ACTIVE)"
  by (simp add: EX_RUNDOWN_ACTIVE_def even_or_iff)

lemma unmark: "even b \<Longrightarrow> (b OR EX_RUNDOWN_ACTIVE) AND NOT EX_RUNDOWN_ACTIVE = b"
  by (rule bit_word_eqI) (auto simp: EX_RUNDOWN_ACTIVE_def bit_simps bit_0)

section \<open>The invariant of the threads\<close>

text \<open>Protections asked for but not yet granted, and wake-ups owed, by the place of a thread.\<close>

fun pend :: "pc \<Rightarrow> nat" where
  "pend (AcqFast r v) = 1"
| "pend (AcqRead r k) = amount k"
| "pend (AcqTurn r k v) = amount k"
| "pend _ = 0"

fun waking :: "pc \<Rightarrow> nat" where
  "waking (Waking b) = 1"
| "waking _ = 0"

definition amount_ok :: "ULONG option \<Rightarrow> bool" where
  "amount_ok k \<longleftrightarrow> 0 < amount k \<and> amount k < 2 ^ 31"

text \<open>
  What a thread inside a call relies on; \<open>w\<close> says that the wait block at \<open>wb\<close> is published and
  its owner has not left.  A releasing thread that read a marked word is one the rundown thread waits
  for.
\<close>

fun thread_ok :: "ULONG_PTR set \<Rightarrow> ULONG_PTR \<Rightarrow> bool \<Rightarrow> pc \<Rightarrow> nat \<Rightarrow> bool" where
  "thread_ok R wb w Idle h = True"
| "thread_ok R wb w (AcqFast r v) h = (r \<in> R)"
| "thread_ok R wb w (AcqRead r k) h = (r \<in> R \<and> amount_ok k)"
| "thread_ok R wb w (AcqTurn r k v) h = (r \<in> R \<and> amount_ok k)"
| "thread_ok R wb w (RelFast r v) h = (r \<in> R \<and> 0 < h)"
| "thread_ok R wb w (RelRead r k) h = (r \<in> R \<and> amount_ok k \<and> amount k \<le> h)"
| "thread_ok R wb w (RelTurn r k v) h =
     (r \<in> R \<and> amount_ok k \<and> amount k \<le> h \<and> (odd v \<longrightarrow> w \<and> v = wb OR EX_RUNDOWN_ACTIVE))"
| "thread_ok R wb w (Waking b) h = (w \<and> b = wb)"

definition wakers :: "'x rduser_scheme \<Rightarrow> nat" where
  "wakers s = sum_list (map (\<lambda>t. waking (pc t)) (thr s))"

definition asked :: "'x rduser_scheme \<Rightarrow> nat" where
  "asked s = sum_list (map (\<lambda>t. held t + pend (pc t)) (thr s))"

definition threads_ok :: "ULONG_PTR set \<Rightarrow> ULONG_PTR \<Rightarrow> bool \<Rightarrow> 'x rduser_scheme \<Rightarrow> bool" where
  "threads_ok R wb w s \<longleftrightarrow> asked s + gone s \<le> started s \<and> started s < 2 ^ 62
     \<and> (\<forall>t\<in>set (thr s). thread_ok R wb w (pc t) (held t))"

lemma sum_list_upd:
  "i < length xs \<Longrightarrow> sum_list (map f (xs[i := x])) + f (xs ! i) = sum_list (map f xs) + f x" for f :: "'a \<Rightarrow> nat"
  by (induction xs arbitrary: i) (auto split: nat.split)

lemma elem_le_sum: "i < length xs \<Longrightarrow> f (xs ! i) \<le> sum_list (map f xs)" for f :: "'a \<Rightarrow> nat"
  by (rule member_le_sum_list) simp_all

lemma set_thr_sums:
  assumes "i < length (thr s)" "thr s ! i = t" "thr s' = thr s"
  shows "outstanding (set_thr i p h s') = outstanding s - held t + h" "held t \<le> outstanding s"
    and "wakers (set_thr i p h s') = wakers s - waking (pc t) + waking p" "waking (pc t) \<le> wakers s"
    and "asked (set_thr i p h s') + (held t + pend (pc t)) = asked s + (h + pend p)"
  using assms
    sum_list_upd [of i "thr s" held "\<lparr>pc = p, held = h\<rparr>"]
    sum_list_upd [of i "thr s" "\<lambda>t. waking (pc t)" "\<lparr>pc = p, held = h\<rparr>"]
    sum_list_upd [of i "thr s" "\<lambda>t. held t + pend (pc t)" "\<lparr>pc = p, held = h\<rparr>"]
    elem_le_sum [of i "thr s" held] elem_le_sum [of i "thr s" "\<lambda>t. waking (pc t)"]
  by (simp_all add: outstanding_def wakers_def asked_def set_thr_def)

lemma set_thr_threads_ok:
  assumes inv: "threads_ok R wb w s" and i: "i < length (thr s)" "thr s ! i = t"
    and same: "thr s' = thr s" "started s' = started s + a" "started s' < 2 ^ 62" "gone s' = gone s + g"
    and ok: "thread_ok R wb w p h" and pend: "h + pend p + g \<le> held t + pend (pc t) + a"
  shows "threads_ok R wb w (set_thr i p h s')"
proof -
  have "asked (set_thr i p h s') + gone s' \<le> started s'"
    using set_thr_sums(5) [OF i same(1), of p h] inv pend same(2,4) by (simp add: threads_ok_def)
  moreover have "\<forall>u\<in>set (thr (set_thr i p h s')). thread_ok R wb w (pc u) (held u)"
    using inv ok set_update_subset_insert [of "thr s" i "\<lparr>pc = p, held = h\<rparr>"] same(1)
    by (auto simp: threads_ok_def set_thr_def)
  ultimately show ?thesis using same(3) by (simp add: threads_ok_def set_thr_def)
qed

lemma thread_at:
  "threads_ok R wb w s \<Longrightarrow> i < length (thr s) \<Longrightarrow> thr s ! i = t \<Longrightarrow> thread_ok R wb w (pc t) (held t)"
  by (auto simp: threads_ok_def)

lemma outstanding_bound: "threads_ok R wb w s \<Longrightarrow> outstanding s + gone s < 2 ^ 62"
proof -
  assume "threads_ok R wb w s"
  moreover have "outstanding s \<le> asked s"
    unfolding outstanding_def asked_def by (induction "thr s") (auto intro: sum_list_mono)
  ultimately show ?thesis by (simp add: threads_ok_def)
qed

lemma thread_ok_mono: "thread_ok R wb False p h \<Longrightarrow> thread_ok R wb w p h"
  by (cases p) auto

lemma threads_ok_enter:
  "threads_ok R wb False s \<Longrightarrow> thr s' = thr s \<Longrightarrow> started s' = started s \<Longrightarrow> gone s' = gone s \<Longrightarrow> threads_ok R wb w s'"
  by (auto simp: threads_ok_def asked_def intro: thread_ok_mono)

lemma no_wakers: "threads_ok R wb False s \<Longrightarrow> wakers s = 0"
proof -
  assume ok: "threads_ok R wb False s"
  have "waking (pc t) = 0" if "t \<in> set (thr s)" for t
    using ok that by (cases "pc t") (auto simp: threads_ok_def)
  then show ?thesis unfolding wakers_def by (induction "thr s") auto
qed

lemma threads_ok_leave:
  assumes "threads_ok R wb True s" "outstanding s = 0" "wakers s = 0" "thr s' = thr s" "started s' = started s" "gone s' = gone s"
  shows "threads_ok R wb w s'"
proof (rule threads_ok_enter [OF _ assms(4-6)])
  have "thread_ok R wb False (pc t) (held t)" if t: "t \<in> set (thr s)" for t
  proof -
    have "held t = 0" "waking (pc t) = 0" using assms(2,3) t by (auto simp: outstanding_def wakers_def)
    moreover have "thread_ok R wb True (pc t) (held t)" using assms(1) t by (simp add: threads_ok_def)
    ultimately show ?thesis by (cases "pc t") (auto simp: amount_ok_def)
  qed
  then show "threads_ok R wb False s" using assms(1) by (simp add: threads_ok_def)
qed

lemma counts_cong: "thr s' = thr s \<Longrightarrow> outstanding s' = outstanding s \<and> wakers s' = wakers s"
  by (simp add: outstanding_def wakers_def)

text \<open>
  A variant for the threads a rundown thread waits for: eight for each protection held, more
  inside an acquire, less as a release goes on.
\<close>

fun rank :: "pc \<Rightarrow> nat \<Rightarrow> nat" where
  "rank Idle h = 8 * h"
| "rank (AcqFast r v) h = 8 * h + 4"
| "rank (AcqRead r k) h = 8 * h + 3"
| "rank (AcqTurn r k v) h = 8 * h + (if even v then 2 else 1)"
| "rank (RelFast r v) h = 8 * h - 1"
| "rank (RelRead r k) h = 8 * h - 2"
| "rank (RelTurn r k v) h = 8 * h - (if even v then 3 else 4)"
| "rank (Waking b) h = 8 * h + 1"

definition ranks :: "'x rduser_scheme \<Rightarrow> nat" where
  "ranks s = sum_list (map (\<lambda>t. rank (pc t) (held t)) (thr s))"

lemma ranks_set_thr:
  assumes "i < length (thr s)" "thr s ! i = t" "thr s' = thr s" "rank p h < rank (pc t) (held t)"
  shows "ranks (set_thr i p h s') < ranks s"
  using assms sum_list_upd [of i "thr s" "\<lambda>t. rank (pc t) (held t)" "\<lparr>pc = p, held = h\<rparr>"]
  by (simp add: ranks_def set_thr_def)

lemma set_thr_out_le:
  assumes "i < length (thr s)" "thr s ! i = t" "thr s' = thr s" "h \<le> held t"
  shows "outstanding (set_thr i p h s') \<le> outstanding s"
  using set_thr_sums(1) [OF assms(1-3), of p h] set_thr_sums(2) [OF assms(1-3)] assms(4) by simp

section \<open>The wait block\<close>

text \<open>
  A drained or draining block: its count is the number of protections outstanding, and when
  that is zero the event is signalled or exactly one thread owes the signal.
\<close>

definition block_ok :: "EX_RUNDOWN_WAIT_BLOCK option \<Rightarrow> nat \<Rightarrow> nat \<Rightarrow> bool" where
  "block_ok B n k \<longleftrightarrow> (\<exists>w. B = Some w \<and> WbCount w = word_of_nat n
     \<and> (if 0 < n then WakeEvent w = Some False \<and> k = 0
        else (WakeEvent w = Some False \<and> k = 1) \<or> (WakeEvent w = Some True \<and> k = 0)))"

lemma word_of_nat_inj:
  assumes "m < 2 ^ 62" "n < 2 ^ 62"
  shows "(word_of_nat m :: ULONG_PTR) = word_of_nat n \<longleftrightarrow> m = n"
proof
  assume "(word_of_nat m :: ULONG_PTR) = word_of_nat n"
  then have "unat (word_of_nat m :: ULONG_PTR) = unat (word_of_nat n :: ULONG_PTR)" by (rule arg_cong)
  then show "m = n" using assms by (simp add: unat_of_nat)
qed simp

lemma block_ok_Some: "block_ok B n k \<Longrightarrow> \<exists>w. B = Some w"
  by (auto simp: block_ok_def)

lemma block_ok_down:
  assumes "block_ok (Some w) n k" "0 < a" "a \<le> n" "n < 2 ^ 62"
  shows "block_ok (Some (w\<lparr>WbCount := WbCount w - word_of_nat a\<rparr>)) (n - a) (k + (if WbCount w = word_of_nat a then 1 else 0))"
  using assms word_of_nat_inj [of n a] by (auto simp: block_ok_def of_nat_diff)

lemma block_ok_wake:
  "block_ok (Some w) n k \<Longrightarrow> 0 < k \<Longrightarrow> WakeEvent w \<noteq> None \<and> block_ok (Some (w\<lparr>WakeEvent := Some True\<rparr>)) n (k - 1)"
  by (auto simp: block_ok_def split: if_splits)

lemma block_ok_signalled:
  "block_ok (blocks s wb) n k \<Longrightarrow> wait_event wb s \<noteq> None \<longleftrightarrow> n = 0 \<and> k = 0"
  by (auto simp: wait_event_def block_ok_def split: if_splits)

lemma double_zero: "n < 2 ^ 62 \<Longrightarrow> (2 * word_of_nat n :: ULONG_PTR) = 0 \<longleftrightarrow> n = 0"
proof -
  assume n: "n < 2 ^ 62"
  have "(2 * word_of_nat n :: ULONG_PTR) = word_of_nat (2 * n)" by simp
  then have "unat (2 * word_of_nat n :: ULONG_PTR) = 2 * n" using n unat_word_of_nat [of "2 * n", where 'a = 64] by simp
  then show ?thesis by (metis mult_is_0 unat_0 unsigned_0 word_eqI_unat zero_neq_numeral)
qed

lemma double_ne_one: "2 * x \<noteq> (1 :: ULONG_PTR)"
proof
  assume "2 * x = (1 :: ULONG_PTR)"
  moreover have "even (2 * x)" by simp
  ultimately show False by simp
qed

lemma double_half: "n < 2 ^ 62 \<Longrightarrow> drop_bit EX_RUNDOWN_COUNT_SHIFT (2 * word_of_nat n :: ULONG_PTR) = word_of_nat n"
proof -
  assume n: "n < 2 ^ 62"
  have "(2 * word_of_nat n :: ULONG_PTR) = word_of_nat (2 * n)" by simp
  then have "unat (2 * word_of_nat n :: ULONG_PTR) = 2 * n" using n unat_word_of_nat [of "2 * n", where 'a = 64] by simp
  then have "unat (drop_bit 1 (2 * word_of_nat n :: ULONG_PTR)) = n"
    by (simp add: drop_bit_eq_div unat_div_word)
  then show ?thesis using n unfolding EX_RUNDOWN_COUNT_SHIFT_def
    by (intro word_eqI_unat) (simp add: unat_of_nat)
qed

section \<open>The contract with the rundown thread\<close>

text \<open>
  \<open>live s\<close> says that the wait block is published and its owner has not left; \<open>phase s n k\<close> is
  what the words and the block say when \<open>n\<close> protections are outstanding and \<open>k\<close> wake-ups are
  owed.  An unmarked word counts up and down, a live block counts down and asks for the wake-up
  at its end, and a marked word met by a holder leads to a live block.
\<close>

definition users_inv ::
  "ULONG_PTR set \<Rightarrow> ULONG_PTR \<Rightarrow> ('x rduser_scheme \<Rightarrow> bool) \<Rightarrow> ('x rduser_scheme \<Rightarrow> nat \<Rightarrow> nat \<Rightarrow> bool)
    \<Rightarrow> 'x rduser_scheme \<Rightarrow> bool" where
  "users_inv R wb live phase s \<longleftrightarrow> threads_ok R wb (live s) s \<and> phase s (outstanding s) (wakers s)"

definition drop_block :: "ULONG_PTR \<Rightarrow> EX_RUNDOWN_WAIT_BLOCK \<Rightarrow> nat \<Rightarrow> 'x rduser_scheme \<Rightarrow> 'x rduser_scheme" where
  "drop_block b w a s = s\<lparr>blocks := (blocks s)(b \<mapsto> w\<lparr>WbCount := WbCount w - word_of_nat a\<rparr>), gone := gone s + a\<rparr>"

definition set_block_event :: "ULONG_PTR \<Rightarrow> EX_RUNDOWN_WAIT_BLOCK \<Rightarrow> 'x rduser_scheme \<Rightarrow> 'x rduser_scheme" where
  "set_block_event b w s = s\<lparr>blocks := (blocks s)(b \<mapsto> w\<lparr>WakeEvent := Some True\<rparr>)\<rparr>"

locale rundown_protocol =
  fixes R :: "ULONG_PTR set" and wb :: ULONG_PTR
    and live :: "'x rduser_scheme \<Rightarrow> bool"
    and phase :: "'x rduser_scheme \<Rightarrow> nat \<Rightarrow> nat \<Rightarrow> bool"
  assumes live_frame: "live (s\<lparr>RrCount := c\<rparr>) = live s" "live (s\<lparr>blocks := b\<rparr>) = live s"
      "live (s\<lparr>thr := x\<rparr>) = live s" "live (s\<lparr>started := m\<rparr>) = live s" "live (s\<lparr>gone := m\<rparr>) = live s"
    and phase_frame: "phase (s\<lparr>thr := x\<rparr>) n k = phase s n k" "phase (s\<lparr>started := m\<rparr>) n k = phase s n k"
    and count_up: "phase s n k \<Longrightarrow> r \<in> R \<Longrightarrow> even (RrCount s r) \<Longrightarrow>
      phase (s\<lparr>RrCount := (RrCount s)(r := RrCount s r + 2 * word_of_nat a)\<rparr>) (n + a) k"
    and count_down: "phase s n k \<Longrightarrow> r \<in> R \<Longrightarrow> even (RrCount s r) \<Longrightarrow> a \<le> n \<Longrightarrow>
      phase (s\<lparr>RrCount := (RrCount s)(r := RrCount s r - 2 * word_of_nat a), gone := gone s + a\<rparr>) (n - a) k"
    and block_down: "phase s n k \<Longrightarrow> live s \<Longrightarrow> 0 < a \<Longrightarrow> a \<le> n \<Longrightarrow> n + gone s < 2 ^ 62 \<Longrightarrow>
      \<exists>w. blocks s wb = Some w \<and> phase (drop_block wb w a s) (n - a) (k + (if WbCount w = word_of_nat a then 1 else 0))"
    and wake_block: "phase s n k \<Longrightarrow> live s \<Longrightarrow> 0 < k \<Longrightarrow>
      \<exists>w. blocks s wb = Some w \<and> WakeEvent w \<noteq> None \<and> phase (set_block_event wb w s) n (k - 1)"
    and live_even: "phase s n k \<Longrightarrow> live s \<Longrightarrow> even wb"
    and marked_live: "phase s n k \<Longrightarrow> r \<in> R \<Longrightarrow> odd (RrCount s r) \<Longrightarrow> 0 < n \<Longrightarrow>
      live s \<and> RrCount s r = wb OR EX_RUNDOWN_ACTIVE"
begin

lemma live_set_thr [simp]: "live (set_thr i p h s) = live s"
  by (simp add: set_thr_def live_frame)

lemma set_thr_inv:
  assumes inv: "users_inv R wb live phase s" and i: "i < length (thr s)" "thr s ! i = t"
    and same: "thr s' = thr s" "live s' = live s" "started s' = started s + a" "started s' < 2 ^ 62" "gone s' = gone s + g"
    and ok: "thread_ok R wb (live s) p h" and pend: "h + pend p + g \<le> held t + pend (pc t) + a"
    and ph: "phase s' (outstanding s - held t + h) (wakers s - waking (pc t) + waking p)"
  shows "users_inv R wb live phase (set_thr i p h s')"
proof -
  have "threads_ok R wb (live s) (set_thr i p h s')"
    using inv by (intro set_thr_threads_ok [OF _ i same(1,3-5) ok pend]) (simp add: users_inv_def)
  moreover have "phase (set_thr i p h s') n k = phase s' n k" for n k
    by (simp add: set_thr_def phase_frame)
  ultimately show ?thesis
    using ph same(2) by (simp add: users_inv_def set_thr_sums [OF i same(1)])
qed

lemma inv_thread: "users_inv R wb live phase s \<Longrightarrow> i < length (thr s) \<Longrightarrow> thr s ! i = t \<Longrightarrow>
    thread_ok R wb (live s) (pc t) (held t)"
  by (auto simp: users_inv_def intro: thread_at)

lemma inv_started: "users_inv R wb live phase s \<Longrightarrow> started s < 2 ^ 62"
  by (simp add: users_inv_def threads_ok_def)

lemma move_pc:
  assumes "users_inv R wb live phase s" "i < length (thr s)" "thr s ! i = t" "started s + a < 2 ^ 62"
    and "thread_ok R wb (live s) p (held t)" "pend p \<le> pend (pc t) + a" "waking p = waking (pc t)"
  shows "users_inv R wb live phase (set_thr i p (held t) (s\<lparr>started := started s + a\<rparr>))"
  using assms set_thr_sums(2,4) [OF assms(2,3) refl]
  by (intro set_thr_inv [OF assms(1-3), where a = a and g = 0]) (simp_all add: users_inv_def live_frame phase_frame)

lemma stay:
  assumes "users_inv R wb live phase s" "i < length (thr s)" "thr s ! i = t"
    and "thread_ok R wb (live s) p (held t)" "pend p \<le> pend (pc t)" "waking p = waking (pc t)"
  shows "users_inv R wb live phase (set_thr i p (held t) s)"
  using move_pc [OF assms(1-3), of 0 p] assms inv_started [OF assms(1)] by simp

lemma acquired:
  assumes inv: "users_inv R wb live phase s" and i: "i < length (thr s)" "thr s ! i = t" and r: "r \<in> R"
    and "even (RrCount s r)" "pend (pc t) = a" "waking (pc t) = 0"
  shows "users_inv R wb live phase
    (set_thr i Idle (held t + a) (s\<lparr>RrCount := (RrCount s)(r := RrCount s r + 2 * word_of_nat a)\<rparr>))"
  using inv assms(6,7) count_up [OF _ r assms(5)] set_thr_sums(2) [OF i refl] inv_started [OF inv]
  by (intro set_thr_inv [OF inv i, where a = 0 and g = 0]) (simp_all add: users_inv_def live_frame)

lemma released:
  assumes inv: "users_inv R wb live phase s" and i: "i < length (thr s)" "thr s ! i = t" and r: "r \<in> R"
    and "even (RrCount s r)" "a \<le> held t" "waking (pc t) = 0"
  shows "users_inv R wb live phase (set_thr i Idle (held t - a)
    (s\<lparr>RrCount := (RrCount s)(r := RrCount s r - 2 * word_of_nat a), gone := gone s + a\<rparr>))"
proof -
  have le: "held t \<le> outstanding s" by (rule set_thr_sums(2) [OF i refl])
  then have "phase (s\<lparr>RrCount := (RrCount s)(r := RrCount s r - 2 * word_of_nat a), gone := gone s + a\<rparr>)
      (outstanding s - a) (wakers s)"
    using inv assms(6) by (intro count_down [OF _ r assms(5)]) (simp_all add: users_inv_def)
  then show ?thesis
    using assms(6,7) le inv_started [OF inv]
    by (intro set_thr_inv [OF inv i, where a = 0 and g = a]) (simp_all add: live_frame)
qed

lemma reread:
  assumes inv: "users_inv R wb live phase s" and i: "i < length (thr s)" "thr s ! i = t" and r: "r \<in> R"
    and k: "amount_ok k" "amount k \<le> held t"
  shows "thread_ok R wb (live s) (RelTurn r k (RrCount s r)) (held t)"
proof -
  have "0 < outstanding s" using k set_thr_sums(2) [OF i refl] by (simp add: amount_ok_def)
  then show ?thesis using inv marked_live [OF _ r] k r by (auto simp: users_inv_def)
qed

lemma block_released:
  assumes inv: "users_inv R wb live phase s" and i: "i < length (thr s)" "thr s ! i = t"
    and pc: "pc t = RelTurn r k v" and v: "odd v"
  obtains w where "blocks s wb = Some w" "v AND NOT EX_RUNDOWN_ACTIVE = wb" "live s"
    "users_inv R wb live phase (set_thr i (if WbCount w = word_of_nat (amount k) then Waking wb else Idle)
      (held t - amount k) (drop_block wb w (amount k) s))"
proof -
  have ok: "amount_ok k" "amount k \<le> held t" "live s" "v = wb OR EX_RUNDOWN_ACTIVE"
    using inv_thread [OF inv i] pc v by simp_all
  have ph: "phase s (outstanding s) (wakers s)" and bound: "outstanding s + gone s < 2 ^ 62"
    using inv outstanding_bound [of R wb "live s" s] by (simp_all add: users_inv_def)
  have b: "v AND NOT EX_RUNDOWN_ACTIVE = wb" using unmark [OF live_even [OF ph ok(3)]] ok(4) by simp
  have le: "held t \<le> outstanding s" by (rule set_thr_sums(2) [OF i refl])
  obtain w where w: "blocks s wb = Some w" "phase (drop_block wb w (amount k) s) (outstanding s - amount k)
      (wakers s + (if WbCount w = word_of_nat (amount k) then 1 else 0))"
    using block_down [OF ph ok(3) _ _ bound, of "amount k"] ok(1,2) le by (auto simp: amount_ok_def)
  have "users_inv R wb live phase (set_thr i (if WbCount w = word_of_nat (amount k) then Waking wb else Idle)
      (held t - amount k) (drop_block wb w (amount k) s))"
    using ok le pc w inv_started [OF inv]
    by (intro set_thr_inv [OF inv i, where a = 0 and g = "amount k"])
      (simp_all add: drop_block_def live_frame split: if_splits)
  with w(1) b ok(3) show thesis by (rule that)
qed

lemma woken:
  assumes inv: "users_inv R wb live phase s" and i: "i < length (thr s)" "thr s ! i = t" and pc: "pc t = Waking b"
  obtains w where "b = wb" "live s" "blocks s wb = Some w" "KeSetEvent_block b s = Some (set_block_event wb w s)"
    "users_inv R wb live phase (set_thr i Idle (held t) (set_block_event wb w s))"
proof -
  have ok: "live s" "b = wb" using inv_thread [OF inv i] pc by simp_all
  have wk: "0 < wakers s" using set_thr_sums(4) [OF i refl] pc by simp
  obtain w where w: "blocks s wb = Some w" "WakeEvent w \<noteq> None" "phase (set_block_event wb w s) (outstanding s) (wakers s - 1)"
    using inv wake_block [of s "outstanding s" "wakers s", OF _ ok(1) wk] unfolding users_inv_def by blast
  have "users_inv R wb live phase (set_thr i Idle (held t) (set_block_event wb w s))"
    using w pc set_thr_sums(2) [OF i refl] inv_started [OF inv]
    by (intro set_thr_inv [OF inv i, where a = 0 and g = 0]) (simp_all add: set_block_event_def live_frame)
  moreover have "KeSetEvent_block b s = Some (set_block_event wb w s)"
    using w ok by (simp add: KeSetEvent_block_def set_block_event_def)
  ultimately show thesis using ok w(1) by (intro that)
qed

lemma rel_turn_inv:
  assumes inv: "users_inv R wb live phase s" and i: "i < length (thr s)" "thr s ! i = t"
    and pc: "pc t = RelTurn r k v" and turn: "release_turn k r v s = Some (s', a)"
  shows "users_inv R wb live phase
      (case a of RReturn \<Rightarrow> set_thr i Idle (held t - amount k) (s'\<lparr>gone := gone s + amount k\<rparr>)
       | RWake b \<Rightarrow> set_thr i (Waking b) (held t - amount k) (s'\<lparr>gone := gone s + amount k\<rparr>)
       | RRetry v' \<Rightarrow> set_thr i (RelTurn r k v') (held t) s')"
proof -
  have k: "amount k < 2 ^ 31" "amount_ok k" "amount k \<le> held t" "r \<in> R"
    using inv_thread [OF inv i] pc by (simp_all add: amount_ok_def)
  show ?thesis
  proof (cases "odd v")
    case True
    obtain w where w: "blocks s wb = Some w" "v AND NOT EX_RUNDOWN_ACTIVE = wb"
      and inv': "users_inv R wb live phase (set_thr i (if WbCount w = word_of_nat (amount k) then Waking wb else Idle)
        (held t - amount k) (drop_block wb w (amount k) s))"
      by (rule block_released [OF inv i pc True])
    have "s'\<lparr>gone := gone s + amount k\<rparr> = drop_block wb w (amount k) s"
      "a = (if WbCount w = word_of_nat (amount k) then RWake wb else RReturn)"
      using turn True w unfolding release_turn_eq [OF k(1)] by (auto simp: Let_def drop_block_def)
    then show ?thesis using inv' by (cases "WbCount w = word_of_nat (amount k)") simp_all
  next
    case False
    have again: "users_inv R wb live phase (set_thr i (RelTurn r k (RrCount s r)) (held t) s)"
      using pc by (intro stay [OF inv i] reread [OF inv i k(4,2,3)]) simp_all
    have down: "users_inv R wb live phase (set_thr i Idle (held t - amount k)
        (s\<lparr>RrCount := (RrCount s)(r := RrCount s r - 2 * word_of_nat (amount k)), gone := gone s + amount k\<rparr>))"
      if "RrCount s r = v"
      using that False pc by (intro released [OF inv i k(4) _ k(3)]) simp_all
    show ?thesis
      using turn False again down unfolding release_turn_eq [OF k(1)] by (cases "RrCount s r = v") auto
  qed
qed

lemma acq_turn_inv:
  assumes inv: "users_inv R wb live phase s" and i: "i < length (thr s)" "thr s ! i = t"
    and pc: "pc t = AcqTurn r k v" and turn: "acquire_turn k r v s = (s', a)"
  shows "users_inv R wb live phase
      (case a of AReturn b \<Rightarrow> set_thr i Idle (if b then held t + amount k else held t) s'
       | ARetry v' \<Rightarrow> set_thr i (AcqTurn r k v') (held t) s')"
proof -
  have k: "amount k < 2 ^ 31" "amount_ok k" "r \<in> R"
    using inv_thread [OF inv i] pc by (simp_all add: amount_ok_def)
  show ?thesis
    using turn acquired [OF inv i k(3), of "amount k"] pc k stay [OF inv i]
    unfolding acquire_turn_eq [OF k(1)] by (auto split: if_splits)
qed

lemma user_step_inv: "user_step R s s' \<Longrightarrow> users_inv R wb live phase s \<Longrightarrow> users_inv R wb live phase s'"
proof (induction rule: user_step.induct)
  case (acq_fast_call i s t r)
  then show ?case by (intro move_pc) simp_all
next
  case (acq_call i s t r k)
  then show ?case by (intro move_pc) (simp_all add: amount_ok_def)
next
  case (acq_fast i s t r v s' b)
  note th = inv_thread [OF acq_fast.prems acq_fast(1,2)] and st = stay [OF acq_fast.prems acq_fast(1,2), of "AcqRead r None"]
  show ?case
    using acq_fast th st even_masked [of v] acquired [OF acq_fast.prems acq_fast(1,2), of r 1]
    by (auto simp: acquire_fast_eq amount_ok_def amount_def split: if_splits)
next
  case (acq_read i s t r k)
  then show ?case using inv_thread [OF acq_read.prems acq_read(1,2)] by (intro stay) simp_all
next
  case (rel_fast i s t r v s' b)
  note th = inv_thread [OF rel_fast.prems rel_fast(1,2)] and st = stay [OF rel_fast.prems rel_fast(1,2), of "RelRead r None"]
  show ?case
    using rel_fast th st even_masked [of v] released [OF rel_fast.prems rel_fast(1,2), of r 1]
    by (auto simp: release_fast_eq amount_ok_def amount_def split: if_splits)
next
  case (rel_read i s t r k)
  note th = inv_thread [OF rel_read.prems rel_read(1,2)]
  then show ?case
    using rel_read reread [OF rel_read.prems rel_read(1,2), of r k] by (intro stay) auto
next
  case (wake i s t b s')
  then show ?case by (metis woken option.inject)
qed (simp_all add: amount_ok_def stay acq_turn_inv rel_turn_inv)

text \<open>Every access to a wait block finds the block.\<close>

lemma blocks_found:
  assumes inv: "users_inv R wb live phase s" and u: "u \<in> set (thr s)"
  shows "pc u = RelTurn r k v \<Longrightarrow> release_turn k r v s \<noteq> None"
    and "pc u = Waking b \<Longrightarrow> KeSetEvent_block b s \<noteq> None"
proof -
  obtain i where i: "i < length (thr s)" "thr s ! i = u" using u by (auto simp: in_set_conv_nth)
  note th = inv_thread [OF inv i]
  show "release_turn k r v s \<noteq> None" if pc: "pc u = RelTurn r k v"
  proof (cases "odd v")
    case True
    obtain w where "blocks s wb = Some w" "v AND NOT EX_RUNDOWN_ACTIVE = wb"
      by (rule block_released [OF inv i pc True])
    then show ?thesis using th pc True by (simp add: release_turn_eq amount_ok_def Let_def)
  qed (use th pc in \<open>simp add: release_turn_eq amount_ok_def\<close>)
  show "KeSetEvent_block b s \<noteq> None" if pc: "pc u = Waking b"
    by (rule woken [OF inv i pc]) simp
qed

text \<open>When all words are marked, no step grants protection.\<close>

lemma no_grant:
  "user_step R s s' \<Longrightarrow> users_inv R wb live phase s \<Longrightarrow> \<forall>r\<in>R. odd (RrCount s r) \<Longrightarrow> outstanding s' \<le> outstanding s"
proof (induction rule: user_step.induct)
  case (acq_fast i s t r v s' b)
  then have "\<not> b \<and> s' = s"
    using inv_thread [OF acq_fast.prems(1) acq_fast(1,2)] even_masked [of v] by (auto simp: acquire_fast_eq split: if_splits)
  then show ?case by (auto intro: set_thr_out_le [OF acq_fast(1,2)])
next
  case (acq_turn i s t r k v s' a)
  then have k: "amount k < 2 ^ 31" "r \<in> R"
    using inv_thread [OF acq_turn.prems(1) acq_turn(1,2)] by (simp_all add: amount_ok_def)
  then have "a \<noteq> AReturn True \<and> s' = s"
    using acq_turn unfolding acquire_turn_eq [OF k(1)] by (auto split: if_splits)
  then show ?case by (auto intro: set_thr_out_le [OF acq_turn(1,2)] split: acq_turn.split)
next
  case (rel_fast i s t r v s' b)
  then have "thr s' = thr s" by (auto simp: release_fast_eq split: if_splits)
  then show ?case by (auto intro: set_thr_out_le [OF rel_fast(1,2)])
next
  case (rel_turn i s t r k v s' a)
  then have "amount k < 2 ^ 31" using inv_thread [OF rel_turn.prems(1) rel_turn(1,2)] by (simp add: amount_ok_def)
  then have "thr s' = thr s"
    using rel_turn(4) by (auto simp: release_turn_eq Let_def split: if_splits option.splits)
  then show ?case by (auto intro: set_thr_out_le [OF rel_turn(1,2)] split: rel_turn.split)
next
  case (wake i s t b s')
  then have "thr s' = thr s" by (auto simp: KeSetEvent_block_def split: option.splits if_splits)
  then show ?case by (intro set_thr_out_le [OF wake(1,2)]) simp_all
qed (auto intro: set_thr_out_le)

text \<open>When all words are marked and the block is live, a thread with work to do can step closer to its end.\<close>

lemma step_closer:
  assumes "user_step R s (set_thr i p h s')" "i < length (thr s)" "thr s ! i = t" "thr s' = thr s"
    "rank p h < rank (pc t) (held t)" "live s'" "RrCount s' = RrCount s"
  shows "\<exists>u. user_step R s u \<and> ranks u < ranks s \<and> live u \<and> RrCount u = RrCount s"
  using assms ranks_set_thr [OF assms(2-5)] by (auto simp: live_frame set_thr_def intro!: exI)

lemma closer_acquiring:
  assumes inv: "users_inv R wb live phase s" and w: "live s" "\<forall>r\<in>R. odd (RrCount s r)"
    and i: "i < length (thr s)" "thr s ! i = t" and pc: "0 < pend (pc t)"
  shows "\<exists>u. user_step R s u \<and> ranks u < ranks s \<and> live u \<and> RrCount u = RrCount s"
proof -
  note th = inv_thread [OF inv i]
  show ?thesis
  proof (cases "pc t")
    case (AcqFast r v)
    have "ExAcquireRundownProtection r v s = (s, False)"
      using th AcqFast w(2) even_masked [of v] by (auto simp: acquire_fast_eq)
    from user_step.acq_fast [OF i AcqFast this] show ?thesis
      using w AcqFast by (intro step_closer [OF _ i, of "AcqRead r None" "held t" s]) simp_all
  next
    case (AcqRead r k)
    from user_step.acq_read [OF i AcqRead] show ?thesis
      using w AcqRead th by (intro step_closer [OF _ i, of "AcqTurn r k (RrCount s r)" "held t" s]) simp_all
  next
    case (AcqTurn r k v)
    then have k: "amount k < 2 ^ 31" "odd (RrCount s r)" using th w by (simp_all add: amount_ok_def)
    define a where "a = (if odd v then AReturn False else ARetry (RrCount s r))"
    have "acquire_turn k r v s = (s, a)"
      using k(2) unfolding acquire_turn_eq [OF k(1)] a_def by auto
    from user_step.acq_turn [OF i AcqTurn this, where R = R] show ?thesis
      using w AcqTurn k(2) by (cases "odd v") (auto simp: a_def intro: step_closer [OF _ i])
  qed (use pc in simp_all)
qed

lemma closer_releasing:
  assumes inv: "users_inv R wb live phase s" and w: "live s" "\<forall>r\<in>R. odd (RrCount s r)"
    and i: "i < length (thr s)" "thr s ! i = t" and pc: "pc t = RelTurn r k v"
  shows "\<exists>u. user_step R s u \<and> ranks u < ranks s \<and> live u \<and> RrCount u = RrCount s"
proof -
  have k: "amount k < 2 ^ 31" "odd (RrCount s r)" "0 < amount k" "amount k \<le> held t"
    using inv_thread [OF inv i] pc w by (simp_all add: amount_ok_def)
  show ?thesis
  proof (cases "odd v")
    case True
    obtain w' where b: "blocks s wb = Some w'" "v AND NOT EX_RUNDOWN_ACTIVE = wb"
      by (rule block_released [OF inv i pc True])
    obtain s' a where turn: "release_turn k r v s = Some (s', a)" "thr s' = thr s" "live s'" "RrCount s' = RrCount s"
        "a = RReturn \<or> (\<exists>b. a = RWake b)"
      using b True w unfolding release_turn_eq [OF k(1)] by (simp add: Let_def live_frame split: if_splits)
    from user_step.rel_turn [OF i pc turn(1), where R = R] show ?thesis
      using turn(2-5) pc True k by (auto simp: live_frame intro!: step_closer [OF _ i])
  next
    case False
    then have "release_turn k r v s = Some (s, RRetry (RrCount s r))"
      using k(2) unfolding release_turn_eq [OF k(1)] by auto
    from user_step.rel_turn [OF i pc this, where R = R] show ?thesis
      using w pc False k by (intro step_closer [OF _ i, of "RelTurn r k (RrCount s r)" "held t" s]) simp_all
  qed
qed

lemma closer_thread:
  assumes inv: "users_inv R wb live phase s" and w: "live s" "\<forall>r\<in>R. odd (RrCount s r)" and r: "r \<in> R"
    and i: "i < length (thr s)" "thr s ! i = t" and pos: "0 < rank (pc t) (held t)"
  shows "\<exists>u. user_step R s u \<and> ranks u < ranks s \<and> live u \<and> RrCount u = RrCount s"
proof -
  note th = inv_thread [OF inv i]
  show ?thesis
  proof (cases "pc t")
    case Idle
    then have "user_step R s (set_thr i (RelRead r None) (held t) s)"
      using i pos r by (intro user_step.rel_call) (simp_all add: amount_def)
    then show ?thesis using w Idle pos by (intro step_closer [OF _ i, of "RelRead r None" "held t" s]) simp_all
  next
    case (RelFast r v)
    have "ExReleaseRundownProtection r v s = (s, False)"
      using th RelFast w even_masked [of v] by (auto simp: release_fast_eq)
    from user_step.rel_fast [OF i RelFast this] show ?thesis
      using w RelFast th by (intro step_closer [OF _ i, of "RelRead r None" "held t" s]) auto
  next
    case (RelRead r k)
    from user_step.rel_read [OF i RelRead] show ?thesis
      using w RelRead th by (intro step_closer [OF _ i, of "RelTurn r k (RrCount s r)" "held t" s])
        (auto simp: amount_ok_def)
  next
    case (RelTurn r k v)
    then show ?thesis by (rule closer_releasing [OF inv w i])
  next
    case (Waking b)
    obtain w' where "KeSetEvent_block b s = Some (set_block_event wb w' s)" by (rule woken [OF inv i Waking])
    from user_step.wake [OF i Waking this, of R] show ?thesis
      using Waking w by (intro step_closer [OF _ i, of Idle "held t" "set_block_event wb w' s"])
        (simp_all add: set_block_event_def live_frame)
  qed (use closer_acquiring [OF inv w i] th in \<open>simp_all add: amount_ok_def\<close>)
qed

text \<open>With no thread left with work to do, nothing is outstanding and no wake-up is owed.\<close>

lemma all_done:
  assumes inv: "users_inv R wb live phase s" and none: "\<forall>i<length (thr s). rank (pc (thr s ! i)) (held (thr s ! i)) = 0"
  shows "outstanding s = 0" "wakers s = 0"
proof -
  have "waking (pc t) = 0 \<and> held t = 0" if t: "t \<in> set (thr s)" for t
  proof -
    obtain i where "i < length (thr s)" "thr s ! i = t" using t by (auto simp: in_set_conv_nth)
    then have "rank (pc t) (held t) = 0" "thread_ok R wb (live s) (pc t) (held t)"
      using none inv_thread [OF inv] by auto
    then show ?thesis by (cases "pc t") (auto simp: amount_ok_def split: if_splits)
  qed
  then show "outstanding s = 0" "wakers s = 0" by (simp_all add: outstanding_def wakers_def sum_list_eq_0_iff)
qed

end

end
