(* ===== verification/RundownInv.thy ===== *)
theory RundownInv
  imports RundownUsers
begin

text \<open>
  The rundown thread of a single rundown word, interleaved with the protecting threads: its
  steps, the interpretation of the contract of the threads, and what follows.  A completed
  rundown has no protection outstanding, none is granted after it started, no wait block is
  touched after its thread left, the wake-up is never lost, and a blocked rundown can finish.
\<close>

section \<open>The rundown thread\<close>

datatype wpc = WIdle | WLoop ULONG_PTR bool | WWait | WDone | WCompleted

record rdsys = rduser +
  wpc :: wpc

text \<open>
  The rundown thread, with its wait block at \<open>wb\<close>: it waits once per rundown, and waits again
  only after \<open>ExfRundownCompleted\<close> or, for a new life of the object, after
  \<open>ExfReInitializeRundownProtection\<close>.
\<close>

definition after_wait :: "ULONG_PTR \<Rightarrow> wait_turn \<Rightarrow> rdsys \<Rightarrow> rdsys" where
  "after_wait wb a s = (case a of WReturn \<Rightarrow> pop_block wb (s\<lparr>wpc := WDone\<rparr>)
     | WTurn v e \<Rightarrow> s\<lparr>wpc := WLoop v e\<rparr> | WBlock \<Rightarrow> s\<lparr>wpc := WWait\<rparr>)"

inductive wait_step :: "ULONG_PTR \<Rightarrow> ULONG_PTR \<Rightarrow> rdsys \<Rightarrow> rdsys \<Rightarrow> bool" for r wb where
  wait_fast: "wait_step r wb s (if b then s'\<lparr>wpc := WDone\<rparr> else s')"
    if "wpc s \<in> {WIdle, WCompleted}" "ExWaitForRundownProtectionRelease r s = (s', b)"
| wait_call: "wait_step r wb s (after_wait wb a s')"
    if "wpc s \<in> {WIdle, WCompleted}"
      "ExfWaitForRundownProtectionRelease r (push_block wb w s) = (s', a)"
| wait_turn: "wait_step r wb s (after_wait wb a s')"
    if "wpc s = WLoop v e" "ExfWaitForRundownProtectionRelease_turn r wb v e s = (s', a)"
| wait_wake: "wait_step r wb s (pop_block wb (s'\<lparr>wpc := WDone\<rparr>))"
    if "wpc s = WWait" "wait_event wb s = Some s'"
| completed: "wait_step r wb s (ExfRundownCompleted r (s\<lparr>wpc := WCompleted\<rparr>))"
    if "wpc s \<in> {WDone, WCompleted}"
| reinit: "wait_step r wb s (ExfReInitializeRundownProtection r (s\<lparr>wpc := WIdle\<rparr>))"
    if "wpc s \<in> {WDone, WCompleted}"

definition rd_step :: "ULONG_PTR \<Rightarrow> ULONG_PTR \<Rightarrow> rdsys \<Rightarrow> rdsys \<Rightarrow> bool" where
  "rd_step r wb s t \<longleftrightarrow> user_step {r} s t \<or> wait_step r wb s t"

definition rd_start :: "ULONG_PTR \<Rightarrow> ULONG_PTR \<Rightarrow> rdsys \<Rightarrow> bool" where
  "rd_start r wb s \<longleftrightarrow> wb AND EX_RUNDOWN_ACTIVE = 0 \<and> RrCount s r = 0 \<and> wpc s = WIdle \<and> started s = 0 \<and> gone s = 0
     \<and> blocks s wb = None \<and> list_all (\<lambda>t. pc t = Idle \<and> held t = 0) (thr s)"

section \<open>The invariant\<close>

fun phase_ok :: "ULONG_PTR \<Rightarrow> wpc \<Rightarrow> ULONG_PTR \<Rightarrow> EX_RUNDOWN_WAIT_BLOCK option \<Rightarrow> nat \<Rightarrow> nat \<Rightarrow> bool" where
  "phase_ok wb WIdle c B n k = (c = 2 * word_of_nat n)"
| "phase_ok wb (WLoop v e) c B n k = (c = 2 * word_of_nat n
     \<and> (\<exists>w. B = Some w \<and> (e \<longrightarrow> WakeEvent w = Some False)))"
| "phase_ok wb WWait c B n k = (c = wb OR EX_RUNDOWN_ACTIVE \<and> block_ok B n k)"
| "phase_ok wb WDone c B n k = (n = 0 \<and> odd c)"
| "phase_ok wb WCompleted c B n k = (n = 0 \<and> c = EX_RUNDOWN_ACTIVE)"

definition rd_live :: "rdsys \<Rightarrow> bool" where
  "rd_live s \<longleftrightarrow> wpc s = WWait"

definition rd_phase :: "ULONG_PTR \<Rightarrow> ULONG_PTR \<Rightarrow> rdsys \<Rightarrow> nat \<Rightarrow> nat \<Rightarrow> bool" where
  "rd_phase r wb s n k \<longleftrightarrow> even wb \<and> phase_ok wb (wpc s) (RrCount s r) (blocks s wb) n k"

definition rd_inv :: "ULONG_PTR \<Rightarrow> ULONG_PTR \<Rightarrow> rdsys \<Rightarrow> bool" where
  "rd_inv r wb s \<longleftrightarrow> users_inv {r} wb rd_live (rd_phase r wb) s"

lemma phase_even:
  "phase_ok wb p c B n k \<Longrightarrow> even c \<Longrightarrow> c = 2 * word_of_nat n \<and> phase_ok wb p (2 * word_of_nat m) B m j"
  using odd_marked [of wb] by (cases p) (auto simp: EX_RUNDOWN_ACTIVE_def)

interpretation rd: rundown_protocol "{r}" wb rd_live "rd_phase r wb" for r wb
proof (unfold_locales, goal_cases)
  case (8 s n k q a)
  then show ?case
    using phase_even [of wb "wpc s" "RrCount s r" "blocks s wb" n k "n + a" k] by (auto simp: rd_phase_def distrib_left)
next
  case (9 s n k q a)
  then have "2 * word_of_nat n - 2 * word_of_nat a = (2 * word_of_nat (n - a) :: ULONG_PTR)"
    by (simp add: of_nat_diff right_diff_distrib)
  then show ?case
    using 9 phase_even [of wb "wpc s" "RrCount s r" "blocks s wb" n k "n - a" k] by (auto simp: rd_phase_def)
next
  case (10 s n k a)
  then have b: "block_ok (blocks s wb) n k" by (simp add: rd_phase_def rd_live_def)
  then obtain w where "blocks s wb = Some w" using block_ok_Some by blast
  then show ?case
    using 10 b block_ok_down [of w n k a] by (auto simp: rd_phase_def rd_live_def drop_block_def)
next
  case (11 s n k)
  then have b: "block_ok (blocks s wb) n k" by (simp add: rd_phase_def rd_live_def)
  then obtain w where "blocks s wb = Some w" using block_ok_Some by blast
  then show ?case
    using 11 b block_ok_wake [of w n k] by (auto simp: rd_phase_def rd_live_def set_block_event_def)
next
  case (13 s n k q)
  then show ?case by (cases "wpc s") (auto simp: rd_phase_def rd_live_def)
qed (auto simp: rd_live_def rd_phase_def)

lemma rd_unfold:
  "rd_inv r wb s \<longleftrightarrow> even wb \<and> threads_ok {r} wb (wpc s = WWait) s
    \<and> phase_ok wb (wpc s) (RrCount s r) (blocks s wb) (outstanding s) (wakers s)"
  by (auto simp: rd_inv_def users_inv_def rd_phase_def rd_live_def)

lemma rd_move:
  assumes inv: "rd_inv r wb s" and "wpc s \<noteq> WWait"
    and same: "thr s' = thr s" "started s' = started s" "gone s' = gone s"
    and ph: "phase_ok wb (wpc s') (RrCount s' r) (blocks s' wb) (outstanding s) 0"
  shows "rd_inv r wb s'"
proof -
  have ok: "threads_ok {r} wb False s" using inv assms(2) by (simp add: rd_unfold)
  then have "threads_ok {r} wb (wpc s' = WWait) s'" by (rule threads_ok_enter [OF _ same])
  then show ?thesis
    using inv ph no_wakers [OF ok] counts_cong [OF same(1)] by (simp add: rd_unfold)
qed

lemma rd_out_bound: "rd_inv r wb s \<Longrightarrow> outstanding s < 2 ^ 62"
  using outstanding_bound [of "{r}" wb "wpc s = WWait" s] by (simp add: rd_unfold)

lemma wait_call_inv:
  assumes inv: "rd_inv r wb s" and pc: "wpc s \<in> {WIdle, WCompleted}"
    and call: "ExfWaitForRundownProtectionRelease r (push_block wb w s) = (s', a)"
  shows "rd_inv r wb (after_wait wb a s')"
proof -
  have ph: "phase_ok wb (wpc s) (RrCount s r) (blocks s wb) (outstanding s) (wakers s)"
    using inv by (simp add: rd_unfold)
  have s': "thr s' = thr s" "started s' = started s" "gone s' = gone s"
    using call by (auto simp: ExfWaitForRundownProtectionRelease_def InterlockedCompareExchangePointer_def
        push_block_def split: if_splits)
  have "phase_ok wb (wpc (after_wait wb a s')) (RrCount (after_wait wb a s') r) (blocks (after_wait wb a s') wb)
      (outstanding s) 0"
    using pc call ph double_zero [OF rd_out_bound [OF inv]] double_ne_one
    by (auto simp: ExfWaitForRundownProtectionRelease_def InterlockedCompareExchangePointer_def push_block_def
        after_wait_def pop_block_def EX_RUNDOWN_ACTIVE_def split: if_splits)
  then show ?thesis
    using pc s' by (intro rd_move [OF inv]) (auto simp: after_wait_def pop_block_def split: wait_turn.split)
qed

lemma wait_turn_inv:
  assumes inv: "rd_inv r wb s" and pc: "wpc s = WLoop v e"
    and call: "ExfWaitForRundownProtectionRelease_turn r wb v e s = (s', a)"
  shows "rd_inv r wb (after_wait wb a s')"
proof -
  obtain w where c: "RrCount s r = 2 * word_of_nat (outstanding s)" and w: "blocks s wb = Some w"
      "e \<longrightarrow> WakeEvent w = Some False"
    using inv pc by (auto simp: rd_unfold)
  have n: "outstanding s < 2 ^ 62" by (rule rd_out_bound [OF inv])
  have pos: "0 < (word_of_nat (outstanding s) :: ULONG_PTR) \<longleftrightarrow> 0 < outstanding s"
    using word_of_nat_inj [of "outstanding s" 0] n by (simp add: word_gt_0)
  have s': "thr s' = thr s" "started s' = started s" "gone s' = gone s"
    using call by (auto simp: ExfWaitForRundownProtectionRelease_turn_def InterlockedCompareExchangePointer_def
        KeInitializeEvent_block_def Let_def split: if_splits)
  have "phase_ok wb (wpc (after_wait wb a s')) (RrCount (after_wait wb a s') r) (blocks (after_wait wb a s') wb)
      (outstanding s) 0"
    using pc call c w pos double_half [OF n] odd_marked [of wb]
    by (auto simp: ExfWaitForRundownProtectionRelease_turn_def InterlockedCompareExchangePointer_def
        KeInitializeEvent_block_def after_wait_def pop_block_def block_ok_def Let_def split: if_splits)
  then show ?thesis
    using pc s' by (intro rd_move [OF inv]) (auto simp: after_wait_def pop_block_def split: wait_turn.split)
qed

lemma wait_step_inv: "wait_step r wb s s' \<Longrightarrow> rd_inv r wb s \<Longrightarrow> rd_inv r wb s'"
proof (induction rule: wait_step.induct)
  case (wait_fast s s' b)
  then show ?case
    using double_zero [OF rd_out_bound [OF wait_fast.prems]] double_ne_one
    by (intro rd_move [OF wait_fast.prems])
      (auto simp: rd_unfold ExWaitForRundownProtectionRelease_def InterlockedCompareExchangePointer_def
        EX_RUNDOWN_ACTIVE_def split: if_splits)
next
  case (wait_call s w s' a)
  then show ?case by (intro wait_call_inv)
next
  case (wait_turn s v e s' a)
  then show ?case by (intro wait_turn_inv)
next
  case (wait_wake s s')
  then have ok: "threads_ok {r} wb True s" "outstanding s = 0" "wakers s = 0" "even wb"
    "odd (RrCount s r)" "thr s' = thr s" "started s' = started s" "gone s' = gone s" "RrCount s' = RrCount s"
    using odd_marked [of wb]
    by (auto simp: rd_unfold block_ok_def wait_event_def split: option.splits if_splits)
  then have "threads_ok {r} wb False (pop_block wb (s'\<lparr>wpc := WDone\<rparr>))"
    by (intro threads_ok_leave [OF ok(1-3)]) (simp_all add: pop_block_def)
  then show ?case using ok by (simp add: rd_unfold pop_block_def outstanding_def)
next
  case (completed s)
  then show ?case
    by (intro rd_move [OF completed.prems])
      (auto simp: rd_unfold ExfRundownCompleted_def InterlockedExchangePointer_def)
next
  case (reinit s)
  then show ?case
    by (intro rd_move [OF reinit.prems])
      (auto simp: rd_unfold ExfReInitializeRundownProtection_def InterlockedExchangePointer_def)
qed

lemma rd_start_inv: "rd_start r wb s \<Longrightarrow> rd_inv r wb s"
proof -
  assume st: "rd_start r wb s"
  then have all: "pc t = Idle \<and> held t = 0" if "t \<in> set (thr s)" for t
    using that by (simp add: rd_start_def list_all_iff)
  then have "outstanding s = 0" "asked s = 0"
    by (auto simp: outstanding_def asked_def sum_list_eq_0_iff)
  then show ?thesis
    using st all active_odd [of wb] by (auto simp: rd_unfold rd_start_def threads_ok_def)
qed

interpretation rdsys: invariant_system "rd_start r wb" "rd_step r wb" "rd_inv r wb" for r wb
  by unfold_locales
    (auto simp: rd_step_def rd_inv_def [symmetric] intro: rd_start_inv wait_step_inv
      rd.user_step_inv [of r, folded rd_inv_def])

lemma blocked_word:
  assumes "rd_inv r wb s" "wpc s = WWait"
  shows "odd (RrCount s r)" "block_ok (blocks s wb) (outstanding s) (wakers s)"
  using assms odd_marked [of wb] by (simp_all add: rd_unfold)

lemma blocked_ends:
  "rd_inv r wb s \<Longrightarrow> wpc s = WWait \<Longrightarrow> \<exists>t. (rd_step r wb)\<^sup>*\<^sup>* s t \<and> wpc t = WDone"
proof (induction "ranks s" arbitrary: s rule: less_induct)
  case less
  note inv = less.prems(1) [unfolded rd_inv_def] and odd = blocked_word(1) [OF less.prems]
  show ?case
  proof (cases "\<exists>i<length (thr s). 0 < rank (pc (thr s ! i)) (held (thr s ! i))")
    case True
    then obtain i where i: "i < length (thr s)" "0 < rank (pc (thr s ! i)) (held (thr s ! i))" by blast
    have "\<exists>u. user_step {r} s u \<and> ranks u < ranks s \<and> rd_live u \<and> RrCount u = RrCount s"
      using less.prems(2) odd by (intro rd.closer_thread [OF inv _ _ _ i(1) refl i(2)]) (simp_all add: rd_live_def)
    then obtain u where u: "rd_step r wb s u" "ranks u < ranks s" "wpc u = WWait"
      by (auto simp: rd_step_def rd_live_def)
    then obtain t where "(rd_step r wb)\<^sup>*\<^sup>* u t" "wpc t = WDone"
      using less.hyps [OF u(2) rdsys.step_inv [OF less.prems(1) u(1)] u(3)] by blast
    then show ?thesis using u(1) by (meson converse_rtranclp_into_rtranclp)
  next
    case False
    then have "outstanding s = 0" "wakers s = 0" using rd.all_done [OF inv] by auto
    then obtain s' where "wait_event wb s = Some s'"
      using block_ok_signalled [OF blocked_word(2) [OF less.prems]] by auto
    then have "rd_step r wb s (pop_block wb (s'\<lparr>wpc := WDone\<rparr>))"
      using less.prems(2) by (auto simp: rd_step_def intro: wait_step.wait_wake)
    moreover have "wpc (pop_block wb (s'\<lparr>wpc := WDone\<rparr>)) = WDone" by (simp add: pop_block_def)
    ultimately show ?thesis by blast
  qed
qed

section \<open>The properties\<close>

lemma wait_step_thr: "wait_step r wb s s' \<Longrightarrow> thr s' = thr s"
  by (induction rule: wait_step.induct)
    (auto simp: ExWaitForRundownProtectionRelease_def ExfWaitForRundownProtectionRelease_def
      ExfWaitForRundownProtectionRelease_turn_def InterlockedCompareExchangePointer_def KeInitializeEvent_block_def
      InterlockedExchangePointer_def ExfRundownCompleted_def ExfReInitializeRundownProtection_def
      wait_event_def push_block_def pop_block_def after_wait_def Let_def
      split: if_splits option.splits wait_turn.splits)

text \<open>
  A concrete history: one thread takes protection by the fast path, then the rundown thread
  calls the wait, finds a user, and blocks.
\<close>

definition sample_rd0 :: rdsys where
  "sample_rd0 = \<lparr>RrCount = (\<lambda>_. 0), blocks = Map.empty, thr = [\<lparr>pc = Idle, held = 0\<rparr>], started = 0, gone = 0, wpc = WIdle\<rparr>"

definition sample_rd1 :: rdsys where
  "sample_rd1 = set_thr 0 (AcqFast 0x1000 (RrCount sample_rd0 0x1000)) 0 (sample_rd0\<lparr>started := 1\<rparr>)"

definition sample_rd2 :: rdsys where
  "sample_rd2 = set_thr 0 Idle 1 (fst (ExAcquireRundownProtection 0x1000 0 sample_rd1))"

definition sample_block :: EX_RUNDOWN_WAIT_BLOCK where
  "sample_block = \<lparr>WbCount = 77, WakeEvent = None\<rparr>"

definition sample_rd3 :: rdsys where
  "sample_rd3 = after_wait 0x2000 (WTurn 2 False) (push_block 0x2000 sample_block sample_rd2)"

definition sample_rd4 :: rdsys where
  "sample_rd4 = after_wait 0x2000 WBlock (fst (ExfWaitForRundownProtectionRelease_turn 0x1000 0x2000 2 False sample_rd3))"

definition sample_rd5 :: rdsys where
  "sample_rd5 = (fst (ExWaitForRundownProtectionRelease 0x1000 sample_rd0))\<lparr>wpc := WDone\<rparr>"

text \<open>The thread then calls the release and reads the marked word.\<close>

definition sample_rd6 :: rdsys where
  "sample_rd6 = set_thr 0 (RelRead 0x1000 None) 1 sample_rd4"

definition sample_rd7 :: rdsys where
  "sample_rd7 = set_thr 0 (RelTurn 0x1000 None (RrCount sample_rd6 0x1000)) 1 sample_rd6"

lemmas sample_rd_defs = sample_rd0_def sample_rd1_def sample_rd2_def sample_rd3_def sample_rd4_def
  sample_rd5_def sample_block_def set_thr_def after_wait_def push_block_def acquire_fast_eq
  EX_RUNDOWN_ACTIVE_def EX_RUNDOWN_COUNT_SHIFT_def

lemma sample_start: "rd_start 0x1000 0x2000 sample_rd0"
  by (simp add: rd_start_def sample_rd_defs)

lemma sample_steps:
  shows "rd_step 0x1000 0x2000 sample_rd0 sample_rd1" "rd_step 0x1000 0x2000 sample_rd1 sample_rd2"
    and "rd_step 0x1000 0x2000 sample_rd2 sample_rd3" "rd_step 0x1000 0x2000 sample_rd3 sample_rd4"
    and "rd_step 0x1000 0x2000 sample_rd0 sample_rd5"
proof -
  show "rd_step 0x1000 0x2000 sample_rd0 sample_rd1"
    unfolding rd_step_def sample_rd1_def
    using user_step.acq_fast_call [of 0 sample_rd0 "\<lparr>pc = Idle, held = 0\<rparr>" "0x1000" "{0x1000}"]
    by (simp add: sample_rd0_def)
  show "rd_step 0x1000 0x2000 sample_rd1 sample_rd2"
    unfolding rd_step_def
    using user_step.acq_fast [of 0 sample_rd1 "\<lparr>pc = AcqFast 0x1000 0, held = 0\<rparr>" "0x1000" 0
        "fst (ExAcquireRundownProtection 0x1000 0 sample_rd1)" True "{0x1000}"]
    by (simp add: sample_rd_defs)
  show "rd_step 0x1000 0x2000 sample_rd2 sample_rd3"
    unfolding rd_step_def sample_rd3_def
    using wait_step.wait_call [of sample_rd2 "0x1000" "0x2000" sample_block
        "push_block 0x2000 sample_block sample_rd2" "WTurn 2 False"]
    by (simp add: ExfWaitForRundownProtectionRelease_def InterlockedCompareExchangePointer_def sample_rd_defs)
  show "rd_step 0x1000 0x2000 sample_rd3 sample_rd4"
    unfolding rd_step_def sample_rd4_def
    using wait_step.wait_turn [of sample_rd3 2 False "0x1000" "0x2000"
        "fst (ExfWaitForRundownProtectionRelease_turn 0x1000 0x2000 2 False sample_rd3)" WBlock]
    by (simp add: ExfWaitForRundownProtectionRelease_turn_def InterlockedCompareExchangePointer_def
        KeInitializeEvent_block_def sample_rd_defs)
  show "rd_step 0x1000 0x2000 sample_rd0 sample_rd5"
    unfolding rd_step_def sample_rd5_def
    using wait_step.wait_fast [of sample_rd0 "0x1000" "fst (ExWaitForRundownProtectionRelease 0x1000 sample_rd0)" True "0x2000"]
    by (simp add: ExWaitForRundownProtectionRelease_def InterlockedCompareExchangePointer_def sample_rd_defs)
qed

lemma sample_release_steps:
  shows "rd_step 0x1000 0x2000 sample_rd4 sample_rd6" "rd_step 0x1000 0x2000 sample_rd6 sample_rd7"
    and "thr sample_rd7 = [\<lparr>pc = RelTurn 0x1000 None 0x2001, held = 1\<rparr>]"
proof -
  have s4: "thr sample_rd4 = [\<lparr>pc = Idle, held = 1\<rparr>]" "RrCount sample_rd4 0x1000 = 0x2001"
    by (simp_all add: sample_rd_defs ExfWaitForRundownProtectionRelease_turn_def
        InterlockedCompareExchangePointer_def KeInitializeEvent_block_def)
  show "rd_step 0x1000 0x2000 sample_rd4 sample_rd6"
    unfolding rd_step_def sample_rd6_def
    using user_step.rel_call [of 0 sample_rd4 "\<lparr>pc = Idle, held = 1\<rparr>" "0x1000" "{0x1000}" None] s4
    by (simp add: amount_def)
  show "rd_step 0x1000 0x2000 sample_rd6 sample_rd7"
    unfolding rd_step_def sample_rd7_def
    using user_step.rel_read [of 0 sample_rd6 "\<lparr>pc = RelRead 0x1000 None, held = 1\<rparr>" "0x1000" None "{0x1000}"] s4
    by (simp add: sample_rd6_def set_thr_def)
  show "thr sample_rd7 = [\<lparr>pc = RelTurn 0x1000 None 0x2001, held = 1\<rparr>]"
    using s4 by (simp add: sample_rd7_def sample_rd6_def set_thr_def)
qed

lemma sample_reach:
  shows "(rd_step 0x1000 0x2000)\<^sup>*\<^sup>* sample_rd0 sample_rd4" "(rd_step 0x1000 0x2000)\<^sup>*\<^sup>* sample_rd0 sample_rd5"
    and "(rd_step 0x1000 0x2000)\<^sup>*\<^sup>* sample_rd0 sample_rd7"
  using sample_steps sample_release_steps(1,2) by (meson converse_rtranclp_into_rtranclp rtranclp.rtrancl_refl)+

lemma sample_rd_values:
  shows "wpc sample_rd4 = WWait" "outstanding sample_rd4 = 1" "wpc sample_rd5 = WDone" "RrCount sample_rd5 0x1000 = 1"
  by (simp_all add: sample_rd_defs outstanding_def ExWaitForRundownProtectionRelease_def
      ExfWaitForRundownProtectionRelease_turn_def InterlockedCompareExchangePointer_def KeInitializeEvent_block_def)

text \<open>
  C13: when \<open>ExWaitForRundownProtectionRelease\<close> has returned, no thread owns protection, none is
  inside a release and no wake-up is owed; this stays so until the object is reinitialized.
\<close>

theorem rundown_complete:
  assumes "rd_start r wb s" "(rd_step r wb)\<^sup>*\<^sup>* s t" "wpc t = WDone \<or> wpc t = WCompleted" "u \<in> set (thr t)"
  shows "held u = 0 \<and> (pc u = Idle \<or> 0 < pend (pc u))"
proof -
  have inv: "rd_inv r wb t" by (rule rdsys.reachable_inv [OF assms(1,2)])
  then have "thread_ok {r} wb False (pc u) (held u)" "outstanding t = 0"
    using assms(3,4) by (auto simp: rd_unfold threads_ok_def)
  then show ?thesis
    using assms(4) by (cases "pc u") (auto simp: outstanding_def amount_ok_def)
qed

theorem rundown_complete_witness:
  "wpc sample_rd5 = WDone \<and> held (thr sample_rd5 ! 0) = 0"
  using rundown_complete [OF sample_start sample_reach(2), of "\<lparr>pc = Idle, held = 0\<rparr>"] sample_rd_values(3)
  by (simp add: sample_rd5_def sample_rd0_def ExWaitForRundownProtectionRelease_def InterlockedCompareExchangePointer_def)

text \<open>
  C14: once the word is marked, no step of any thread grants protection: the number of
  protections outstanding never grows.
\<close>

theorem rundown_no_new_protection:
  assumes "rd_start r wb s" "(rd_step r wb)\<^sup>*\<^sup>* s t" "odd (RrCount t r)" "rd_step r wb t u"
  shows "outstanding u \<le> outstanding t"
  using assms(3,4) rd.no_grant [OF _ rdsys.reachable_inv [OF assms(1,2), unfolded rd_inv_def]]
    wait_step_thr [of r wb t u]
  by (auto simp: rd_step_def outstanding_def)

theorem rundown_no_new_protection_witness:
  "odd (RrCount sample_rd5 0x1000) \<and> (\<exists>u. rd_step 0x1000 0x2000 sample_rd5 u \<and> outstanding u \<le> outstanding sample_rd5)"
proof -
  have "rd_step 0x1000 0x2000 sample_rd5 (ExfRundownCompleted 0x1000 (sample_rd5\<lparr>wpc := WCompleted\<rparr>))"
    using wait_step.completed [of sample_rd5] sample_rd_values(3) by (simp add: rd_step_def)
  then show ?thesis
    using rundown_no_new_protection [OF sample_start sample_reach(2)] sample_rd_values(4) by auto
qed

text \<open>
  C15: a releasing thread never touches a wait block whose owner has left, nor an event that is
  not initialized: in every reachable state each turn of a release and each wake-up finds its
  block.
\<close>

theorem rundown_no_dangling_block:
  assumes "rd_start r wb s" "(rd_step r wb)\<^sup>*\<^sup>* s t" "u \<in> set (thr t)"
  shows "(\<forall>q k v. pc u = RelTurn q k v \<longrightarrow> release_turn k q v t \<noteq> None)
    \<and> (\<forall>b. pc u = Waking b \<longrightarrow> KeSetEvent_block b t \<noteq> None)"
  using rd.blocks_found [OF rdsys.reachable_inv [OF assms(1,2), unfolded rd_inv_def] assms(3)] by blast

theorem rundown_no_dangling_block_witness:
  "pc (thr sample_rd7 ! 0) = RelTurn 0x1000 None 0x2001 \<and> release_turn None 0x1000 0x2001 sample_rd7 \<noteq> None"
  using rundown_no_dangling_block [OF sample_start sample_reach(3), of "thr sample_rd7 ! 0"]
  by (simp add: sample_release_steps(3))

text \<open>
  C16: the wake-up is neither lost nor early: a blocked rundown thread finds its event signalled
  exactly when no protection is outstanding and no thread still owes the signal.
\<close>

theorem rundown_wakeup:
  assumes "rd_start r wb s" "(rd_step r wb)\<^sup>*\<^sup>* s t" "wpc t = WWait"
  shows "wait_event wb t \<noteq> None \<longleftrightarrow> outstanding t = 0 \<and> wakers t = 0"
  by (rule block_ok_signalled [OF blocked_word(2) [OF rdsys.reachable_inv [OF assms(1,2)] assms(3)]])

theorem rundown_wakeup_witness:
  "wpc sample_rd4 = WWait \<and> outstanding sample_rd4 = 1 \<and> wait_event 0x2000 sample_rd4 = None"
  using rundown_wakeup [OF sample_start sample_reach(1)] sample_rd_values(1,2) by simp

text \<open>
  C17: a blocked rundown thread can always finish: from every reachable state in which it waits
  there is an execution, of the releases of the remaining holders, that ends its wait.
\<close>

theorem rundown_terminates:
  assumes "rd_start r wb s" "(rd_step r wb)\<^sup>*\<^sup>* s t" "wpc t = WWait"
  shows "\<exists>u. (rd_step r wb)\<^sup>*\<^sup>* t u \<and> wpc u = WDone"
  by (rule blocked_ends [OF rdsys.reachable_inv [OF assms(1,2)] assms(3)])

theorem rundown_terminates_witness:
  "outstanding sample_rd4 = 1 \<and> (\<exists>u. (rd_step 0x1000 0x2000)\<^sup>*\<^sup>* sample_rd4 u \<and> wpc u = WDone)"
  using rundown_terminates [OF sample_start sample_reach(1) sample_rd_values(1)] sample_rd_values(2) by simp

text \<open>
  C18: the count of \<open>ExAcquireRundownProtectionEx\<close> is doubled in 32 bits: with the count
  \<open>0x80000000\<close> the call reports success and leaves the word as it was, so that a rundown does
  not wait for these protections.
\<close>

theorem ExAcquireRundownProtectionEx_wraps:
  assumes "even (RrCount s r)"
  shows "ExAcquireRundownProtectionEx 0x80000000 r (RrCount s r) s = (s, AReturn True)"
  using assms active_odd [of "RrCount s r"]
  by (simp add: ExAcquireRundownProtectionEx_def InterlockedCompareExchangePointer_def
      EX_RUNDOWN_COUNT_INC_def EX_RUNDOWN_COUNT_SHIFT_def)

theorem ExAcquireRundownProtectionEx_wraps_witness:
  "ExAcquireRundownProtectionEx 0x80000000 0x1000 0 sample_rd0 = (sample_rd0, AReturn True)"
  using ExAcquireRundownProtectionEx_wraps [of sample_rd0 "0x1000"] by (simp add: sample_rd0_def)

end
