(* ===== verification/RundownCache.thy ===== *)
theory RundownCache
  imports RundownUsers
begin

text \<open>
  The cache-aware rundown protection of \<open>src/ntoskrnl/ex/rundown.c\<close>: one rundown word per
  processor, at a stride of a cache line; a thread uses the word of the processor it runs on, so
  that a release may meet another word than its acquire.  The rundown thread marks the words one
  by one and adds their counts to the count of its wait block.  The lemmas show that the words
  lie inside their allocation, that the contract of the protecting threads holds, and what
  follows for the rundown.
\<close>

section \<open>The layout\<close>

record EX_RUNDOWN_REF_CACHE_AWARE =
  RunRefs :: ULONG_PTR
  PoolToFree :: ULONG_PTR
  RunRefSize :: ULONG
  Number :: ULONG

text \<open>The sizes of \<open>EX_RUNDOWN_REF\<close> and \<open>EX_RUNDOWN_REF_CACHE_AWARE\<close> on AMD64.\<close>

definition sizeof_EX_RUNDOWN_REF :: ULONG where "sizeof_EX_RUNDOWN_REF = 8"
definition sizeof_EX_RUNDOWN_REF_CACHE_AWARE :: ULONG_PTR where "sizeof_EX_RUNDOWN_REF_CACHE_AWARE = 24"

definition EXP_ALIGN_UP_PTR_ON_BOUNDARY :: "ULONG_PTR \<Rightarrow> ULONG \<Rightarrow> ULONG_PTR" where
  "EXP_ALIGN_UP_PTR_ON_BOUNDARY p a = (p + ucast (a - 1)) AND NOT (ucast (a - 1))"

definition EXP_IS_ALIGNED_ON_BOUNDARY :: "ULONG_PTR \<Rightarrow> ULONG \<Rightarrow> bool" where
  "EXP_IS_ALIGNED_ON_BOUNDARY p a \<longleftrightarrow> p AND ucast (a - 1) = 0"

text \<open>The word of a processor; the product is a 32-bit one.\<close>

definition EXP_GET_PROCESSOR_RUNDOWN_REF :: "EX_RUNDOWN_REF_CACHE_AWARE \<Rightarrow> ULONG \<Rightarrow> ULONG_PTR" where
  "EXP_GET_PROCESSOR_RUNDOWN_REF ca Index = RunRefs ca + ucast ((Index mod Number ca) * RunRefSize ca)"

definition EXP_GET_CURRENT_RUNDOWN_REF :: "EX_RUNDOWN_REF_CACHE_AWARE \<Rightarrow> ULONG \<Rightarrow> ULONG_PTR" where
  "EXP_GET_CURRENT_RUNDOWN_REF ca cpu = RunRefs ca + ucast ((cpu mod Number ca) * RunRefSize ca)"

text \<open>The loop of the initializing routines, over all the words.\<close>

definition each_ref :: "(ULONG_PTR \<Rightarrow> 'x rdmem_scheme \<Rightarrow> 'x rdmem_scheme) \<Rightarrow> EX_RUNDOWN_REF_CACHE_AWARE
    \<Rightarrow> 'x rdmem_scheme \<Rightarrow> 'x rdmem_scheme" where
  "each_ref f ca s = fold (\<lambda>i. f (EXP_GET_PROCESSOR_RUNDOWN_REF ca (word_of_nat i))) [0..<unat (Number ca)] s"

text \<open>
  \<open>ExAllocateCacheAwareRundownProtection\<close> over an allocator with state \<open>'p\<close>: \<open>alloc n p\<close> gives
  an address or 0, \<open>free\<close> takes one back.  \<open>Processors\<close> is \<open>KeNumberProcessors\<close> and \<open>Line\<close> the
  result of \<open>KeGetRecommendedSharedDataAlignment\<close>.  The result is \<open>None\<close> without memory, else the
  address and the contents of the new header.
\<close>

definition ExAllocateCacheAwareRundownProtection ::
  "(ULONG_PTR \<Rightarrow> 'p \<Rightarrow> ULONG_PTR \<times> 'p) \<Rightarrow> (ULONG_PTR \<Rightarrow> 'p \<Rightarrow> 'p) \<Rightarrow> ULONG \<Rightarrow> ULONG \<Rightarrow> 'p \<Rightarrow> 'x rdmem_scheme
    \<Rightarrow> (ULONG_PTR \<times> EX_RUNDOWN_REF_CACHE_AWARE) option \<times> 'p \<times> 'x rdmem_scheme" where
  "ExAllocateCacheAwareRundownProtection alloc free Processors Line p s =
     (let (Header, p1) = alloc sizeof_EX_RUNDOWN_REF_CACHE_AWARE p
      in if Header = 0 then (None, p1, s)
         else (let PaddedSize = (if Processors > 1 then Line else sizeof_EX_RUNDOWN_REF);
                   (RunRefPool, p2) = alloc (ucast (PaddedSize * Processors)) p1
               in if RunRefPool = 0 then (None, free Header p2, s)
                  else if Processors > 1 \<and> \<not> EXP_IS_ALIGNED_ON_BOUNDARY RunRefPool PaddedSize
                  then (let p3 = free RunRefPool p2;
                            (RunRefPool2, p4) = alloc (ucast (PaddedSize * Processors + PaddedSize)) p3
                        in if RunRefPool2 = 0 then (None, free Header p4, s)
                           else (let ca = \<lparr>RunRefs = EXP_ALIGN_UP_PTR_ON_BOUNDARY RunRefPool2 PaddedSize,
                                           PoolToFree = RunRefPool2, RunRefSize = PaddedSize, Number = Processors\<rparr>
                                 in (Some (Header, ca), p4, each_ref ExfInitializeRundownProtection ca s)))
                  else (let ca = \<lparr>RunRefs = RunRefPool, PoolToFree = RunRefPool,
                                  RunRefSize = PaddedSize, Number = Processors\<rparr>
                        in (Some (Header, ca), p2, each_ref ExfInitializeRundownProtection ca s))))"

definition ExSizeOfRundownProtectionCacheAware :: "ULONG \<Rightarrow> ULONG \<Rightarrow> ULONG_PTR" where
  "ExSizeOfRundownProtectionCacheAware Processors Line =
     (let PaddedSize = (if Processors > 1 then Line * (Processors + 1) else sizeof_EX_RUNDOWN_REF)
      in sizeof_EX_RUNDOWN_REF_CACHE_AWARE + ucast PaddedSize)"

definition ExInitializeRundownProtectionCacheAware ::
  "ULONG_PTR \<Rightarrow> ULONG_PTR \<Rightarrow> ULONG \<Rightarrow> 'x rdmem_scheme \<Rightarrow> EX_RUNDOWN_REF_CACHE_AWARE \<times> 'x rdmem_scheme" where
  "ExInitializeRundownProtectionCacheAware RunRefCacheAware Size Line s =
     (let CurrentRunRef = RunRefCacheAware + sizeof_EX_RUNDOWN_REF_CACHE_AWARE;
          ArraySize = (ucast (Size - sizeof_EX_RUNDOWN_REF_CACHE_AWARE) :: ULONG);
          ca = (if ArraySize = sizeof_EX_RUNDOWN_REF
                then \<lparr>RunRefs = CurrentRunRef, PoolToFree = 0x0BADCA11, RunRefSize = ArraySize, Number = 1\<rparr>
                else \<lparr>RunRefs = EXP_ALIGN_UP_PTR_ON_BOUNDARY CurrentRunRef Line, PoolToFree = 0x0BADCA11,
                      RunRefSize = Line, Number = ArraySize div Line - 1\<rparr>)
      in (ca, each_ref ExfInitializeRundownProtection ca s))"

definition ExFreeCacheAwareRundownProtection ::
  "(ULONG_PTR \<Rightarrow> 'p \<Rightarrow> 'p) \<Rightarrow> ULONG_PTR \<Rightarrow> EX_RUNDOWN_REF_CACHE_AWARE \<Rightarrow> 'p \<Rightarrow> 'p" where
  "ExFreeCacheAwareRundownProtection free Header ca p = free Header (free (PoolToFree ca) p)"

section \<open>Acquire and release\<close>

definition ExAcquireRundownProtectionCacheAware ::
  "EX_RUNDOWN_REF_CACHE_AWARE \<Rightarrow> ULONG \<Rightarrow> ULONG_PTR \<Rightarrow> 'x rdmem_scheme \<Rightarrow> 'x rdmem_scheme \<times> bool" where
  "ExAcquireRundownProtectionCacheAware ca cpu = ExAcquireRundownProtection (EXP_GET_CURRENT_RUNDOWN_REF ca cpu)"

definition ExReleaseRundownProtectionCacheAware ::
  "EX_RUNDOWN_REF_CACHE_AWARE \<Rightarrow> ULONG \<Rightarrow> ULONG_PTR \<Rightarrow> 'x rdmem_scheme \<Rightarrow> 'x rdmem_scheme \<times> bool" where
  "ExReleaseRundownProtectionCacheAware ca cpu = ExReleaseRundownProtection (EXP_GET_CURRENT_RUNDOWN_REF ca cpu)"

definition ExAcquireRundownProtectionCacheAwareEx ::
  "EX_RUNDOWN_REF_CACHE_AWARE \<Rightarrow> ULONG \<Rightarrow> ULONG \<Rightarrow> ULONG_PTR \<Rightarrow> 'x rdmem_scheme \<Rightarrow> 'x rdmem_scheme \<times> acq_turn" where
  "ExAcquireRundownProtectionCacheAwareEx ca cpu Cnt =
     ExAcquireRundownProtectionEx Cnt (EXP_GET_CURRENT_RUNDOWN_REF ca cpu)"

definition ExReleaseRundownProtectionCacheAwareEx ::
  "EX_RUNDOWN_REF_CACHE_AWARE \<Rightarrow> ULONG \<Rightarrow> ULONG \<Rightarrow> ULONG_PTR \<Rightarrow> 'x rdmem_scheme
    \<Rightarrow> ('x rdmem_scheme \<times> rel_turn) option" where
  "ExReleaseRundownProtectionCacheAwareEx ca cpu Cnt =
     ExReleaseRundownProtectionEx Cnt (EXP_GET_CURRENT_RUNDOWN_REF ca cpu)"

section \<open>The wait\<close>

text \<open>
  The places of the rundown thread: at the test of the marking loop, at an exchange with the
  value last seen, at the interlocked addition, blocked, and outside; then inside the loops of
  \<open>ExRundownCompletedCacheAware\<close> and \<open>ExReInitializeRundownProtectionCacheAware\<close>.
\<close>

datatype cwpc =
    CIdle
  | CLoop ULONG ULONG_PTR
  | CTurn ULONG ULONG_PTR ULONG_PTR
  | CAdd ULONG_PTR
  | CWait
  | CDone
  | CCompleting ULONG
  | CCompleted
  | CReinit ULONG

definition ExWaitForRundownProtectionReleaseCacheAware_loop ::
  "EX_RUNDOWN_REF_CACHE_AWARE \<Rightarrow> ULONG_PTR \<Rightarrow> ULONG \<Rightarrow> ULONG_PTR \<Rightarrow> 'x rdmem_scheme \<Rightarrow> 'x rdmem_scheme \<times> cwpc" where
  "ExWaitForRundownProtectionReleaseCacheAware_loop ca WaitBlock Index TotalCount s =
     (if Index < Number ca
      then (s, CTurn Index (RrCount s (EXP_GET_PROCESSOR_RUNDOWN_REF ca Index)) TotalCount)
      else if TotalCount \<noteq> 0
      then (KeInitializeEvent_block WaitBlock s, CAdd (drop_bit EX_RUNDOWN_COUNT_SHIFT TotalCount))
      else (s, CDone))"

definition ExWaitForRundownProtectionReleaseCacheAware_turn ::
  "EX_RUNDOWN_REF_CACHE_AWARE \<Rightarrow> ULONG_PTR \<Rightarrow> ULONG \<Rightarrow> ULONG_PTR \<Rightarrow> ULONG_PTR \<Rightarrow> 'x rdmem_scheme
    \<Rightarrow> 'x rdmem_scheme \<times> cwpc" where
  "ExWaitForRundownProtectionReleaseCacheAware_turn ca WaitBlock Index Value TotalCount s =
     (let NewValue = WaitBlock OR EX_RUNDOWN_ACTIVE;
          (s', Found) = InterlockedCompareExchangePointer (EXP_GET_PROCESSOR_RUNDOWN_REF ca Index) NewValue Value s
      in (s', if Found = Value then CLoop (Index + 1) (TotalCount + Value) else CTurn Index Found TotalCount))"

definition ExWaitForRundownProtectionReleaseCacheAware_add ::
  "ULONG_PTR \<Rightarrow> ULONG_PTR \<Rightarrow> 'x rdmem_scheme \<Rightarrow> ('x rdmem_scheme \<times> cwpc) option" where
  "ExWaitForRundownProtectionReleaseCacheAware_add WaitBlock TotalCount s =
     (case InterlockedExchangeAdd64 WaitBlock TotalCount s of None \<Rightarrow> None
      | Some (s', Old) \<Rightarrow> Some (s', if Old \<noteq> - TotalCount then CWait else CDone))"

definition ExReInitializeRundownProtectionCacheAware ::
  "EX_RUNDOWN_REF_CACHE_AWARE \<Rightarrow> ULONG \<Rightarrow> 'x rdmem_scheme \<Rightarrow> 'x rdmem_scheme \<times> cwpc" where
  "ExReInitializeRundownProtectionCacheAware ca Index s =
     (if Index < Number ca
      then (InterlockedExchangePointer (EXP_GET_PROCESSOR_RUNDOWN_REF ca Index) 0 s, CReinit (Index + 1))
      else (s, CIdle))"

definition ExRundownCompletedCacheAware ::
  "EX_RUNDOWN_REF_CACHE_AWARE \<Rightarrow> ULONG \<Rightarrow> 'x rdmem_scheme \<Rightarrow> 'x rdmem_scheme \<times> cwpc" where
  "ExRundownCompletedCacheAware ca Index s =
     (if Index < Number ca
      then (InterlockedExchangePointer (EXP_GET_PROCESSOR_RUNDOWN_REF ca Index) EX_RUNDOWN_ACTIVE s,
            CCompleting (Index + 1))
      else (s, CCompleted))"

record casys = rduser +
  cwpc :: cwpc

text \<open>The thread goes on at a place; leaving the wait takes its wait block away.\<close>

definition goto :: "ULONG_PTR \<Rightarrow> cwpc \<Rightarrow> casys \<Rightarrow> casys" where
  "goto wb p s = (if p = CDone then pop_block wb (s\<lparr>cwpc := p\<rparr>) else s\<lparr>cwpc := p\<rparr>)"

definition enter_wait :: "ULONG_PTR \<Rightarrow> EX_RUNDOWN_WAIT_BLOCK \<Rightarrow> casys \<Rightarrow> casys" where
  "enter_wait wb w s = goto wb (CLoop 0 0) (push_block wb (w\<lparr>WbCount := 0\<rparr>) s)"

text \<open>
  The calls of the rundown thread.  The wait is called on an object in use or, as the description
  of \<open>ExRundownCompletedCacheAware\<close> allows, after that routine; completion and reinitialization
  are called on an object that has been run down, as their assertions demand.
\<close>

inductive cwait_step :: "EX_RUNDOWN_REF_CACHE_AWARE \<Rightarrow> ULONG_PTR \<Rightarrow> casys \<Rightarrow> casys \<Rightarrow> bool" for ca wb where
  cwait_call: "cwait_step ca wb s (enter_wait wb w s)"
    if "cwpc s \<in> {CIdle, CCompleted}"
| cwait_loop: "cwait_step ca wb s (goto wb p s')"
    if "cwpc s = CLoop i T" "ExWaitForRundownProtectionReleaseCacheAware_loop ca wb i T s = (s', p)"
| cwait_turn: "cwait_step ca wb s (goto wb p s')"
    if "cwpc s = CTurn i v T" "ExWaitForRundownProtectionReleaseCacheAware_turn ca wb i v T s = (s', p)"
| cwait_add: "cwait_step ca wb s (goto wb p s')"
    if "cwpc s = CAdd T" "ExWaitForRundownProtectionReleaseCacheAware_add wb T s = Some (s', p)"
| cwait_wake: "cwait_step ca wb s (goto wb CDone s')"
    if "cwpc s = CWait" "wait_event wb s = Some s'"
| ccompleted_call: "cwait_step ca wb s (goto wb (CCompleting 0) s)"
    if "cwpc s \<in> {CDone, CCompleted}"
| ccompleted: "cwait_step ca wb s (goto wb p s')"
    if "cwpc s = CCompleting i" "ExRundownCompletedCacheAware ca i s = (s', p)"
| creinit_call: "cwait_step ca wb s (goto wb (CReinit 0) s)"
    if "cwpc s \<in> {CDone, CCompleted}"
| creinit: "cwait_step ca wb s (goto wb p s')"
    if "cwpc s = CReinit i" "ExReInitializeRundownProtectionCacheAware ca i s = (s', p)"

text \<open>The words of all processors, whichever processor a thread runs on.\<close>

definition ca_refs :: "EX_RUNDOWN_REF_CACHE_AWARE \<Rightarrow> ULONG_PTR set" where
  "ca_refs ca = EXP_GET_CURRENT_RUNDOWN_REF ca ` UNIV"

text \<open>The clients and the rundown thread interleave freely, the reinitialization included.\<close>

inductive ca_step :: "EX_RUNDOWN_REF_CACHE_AWARE \<Rightarrow> ULONG_PTR \<Rightarrow> casys \<Rightarrow> casys \<Rightarrow> bool" for ca wb where
  ca_user: "ca_step ca wb s t" if "user_step (ca_refs ca) s t"
| ca_wait: "ca_step ca wb s t" if "cwait_step ca wb s t"

text \<open>
  Two disciplines the code does not enforce. Quiet clients stay away while the object is being
  reinitialized. A rundown that is waited for once, with quiet clients, is one in which the wait
  is not called again between \<open>ExRundownCompletedCacheAware\<close> and the next reinitialization.
  What happens outside of them is shown at the end of the theory of the properties.
\<close>

definition ca_quiet :: "EX_RUNDOWN_REF_CACHE_AWARE \<Rightarrow> ULONG_PTR \<Rightarrow> casys \<Rightarrow> casys \<Rightarrow> bool" where
  "ca_quiet ca wb s t \<longleftrightarrow> ca_step ca wb s t \<and> (cwpc s \<in> range CReinit \<longrightarrow> cwait_step ca wb s t)"

definition ca_once :: "EX_RUNDOWN_REF_CACHE_AWARE \<Rightarrow> ULONG_PTR \<Rightarrow> casys \<Rightarrow> casys \<Rightarrow> bool" where
  "ca_once ca wb s t \<longleftrightarrow> ca_quiet ca wb s t \<and> \<not> (cwpc s = CCompleted \<and> cwpc t = CLoop 0 0)"

section \<open>The words as cells\<close>

definition refno :: "EX_RUNDOWN_REF_CACHE_AWARE \<Rightarrow> nat \<Rightarrow> ULONG_PTR" where
  "refno ca i = EXP_GET_PROCESSOR_RUNDOWN_REF ca (word_of_nat i)"

definition cells :: "EX_RUNDOWN_REF_CACHE_AWARE \<Rightarrow> nat" where
  "cells ca = unat (Number ca)"

definition ca_distinct :: "EX_RUNDOWN_REF_CACHE_AWARE \<Rightarrow> bool" where
  "ca_distinct ca \<longleftrightarrow> 0 < cells ca \<and> distinct (map (refno ca) [0..<cells ca])"

definition cell :: "EX_RUNDOWN_REF_CACHE_AWARE \<Rightarrow> 'x rdmem_scheme \<Rightarrow> nat \<Rightarrow> ULONG_PTR" where
  "cell ca s i = RrCount s (refno ca i)"

definition ca_start :: "EX_RUNDOWN_REF_CACHE_AWARE \<Rightarrow> ULONG_PTR \<Rightarrow> casys \<Rightarrow> bool" where
  "ca_start ca wb s \<longleftrightarrow> wb AND EX_RUNDOWN_ACTIVE = 0 \<and> ca_distinct ca \<and> (\<forall>i<cells ca. cell ca s i = 0)
     \<and> cwpc s = CIdle \<and> started s = 0 \<and> gone s = 0 \<and> blocks s wb = None
     \<and> list_all (\<lambda>t. pc t = Idle \<and> held t = 0) (thr s)"

lemma ref_refno: "0 < cells ca \<Longrightarrow> EXP_GET_PROCESSOR_RUNDOWN_REF ca x = refno ca (unat x mod cells ca)"
proof -
  assume "0 < cells ca"
  have "word_of_nat (unat x mod cells ca) = x mod Number ca"
    by (simp add: cells_def flip: unat_mod_word)
  moreover have "x mod Number ca mod Number ca = x mod Number ca"
    by (rule word_eqI_unat) (simp add: unat_mod_word)
  ultimately show ?thesis by (simp add: refno_def EXP_GET_PROCESSOR_RUNDOWN_REF_def)
qed

lemma ref_below: "x < Number ca \<Longrightarrow> EXP_GET_PROCESSOR_RUNDOWN_REF ca x = refno ca (unat x) \<and> unat x < cells ca"
  by (simp add: refno_def cells_def word_less_nat_alt)

lemma ca_refs_eq: "0 < cells ca \<Longrightarrow> ca_refs ca = refno ca ` {..<cells ca}"
proof (intro set_eqI iffI)
  fix r
  assume n: "0 < cells ca"
  have cur: "EXP_GET_CURRENT_RUNDOWN_REF ca = EXP_GET_PROCESSOR_RUNDOWN_REF ca"
    by (rule ext) (simp add: EXP_GET_CURRENT_RUNDOWN_REF_def EXP_GET_PROCESSOR_RUNDOWN_REF_def)
  show "r \<in> refno ca ` {..<cells ca}" if "r \<in> ca_refs ca"
    using that n ref_refno [OF n] mod_less_divisor [OF n] by (auto simp: ca_refs_def cur)
  show "r \<in> ca_refs ca" if "r \<in> refno ca ` {..<cells ca}"
    using that by (auto simp: ca_refs_def cur refno_def)
qed

lemma refno_inj: "ca_distinct ca \<Longrightarrow> i < cells ca \<Longrightarrow> j < cells ca \<Longrightarrow> refno ca i = refno ca j \<longleftrightarrow> i = j"
  by (auto simp: ca_distinct_def distinct_map inj_on_def)

lemma cell_upd:
  "ca_distinct ca \<Longrightarrow> i < cells ca \<Longrightarrow> j < cells ca \<Longrightarrow>
    cell ca (s\<lparr>RrCount := (RrCount s)(refno ca j := v)\<rparr>) i = (if i = j then v else cell ca s i)"
  by (simp add: cell_def refno_inj)

section \<open>The invariant\<close>

text \<open>The sum of the words from \<open>m\<close> on.\<close>

definition left :: "EX_RUNDOWN_REF_CACHE_AWARE \<Rightarrow> 'x rdmem_scheme \<Rightarrow> nat \<Rightarrow> ULONG_PTR" where
  "left ca s m = (\<Sum>i\<in>{m..<cells ca}. cell ca s i)"

definition even_from :: "EX_RUNDOWN_REF_CACHE_AWARE \<Rightarrow> 'x rdmem_scheme \<Rightarrow> nat \<Rightarrow> bool" where
  "even_from ca s m \<longleftrightarrow> (\<forall>i\<in>{m..<cells ca}. even (cell ca s i))"

definition marked_below :: "EX_RUNDOWN_REF_CACHE_AWARE \<Rightarrow> ULONG_PTR \<Rightarrow> 'x rdmem_scheme \<Rightarrow> nat \<Rightarrow> bool" where
  "marked_below ca wb s m \<longleftrightarrow> (\<forall>i<m. cell ca s i = wb OR EX_RUNDOWN_ACTIVE)"

text \<open>
  While the words below \<open>m\<close> are marked and the total of their counts, \<open>T\<close>, is not yet added to
  the block, the block holds minus the number \<open>g\<close> of releases that met a marked word.
\<close>

definition marking :: "EX_RUNDOWN_REF_CACHE_AWARE \<Rightarrow> ULONG_PTR \<Rightarrow> casys \<Rightarrow> nat \<Rightarrow> ULONG_PTR \<Rightarrow> nat \<Rightarrow> nat \<Rightarrow> bool" where
  "marking ca wb s m T n k \<longleftrightarrow> m \<le> cells ca \<and> k = 0 \<and> marked_below ca wb s m \<and> even_from ca s m
     \<and> (\<exists>g w. g \<le> gone s \<and> blocks s wb = Some w \<and> WbCount w = - word_of_nat g \<and> left ca s m + T = 2 * word_of_nat (n + g))"

definition adding :: "ULONG_PTR \<Rightarrow> casys \<Rightarrow> ULONG_PTR \<Rightarrow> nat \<Rightarrow> nat \<Rightarrow> bool" where
  "adding wb s T n k \<longleftrightarrow> k = 0 \<and> (\<exists>g w. g \<le> gone s \<and> blocks s wb = Some w \<and> WbCount w = - word_of_nat g
     \<and> WakeEvent w = Some False \<and> T = word_of_nat (n + g))"

fun cphase :: "EX_RUNDOWN_REF_CACHE_AWARE \<Rightarrow> ULONG_PTR \<Rightarrow> cwpc \<Rightarrow> casys \<Rightarrow> nat \<Rightarrow> nat \<Rightarrow> bool" where
  "cphase ca wb CIdle s n k = (even_from ca s 0 \<and> left ca s 0 = 2 * word_of_nat n)"
| "cphase ca wb (CLoop i T) s n k = marking ca wb s (unat i) T n k"
| "cphase ca wb (CTurn i v T) s n k = (i < Number ca \<and> marking ca wb s (unat i) T n k)"
| "cphase ca wb (CAdd T) s n k = (marked_below ca wb s (cells ca) \<and> adding wb s T n k)"
| "cphase ca wb CWait s n k = (marked_below ca wb s (cells ca) \<and> block_ok (blocks s wb) n k)"
| "cphase ca wb CDone s n k = (n = 0 \<and> (\<forall>j<cells ca. odd (cell ca s j)))"
| "cphase ca wb (CCompleting i) s n k = (n = 0 \<and> unat i \<le> cells ca \<and> (\<forall>j<cells ca. odd (cell ca s j))
     \<and> (\<forall>j<unat i. cell ca s j = EX_RUNDOWN_ACTIVE))"
| "cphase ca wb CCompleted s n k = (n = 0 \<and> (\<forall>j<cells ca. cell ca s j = EX_RUNDOWN_ACTIVE))"
| "cphase ca wb (CReinit i) s n k = False"

definition ca_live :: "casys \<Rightarrow> bool" where
  "ca_live s = (case cwpc s of CLoop _ _ \<Rightarrow> True | CTurn _ _ _ \<Rightarrow> True | CAdd _ \<Rightarrow> True | CWait \<Rightarrow> True | _ \<Rightarrow> False)"

definition ca_phase :: "EX_RUNDOWN_REF_CACHE_AWARE \<Rightarrow> ULONG_PTR \<Rightarrow> casys \<Rightarrow> nat \<Rightarrow> nat \<Rightarrow> bool" where
  "ca_phase ca wb s n k \<longleftrightarrow> even wb \<and> ca_distinct ca \<and> cphase ca wb (cwpc s) s n k"

lemma cells_frame [simp]:
  "cell ca (s\<lparr>blocks := b\<rparr>) = cell ca s" "cell ca (t\<lparr>gone := g\<rparr>) = cell ca t"
  "cell ca (t\<lparr>thr := x\<rparr>) = cell ca t" "cell ca (t\<lparr>started := g\<rparr>) = cell ca t" "cell ca (u\<lparr>cwpc := p\<rparr>) = cell ca u"
  by (simp_all add: fun_eq_iff cell_def)

lemma marks_cong:
  "cell ca s' = cell ca s \<Longrightarrow> left ca s' = left ca s \<and> even_from ca s' = even_from ca s \<and> marked_below ca wb s' = marked_below ca wb s"
  by (simp add: fun_eq_iff left_def even_from_def marked_below_def)

lemma marks_frame [simp]:
  "left ca (s\<lparr>blocks := b\<rparr>) = left ca s" "left ca (t\<lparr>gone := g\<rparr>) = left ca t"
  "left ca (t\<lparr>thr := x\<rparr>) = left ca t" "left ca (t\<lparr>started := g\<rparr>) = left ca t" "left ca (u\<lparr>cwpc := p\<rparr>) = left ca u"
  "even_from ca (s\<lparr>blocks := b\<rparr>) = even_from ca s" "even_from ca (t\<lparr>gone := g\<rparr>) = even_from ca t"
  "even_from ca (t\<lparr>thr := x\<rparr>) = even_from ca t" "even_from ca (t\<lparr>started := g\<rparr>) = even_from ca t"
  "even_from ca (u\<lparr>cwpc := p\<rparr>) = even_from ca u"
  "marked_below ca wb (s\<lparr>blocks := b\<rparr>) = marked_below ca wb s" "marked_below ca wb (t\<lparr>gone := g\<rparr>) = marked_below ca wb t"
  "marked_below ca wb (t\<lparr>thr := x\<rparr>) = marked_below ca wb t" "marked_below ca wb (t\<lparr>started := g\<rparr>) = marked_below ca wb t"
  "marked_below ca wb (u\<lparr>cwpc := p\<rparr>) = marked_below ca wb u"
  using marks_cong cells_frame by blast+

lemma marks_upd:
  assumes "ca_distinct ca" "m \<le> j" "j < cells ca"
  shows "left ca (s\<lparr>RrCount := (RrCount s)(refno ca j := cell ca s j + x)\<rparr>) m = left ca s m + x"
    and "even_from ca s m \<Longrightarrow> even x \<Longrightarrow> even_from ca (s\<lparr>RrCount := (RrCount s)(refno ca j := cell ca s j + x)\<rparr>) m"
    and "marked_below ca wb (s\<lparr>RrCount := (RrCount s)(refno ca j := v)\<rparr>) m = marked_below ca wb s m"
proof -
  let ?c = "\<lambda>i. cell ca (s\<lparr>RrCount := (RrCount s)(refno ca j := cell ca s j + x)\<rparr>) i"
  have c: "?c i = (if i = j then cell ca s j + x else cell ca s i)" if "i < cells ca" for i
    by (rule cell_upd [OF assms(1) that assms(3)])
  have "left ca (s\<lparr>RrCount := (RrCount s)(refno ca j := cell ca s j + x)\<rparr>) m
      = (\<Sum>i\<in>{m..<cells ca}. cell ca s i + (if i = j then x else 0))"
    unfolding left_def by (rule sum.cong) (auto simp: c)
  also have "\<dots> = left ca s m + x" using assms(2,3) by (simp add: sum.distrib left_def)
  finally show "left ca (s\<lparr>RrCount := (RrCount s)(refno ca j := cell ca s j + x)\<rparr>) m = left ca s m + x" .
  show "even_from ca (s\<lparr>RrCount := (RrCount s)(refno ca j := cell ca s j + x)\<rparr>) m" if "even_from ca s m" "even x"
    using that assms(2,3) by (auto simp: even_from_def c)
  show "marked_below ca wb (s\<lparr>RrCount := (RrCount s)(refno ca j := v)\<rparr>) m = marked_below ca wb s m"
    using assms by (auto simp: marked_below_def cell_upd)
qed

text \<open>An even word is one that is not marked yet.\<close>

lemma even_unmarked:
  "marked_below ca wb s m \<Longrightarrow> even (cell ca s j) \<Longrightarrow> m \<le> j"
  using odd_marked [of wb] by (metis marked_below_def not_le)

lemma minus_ne: "0 < a \<Longrightarrow> g + a < 2 ^ 62 \<Longrightarrow> - word_of_nat g \<noteq> (word_of_nat a :: ULONG_PTR)"
proof
  assume "0 < a" "g + a < 2 ^ 62" and eq: "- word_of_nat g = (word_of_nat a :: ULONG_PTR)"
  have "word_of_nat (g + a) = (word_of_nat 0 :: ULONG_PTR)" by (simp flip: eq)
  then show False using word_of_nat_inj [of "g + a" 0] \<open>0 < a\<close> \<open>g + a < 2 ^ 62\<close> by simp
qed

lemma cphase_count:
  assumes ph: "cphase ca wb (cwpc s) s n k" and d: "ca_distinct ca" and j: "j < cells ca" "even (cell ca s j)"
    and d2: "(2 * word_of_nat n' :: ULONG_PTR) = 2 * word_of_nat n + 2 * x" and g: "gone s \<le> g'"
  shows "cphase ca wb (cwpc s) (s\<lparr>RrCount := (RrCount s)(refno ca j := cell ca s j + 2 * x), gone := g'\<rparr>) n' k"
proof -
  have mk: "marking ca wb (s\<lparr>RrCount := (RrCount s)(refno ca j := cell ca s j + 2 * x), gone := g'\<rparr>) m T n' k"
    if mk: "marking ca wb s m T n k" for m T
  proof -
    obtain g w where gw: "g \<le> gone s" "blocks s wb = Some w" "WbCount w = - word_of_nat g"
        "left ca s m + T = 2 * word_of_nat (n + g)"
      using mk unfolding marking_def by blast
    have m: "m \<le> j" using mk j(2) even_unmarked by (auto simp: marking_def)
    have "left ca s m + 2 * x + T = 2 * word_of_nat (n' + g)"
      using gw(4) d2 by (simp add: distrib_left add.commute add.left_commute)
    then show ?thesis
      using mk m gw g marks_upd(1,2) [OF d m j(1), of s "2 * x"] marks_upd(3) [OF d m j(1)]
      by (auto simp: marking_def intro!: exI [of _ g] exI [of _ w])
  qed
  have all: "marked_below ca wb s (cells ca) \<Longrightarrow> False" "cell ca s j \<noteq> EX_RUNDOWN_ACTIVE"
    using even_unmarked [of ca wb s "cells ca" j] j by (auto simp: EX_RUNDOWN_ACTIVE_def)
  show ?thesis
    using ph mk all j marks_upd(1,2) [OF d _ j(1), of 0 s "2 * x"] d2 by (cases "cwpc s") auto
qed


lemma marking_down:
  assumes "marking ca wb s m T n k" "0 < a" "a \<le> n" "n + gone s < 2 ^ 62"
  shows "\<exists>w. blocks s wb = Some w \<and> WbCount w \<noteq> word_of_nat a \<and> marking ca wb (drop_block wb w a s) m T (n - a) k"
proof -
  obtain g w where gw: "g \<le> gone s" "blocks s wb = Some w" "WbCount w = - word_of_nat g"
      "left ca s m + T = 2 * word_of_nat (n + g)"
    using assms(1) unfolding marking_def by blast
  have "n - a + (g + a) = n + g" using assms(3) by simp
  then have T: "left ca s m + T = 2 * word_of_nat (n - a + (g + a))" using gw(4) by (simp only:)
  have "marking ca wb (drop_block wb w a s) m T (n - a) k"
    unfolding marking_def
    by (intro conjI exI [of _ "g + a"] exI [of _ "w\<lparr>WbCount := WbCount w - word_of_nat a\<rparr>"])
      (use assms(1) gw T in \<open>simp_all add: marking_def drop_block_def\<close>)
  moreover have "WbCount w \<noteq> word_of_nat a"
    using gw(1,3) assms minus_ne [of a g] by auto
  ultimately show ?thesis using gw(2) by blast
qed

lemma adding_down:
  assumes "adding wb s T n k" "0 < a" "a \<le> n" "n + gone s < 2 ^ 62"
  shows "\<exists>w. blocks s wb = Some w \<and> WbCount w \<noteq> word_of_nat a \<and> adding wb (drop_block wb w a s) T (n - a) k"
proof -
  obtain g w where gw: "g \<le> gone s" "blocks s wb = Some w" "WbCount w = - word_of_nat g" "WakeEvent w = Some False"
      "T = word_of_nat (n + g)"
    using assms(1) unfolding adding_def by blast
  have "n - a + (g + a) = n + g" using assms(3) by simp
  then have T: "T = word_of_nat (n - a + (g + a))" using gw(5) by (simp only:)
  have "adding wb (drop_block wb w a s) T (n - a) k"
    unfolding adding_def
    by (intro conjI exI [of _ "g + a"] exI [of _ "w\<lparr>WbCount := WbCount w - word_of_nat a\<rparr>"])
      (use assms(1) gw T in \<open>simp_all add: adding_def drop_block_def\<close>)
  moreover have "WbCount w \<noteq> word_of_nat a"
    using gw(1,3) assms minus_ne [of a g] by auto
  ultimately show ?thesis using gw(2) by blast
qed


lemma ca_ref_cell:
  "ca_distinct ca \<Longrightarrow> r \<in> ca_refs ca \<Longrightarrow> \<exists>j<cells ca. r = refno ca j \<and> RrCount s r = cell ca s j"
  by (auto simp: ca_refs_eq ca_distinct_def cell_def)

lemma cphase_block_down:
  assumes "cphase ca wb (cwpc s) s n k" "ca_live s" "0 < a" "a \<le> n" "n + gone s < 2 ^ 62"
  shows "\<exists>w. blocks s wb = Some w
    \<and> cphase ca wb (cwpc s) (drop_block wb w a s) (n - a) (k + (if WbCount w = word_of_nat a then 1 else 0))"
proof (cases "cwpc s")
  case (CLoop i T)
  then show ?thesis using assms marking_down [OF _ assms(3-5), of ca wb "unat i" T k] by auto
next
  case (CTurn i v T)
  then show ?thesis using assms marking_down [OF _ assms(3-5), of ca wb "unat i" T k] by auto
next
  case (CAdd T)
  then show ?thesis using assms adding_down [OF _ assms(3-5), of wb T k] by (auto simp: drop_block_def)
next
  case CWait
  then have b: "block_ok (blocks s wb) n k" using assms(1) by simp
  then obtain w where "blocks s wb = Some w" using block_ok_Some by blast
  then show ?thesis
    using CWait assms b block_ok_down [of w n k a] by (auto simp: drop_block_def)
qed (use assms(2) in \<open>simp_all add: ca_live_def\<close>)

lemma cphase_wake:
  assumes "cphase ca wb (cwpc s) s n k" "ca_live s" "0 < k"
  shows "\<exists>w. blocks s wb = Some w \<and> WakeEvent w \<noteq> None \<and> cphase ca wb (cwpc s) (set_block_event wb w s) n (k - 1)"
proof (cases "cwpc s")
  case CWait
  then have b: "block_ok (blocks s wb) n k" using assms(1) by simp
  then obtain w where "blocks s wb = Some w" using block_ok_Some by blast
  then show ?thesis
    using CWait assms b block_ok_wake [of w n k] by (auto simp: set_block_event_def)
qed (use assms in \<open>simp_all add: ca_live_def marking_def adding_def\<close>)

lemma cphase_marked:
  assumes "cphase ca wb (cwpc s) s n k" "j < cells ca" "odd (cell ca s j)" "0 < n"
  shows "ca_live s \<and> cell ca s j = wb OR EX_RUNDOWN_ACTIVE"
proof -
  have "cell ca s j = wb OR EX_RUNDOWN_ACTIVE" if "marked_below ca wb s m" "even_from ca s m" for m
    using that assms(2,3) by (cases "j < m") (auto simp: marked_below_def even_from_def)
  then show ?thesis
    using assms by (cases "cwpc s") (auto simp: ca_live_def marking_def marked_below_def even_from_def)
qed

interpretation cad: rundown_protocol "ca_refs ca" wb ca_live "ca_phase ca wb" for ca wb
proof (unfold_locales, goal_cases)
  case (8 s n k r a)
  then obtain j where "j < cells ca" "r = refno ca j" "RrCount s r = cell ca s j"
    using ca_ref_cell [of ca r s] by (auto simp: ca_phase_def)
  then show ?case
    using 8 cphase_count [of ca wb s n k j "n + a" "word_of_nat a" "gone s"] by (auto simp: ca_phase_def distrib_left)
next
  case (9 s n k r a)
  then obtain j where "j < cells ca" "r = refno ca j" "RrCount s r = cell ca s j"
    using ca_ref_cell [of ca r s] by (auto simp: ca_phase_def)
  moreover have "(2 * word_of_nat (n - a) :: ULONG_PTR) = 2 * word_of_nat n + 2 * (- word_of_nat a)"
    using 9 by (simp add: of_nat_diff right_diff_distrib)
  ultimately show ?case
    using 9 cphase_count [of ca wb s n k j "n - a" "- word_of_nat a" "gone s + a"] by (auto simp: ca_phase_def)
next
  case (10 s n k a)
  then show ?case
    using cphase_block_down [of ca wb s n k a] by (auto simp: ca_phase_def drop_block_def)
next
  case (11 s n k)
  then show ?case using cphase_wake [of ca wb s n k] by (auto simp: ca_phase_def set_block_event_def)
next
  case (13 s n k r)
  then obtain j where "j < cells ca" "r = refno ca j" "RrCount s r = cell ca s j"
    using ca_ref_cell [of ca r s] by (auto simp: ca_phase_def)
  then show ?case using 13 cphase_marked [of ca wb s n k j] by (auto simp: ca_phase_def)
next
  case (6 x s n k)
  then show ?case by (cases "cwpc s") (simp_all add: ca_phase_def marking_def adding_def)
next
  case (7 m s n k)
  then show ?case by (cases "cwpc s") (simp_all add: ca_phase_def marking_def adding_def)
qed (auto simp: ca_live_def ca_phase_def)


text \<open>While the words are being reset, no protection is outstanding and the reset words are zero.\<close>

definition reinit_ok :: "EX_RUNDOWN_REF_CACHE_AWARE \<Rightarrow> ULONG_PTR \<Rightarrow> casys \<Rightarrow> bool" where
  "reinit_ok ca wb s \<longleftrightarrow> even wb \<and> ca_distinct ca \<and> threads_ok (ca_refs ca) wb False s \<and> outstanding s = 0
     \<and> (\<exists>i. cwpc s = CReinit i \<and> unat i \<le> cells ca \<and> (\<forall>j<unat i. cell ca s j = 0))"

definition ca_inv :: "EX_RUNDOWN_REF_CACHE_AWARE \<Rightarrow> ULONG_PTR \<Rightarrow> casys \<Rightarrow> bool" where
  "ca_inv ca wb s \<longleftrightarrow> users_inv (ca_refs ca) wb ca_live (ca_phase ca wb) s \<or> reinit_ok ca wb s"

lemma ca_unfold:
  "\<nexists>i. cwpc s = CReinit i \<Longrightarrow> ca_inv ca wb s \<longleftrightarrow> even wb \<and> ca_distinct ca \<and> threads_ok (ca_refs ca) wb (ca_live s) s
    \<and> cphase ca wb (cwpc s) s (outstanding s) (wakers s)"
  by (auto simp: ca_inv_def users_inv_def ca_phase_def reinit_ok_def)

lemma goto_same [simp]:
  "thr (goto wb p s) = thr s" "started (goto wb p s) = started s" "gone (goto wb p s) = gone s"
  "cwpc (goto wb p s) = p" "RrCount (goto wb p s) = RrCount s" "cell ca (goto wb p s) = cell ca s"
  "blocks (goto wb p s) = (if p = CDone then (blocks s)(wb := None) else blocks s)"
  by (simp_all add: goto_def pop_block_def)

lemma goto_marks [simp]:
  "left ca (goto wb p s) = left ca s" "even_from ca (goto wb p s) = even_from ca s"
  "marked_below ca x (goto wb p s) = marked_below ca x s"
  using marks_cong [OF goto_same(6)] by blast+

lemma ca_move:
  assumes inv: "ca_inv ca wb s" and nr: "\<nexists>i. cwpc s = CReinit i" "\<nexists>i. p = CReinit i"
    and live: "ca_live s \<longrightarrow> ca_live (goto wb p s') \<or> outstanding s = 0 \<and> wakers s = 0"
    and same: "thr s' = thr s" "started s' = started s" "gone s' = gone s"
    and ph: "cphase ca wb p (goto wb p s') (outstanding s) (wakers s)"
  shows "ca_inv ca wb (goto wb p s')"
proof -
  have ok: "threads_ok (ca_refs ca) wb (ca_live s) s" using inv nr(1) by (simp add: ca_unfold)
  have "threads_ok (ca_refs ca) wb (ca_live (goto wb p s')) (goto wb p s')"
  proof (cases "ca_live s \<and> \<not> ca_live (goto wb p s')")
    case True
    then have none: "outstanding s = 0" "wakers s = 0" using live by simp_all
    have "threads_ok (ca_refs ca) wb True s" using ok True by simp
    then show ?thesis by (rule threads_ok_leave [OF _ none]) (simp_all add: same)
  next
    case False
    then consider "\<not> ca_live s" | "ca_live s" "ca_live (goto wb p s')" by blast
    then show ?thesis
    proof cases
      case 1
      then have "threads_ok (ca_refs ca) wb False s" using ok by simp
      then show ?thesis by (rule threads_ok_enter) (simp_all add: same)
    next
      case 2
      then show ?thesis using ok same by (simp add: threads_ok_def asked_def)
    qed
  qed
  then show ?thesis
    using inv nr ph counts_cong [of "goto wb p s'" s] same by (simp add: ca_unfold)
qed

lemma ca_bound: "ca_inv ca wb s \<Longrightarrow> \<nexists>i. cwpc s = CReinit i \<Longrightarrow> outstanding s + gone s < 2 ^ 62"
  using outstanding_bound [of "ca_refs ca" wb "ca_live s" s] by (simp add: ca_unfold)

lemma cwait_loop_inv:
  assumes inv: "ca_inv ca wb s" and pc: "cwpc s = CLoop i T"
    and call: "ExWaitForRundownProtectionReleaseCacheAware_loop ca wb i T s = (s', p)"
  shows "ca_inv ca wb (goto wb p s')"
proof -
  have mk: "marking ca wb s (unat i) T (outstanding s) (wakers s)" using inv pc by (simp add: ca_unfold)
  show ?thesis
  proof (cases "i < Number ca")
    case True
    then show ?thesis
      using call pc mk by (intro ca_move [OF inv])
        (auto simp: ExWaitForRundownProtectionReleaseCacheAware_loop_def ca_live_def marking_def)
  next
    case False
    then have i: "unat i = cells ca" using mk by (simp add: marking_def cells_def word_less_nat_alt)
    obtain g w where gw: "g \<le> gone s" "blocks s wb = Some w" "WbCount w = - word_of_nat g"
        "T = 2 * word_of_nat (outstanding s + g)"
      using mk i by (auto simp: marking_def left_def simp del: of_nat_add)
    have b: "outstanding s + g < 2 ^ 62" using ca_bound [OF inv] pc gw(1) by simp
    have k: "wakers s = 0" "marked_below ca wb s (cells ca)" using mk i by (simp_all add: marking_def)
    show ?thesis
      using call pc k gw(1-3) False odd_marked [of wb] double_half [OF b] double_zero [OF b] unfolding gw(4)
      by (intro ca_move [OF inv])
        (auto simp: ExWaitForRundownProtectionReleaseCacheAware_loop_def ca_live_def adding_def
          KeInitializeEvent_block_def marked_below_def simp del: of_nat_add split: if_splits)
  qed
qed


lemma cwait_turn_inv:
  assumes inv: "ca_inv ca wb s" and pc: "cwpc s = CTurn i v T"
    and call: "ExWaitForRundownProtectionReleaseCacheAware_turn ca wb i v T s = (s', p)"
  shows "ca_inv ca wb (goto wb p s')"
proof -
  have mk: "marking ca wb s (unat i) T (outstanding s) (wakers s)" and i: "i < Number ca" and d: "ca_distinct ca"
    using inv pc by (simp_all add: ca_unfold)
  note ref = ref_below [OF i]
  show ?thesis
  proof (cases "cell ca s (unat i) = v")
    case False
    then show ?thesis
      using call pc mk i ref by (intro ca_move [OF inv])
        (auto simp: ExWaitForRundownProtectionReleaseCacheAware_turn_def InterlockedCompareExchangePointer_def
          cell_def ca_live_def marking_def)
  next
    case True
    let ?s = "s\<lparr>RrCount := (RrCount s)(refno ca (unat i) := wb OR EX_RUNDOWN_ACTIVE)\<rparr>"
    have i1: "unat (i + 1) = unat i + 1"
      using ref unat_bound [of "Number ca"] by (subst unat_add_small) (simp_all add: cells_def)
    have c: "cell ca ?s j = (if j = unat i then wb OR EX_RUNDOWN_ACTIVE else cell ca s j)" if "j < cells ca" for j
      by (rule cell_upd [OF d that conjunct2 [OF ref]])
    have L: "left ca ?s (unat i + 1) + (T + v) = left ca s (unat i) + T"
    proof -
      have "left ca ?s (unat i + 1) = left ca s (unat i + 1)" unfolding left_def by (rule sum.cong) (auto simp: c)
      then show ?thesis
        using True ref by (simp add: left_def sum.atLeast_Suc_lessThan add.commute add.left_commute)
    qed
    have "marking ca wb ?s (unat i + 1) (T + v) (outstanding s) (wakers s)"
      using mk ref unfolding marking_def L by (auto simp: marked_below_def even_from_def c less_Suc_eq)
    moreover have "s' = ?s \<and> p = CLoop (i + 1) (T + v)"
      using call True ref by (auto simp: ExWaitForRundownProtectionReleaseCacheAware_turn_def
          InterlockedCompareExchangePointer_def cell_def)
    ultimately show ?thesis
      using pc i1 by (intro ca_move [OF inv]) (auto simp: ca_live_def marking_def)
  qed
qed

lemma cwait_add_inv:
  assumes inv: "ca_inv ca wb s" and pc: "cwpc s = CAdd T"
    and call: "ExWaitForRundownProtectionReleaseCacheAware_add wb T s = Some (s', p)"
  shows "ca_inv ca wb (goto wb p s')"
proof -
  obtain g w where gw: "g \<le> gone s" "blocks s wb = Some w" "WbCount w = - word_of_nat g" "WakeEvent w = Some False"
      "T = word_of_nat (outstanding s + g)"
    and k: "wakers s = 0" "marked_below ca wb s (cells ca)"
    using inv pc by (auto simp: ca_unfold adding_def)
  have b: "outstanding s + g < 2 ^ 62" using ca_bound [OF inv] pc gw(1) by simp
  have z: "- word_of_nat g \<noteq> - T \<longleftrightarrow> 0 < outstanding s"
    unfolding gw(5) neg_equal_iff_equal using word_of_nat_inj [of g "outstanding s + g"] b by auto
  show ?thesis
    using call pc k gw z odd_marked [of wb]
    by (intro ca_move [OF inv])
      (auto simp: ExWaitForRundownProtectionReleaseCacheAware_add_def InterlockedExchangeAdd64_def ca_live_def
        block_ok_def marked_below_def split: if_splits)
qed

lemma cwait_call_inv:
  assumes inv: "ca_inv ca wb s" and pc: "cwpc s = CIdle"
  shows "ca_inv ca wb (enter_wait wb w s)"
proof -
  have "wakers s = 0" using inv pc by (intro no_wakers [of "ca_refs ca" wb]) (simp add: ca_unfold ca_live_def)
  then show ?thesis
    unfolding enter_wait_def using inv pc
    by (intro ca_move [OF inv])
      (auto simp: push_block_def ca_unfold ca_live_def marking_def marked_below_def intro!: exI [of _ 0])
qed


lemma ccompleted_inv:
  assumes inv: "ca_inv ca wb s" and pc: "cwpc s = CCompleting i"
    and call: "ExRundownCompletedCacheAware ca i s = (s', p)"
  shows "ca_inv ca wb (goto wb p s')"
proof -
  have ph: "outstanding s = 0" "\<forall>j<cells ca. odd (cell ca s j)" "\<forall>j<unat i. cell ca s j = EX_RUNDOWN_ACTIVE"
    and d: "ca_distinct ca" and i: "unat i \<le> cells ca"
    using inv pc by (simp_all add: ca_unfold)
  show ?thesis
  proof (cases "i < Number ca")
    case True
    note ref = ref_below [OF True]
    have i1: "unat (i + 1) = unat i + 1"
      using ref unat_bound [of "Number ca"] by (subst unat_add_small) (simp_all add: cells_def)
    let ?s = "s\<lparr>RrCount := (RrCount s)(refno ca (unat i) := EX_RUNDOWN_ACTIVE)\<rparr>"
    have c: "cell ca ?s j = (if j = unat i then EX_RUNDOWN_ACTIVE else cell ca s j)" if "j < cells ca" for j
      by (rule cell_upd [OF d that conjunct2 [OF ref]])
    have s': "s' = ?s" "p = CCompleting (i + 1)"
      using call True ref by (auto simp: ExRundownCompletedCacheAware_def InterlockedExchangePointer_def)
    have "odd EX_RUNDOWN_ACTIVE" by (simp add: EX_RUNDOWN_ACTIVE_def)
    then have "cphase ca wb p (goto wb p s') (outstanding s) (wakers s)"
      using ph i1 ref by (auto simp: s' c less_Suc_eq)
    then show ?thesis using pc s' by (intro ca_move [OF inv]) (auto simp: ca_live_def)
  next
    case False
    then have "unat i = cells ca" using i by (simp add: cells_def word_less_nat_alt)
    then show ?thesis
      using pc call ph False by (intro ca_move [OF inv]) (auto simp: ExRundownCompletedCacheAware_def ca_live_def)
  qed
qed

lemma creinit_inv:
  assumes inv: "ca_inv ca wb s" and pc: "cwpc s = CReinit i"
    and call: "ExReInitializeRundownProtectionCacheAware ca i s = (s', p)"
  shows "ca_inv ca wb (goto wb p s')"
proof -
  have ok: "threads_ok (ca_refs ca) wb False s" "outstanding s = 0" "even wb" and d: "ca_distinct ca"
    and i: "unat i \<le> cells ca" "\<forall>j<unat i. cell ca s j = 0"
    using inv pc by (auto simp: ca_inv_def reinit_ok_def users_inv_def ca_phase_def)
  have same: "thr s' = thr s" "started s' = started s" "gone s' = gone s"
    using call by (auto simp: ExReInitializeRundownProtectionCacheAware_def InterlockedExchangePointer_def split: if_splits)
  have thr: "threads_ok (ca_refs ca) wb w (goto wb p s')" for w
    by (rule threads_ok_enter [OF ok(1)]) (simp_all add: same)
  have n: "outstanding (goto wb p s') = 0"
    using ok(2) counts_cong [of "goto wb p s'" s] same by simp
  show ?thesis
  proof (cases "i < Number ca")
    case True
    note ref = ref_below [OF True]
    have i1: "unat (i + 1) = unat i + 1"
      using ref unat_bound [of "Number ca"] by (subst unat_add_small) (simp_all add: cells_def)
    have s': "s' = s\<lparr>RrCount := (RrCount s)(refno ca (unat i) := 0)\<rparr>" "p = CReinit (i + 1)"
      using call True ref by (auto simp: ExReInitializeRundownProtectionCacheAware_def InterlockedExchangePointer_def)
    have "cell ca s' j = 0" if "j < unat i + 1" for j
      using that i ref cell_upd [OF d, of j "unat i" s 0] unfolding s'(1) by auto
    then have "reinit_ok ca wb (goto wb p s')"
      using thr n ok(3) d i1 ref by (simp add: reinit_ok_def s'(2))
    then show ?thesis by (simp add: ca_inv_def)
  next
    case False
    then have "unat i = cells ca" using i(1) by (simp add: cells_def word_less_nat_alt)
    then have "even_from ca s 0" "left ca s 0 = 0" using i(2) by (simp_all add: even_from_def left_def)
    moreover have "s' = s" "p = CIdle" using call False by (simp_all add: ExReInitializeRundownProtectionCacheAware_def)
    ultimately show ?thesis using thr n ok(3) d by (simp add: ca_unfold)
  qed
qed

section \<open>Another wait after the rundown is completed\<close>

text \<open>
  Until the next reinitialization all words stay marked and nothing is outstanding. The
  total is then not a number of protections, but no thread comes near the wait block.
\<close>

definition again_phase :: "EX_RUNDOWN_REF_CACHE_AWARE \<Rightarrow> ULONG_PTR \<Rightarrow> casys \<Rightarrow> nat \<Rightarrow> nat \<Rightarrow> bool" where
  "again_phase ca wb s n k \<longleftrightarrow> even wb \<and> ca_distinct ca \<and> ca_live s \<and> n = 0 \<and> k = 0 \<and> (\<forall>j<cells ca. odd (cell ca s j))"

interpretation twice: rundown_protocol "ca_refs ca" wb ca_live "again_phase ca wb" for ca wb
proof (unfold_locales, goal_cases)
  case (8 s n k r a)
  then show ?case using ca_ref_cell [of ca r s] by (auto simp: again_phase_def)
next
  case (9 s n k r a)
  then show ?case by (simp add: again_phase_def)
qed (auto simp: again_phase_def ca_live_def)

abbreviation again_inv :: "EX_RUNDOWN_REF_CACHE_AWARE \<Rightarrow> ULONG_PTR \<Rightarrow> casys \<Rightarrow> bool" where
  "again_inv ca wb \<equiv> users_inv (ca_refs ca) wb ca_live (again_phase ca wb)"

definition ca_any :: "EX_RUNDOWN_REF_CACHE_AWARE \<Rightarrow> ULONG_PTR \<Rightarrow> casys \<Rightarrow> bool" where
  "ca_any ca wb s \<longleftrightarrow> ca_inv ca wb s \<or> again_inv ca wb s"

lemma again_move:
  assumes inv: "again_inv ca wb s" and same: "thr s' = thr s" "started s' = started s" "gone s' = gone s"
    and odd: "\<forall>j<cells ca. odd (cell ca s' j)" and p: "p = CDone \<or> ca_live (goto wb p s')"
  shows "ca_any ca wb (goto wb p s')"
proof -
  have ok: "threads_ok (ca_refs ca) wb True s" "outstanding s = 0" "wakers s = 0" "even wb" "ca_distinct ca"
    using inv by (auto simp: users_inv_def again_phase_def)
  have thr: "threads_ok (ca_refs ca) wb w (goto wb p s')" for w
    by (rule threads_ok_leave [OF ok(1-3)]) (simp_all add: same)
  have n: "outstanding (goto wb p s') = 0" "wakers (goto wb p s') = 0"
    using ok(2,3) counts_cong [of "goto wb p s'" s] same by simp_all
  show ?thesis
  proof (cases "p = CDone")
    case True
    then show ?thesis using thr n(1) ok(4,5) odd by (simp add: ca_any_def ca_unfold)
  next
    case False
    then show ?thesis using p thr n ok(4,5) odd by (simp add: ca_any_def users_inv_def again_phase_def)
  qed
qed

lemma again_wait:
  assumes inv: "again_inv ca wb s" and step: "cwait_step ca wb s t"
  shows "ca_any ca wb t"
proof -
  have live: "ca_live s" and cells: "\<forall>j<cells ca. odd (cell ca s j)"
    using inv by (auto simp: users_inv_def again_phase_def)
  from step show ?thesis
  proof cases
    case (cwait_loop i T s' p)
    then show ?thesis using cells
      by (auto intro!: again_move [OF inv] simp: ExWaitForRundownProtectionReleaseCacheAware_loop_def ca_live_def
          KeInitializeEvent_block_def split: if_splits option.splits)
  next
    case (cwait_turn i v T s' p)
    then show ?thesis using cells odd_marked [of wb]
      by (auto intro!: again_move [OF inv] simp: ExWaitForRundownProtectionReleaseCacheAware_turn_def ca_live_def
          InterlockedCompareExchangePointer_def cell_def split: if_splits)
  next
    case (cwait_add T s' p)
    then show ?thesis using cells
      by (auto intro!: again_move [OF inv] simp: ExWaitForRundownProtectionReleaseCacheAware_add_def ca_live_def
          InterlockedExchangeAdd64_def split: if_splits option.splits)
  next
    case (cwait_wake s')
    then show ?thesis using cells
      by (auto intro!: again_move [OF inv] simp: wait_event_def split: if_splits option.splits)
  qed (use live in \<open>auto simp: ca_live_def\<close>)
qed

lemma again_call:
  assumes inv: "ca_inv ca wb s" and pc: "cwpc s = CCompleted"
  shows "again_inv ca wb (enter_wait wb w s)"
proof -
  have ok: "threads_ok (ca_refs ca) wb False s" "outstanding s = 0" "even wb" "ca_distinct ca"
      "\<forall>j<cells ca. odd (cell ca s j)"
    using inv pc by (auto simp: ca_unfold ca_live_def EX_RUNDOWN_ACTIVE_def)
  have "threads_ok (ca_refs ca) wb True (enter_wait wb w s)"
    by (rule threads_ok_enter [OF ok(1)]) (simp_all add: enter_wait_def push_block_def)
  moreover have "outstanding (enter_wait wb w s) = 0" "wakers (enter_wait wb w s) = 0"
    using ok(2) no_wakers [OF ok(1)] counts_cong [of "enter_wait wb w s" s] by (simp_all add: enter_wait_def push_block_def)
  ultimately show ?thesis
    using ok(3-5) by (simp add: users_inv_def again_phase_def ca_live_def enter_wait_def push_block_def)
qed

section \<open>The steps\<close>

text \<open>A step of the rundown thread that is not the second call.\<close>

lemma cwait_step_inv:
  "cwait_step ca wb s s' \<Longrightarrow> ca_inv ca wb s \<Longrightarrow> \<not> (cwpc s = CCompleted \<and> cwpc s' = CLoop 0 0) \<Longrightarrow> ca_inv ca wb s'"
proof (induction rule: cwait_step.induct)
  case (cwait_call s w)
  then show ?case by (intro cwait_call_inv) (auto simp: enter_wait_def)
next
  case (cwait_wake s s')
  then have "outstanding s = 0" "wakers s = 0" "marked_below ca wb s (cells ca)" "RrCount s' = RrCount s"
      "thr s' = thr s" "started s' = started s" "gone s' = gone s"
    by (auto simp: ca_unfold block_ok_def wait_event_def split: option.splits if_splits)
  then show ?case
    using cwait_wake odd_marked [of wb] by (intro ca_move [OF cwait_wake.prems(1)]) (auto simp: marked_below_def cell_def)
next
  case (ccompleted_call s)
  then show ?case
    by (intro ca_move [OF ccompleted_call.prems(1)]) (auto simp: ca_unfold ca_live_def EX_RUNDOWN_ACTIVE_def)
next
  case (ccompleted s i s' p)
  then show ?case by (intro ccompleted_inv)
next
  case (creinit_call s)
  then have ok: "threads_ok (ca_refs ca) wb False s" "outstanding s = 0" "even wb" "ca_distinct ca"
    by (auto simp: ca_unfold ca_live_def)
  then have "reinit_ok ca wb (goto wb (CReinit 0) s)"
    using threads_ok_enter [OF ok(1), of "goto wb (CReinit 0) s" False] counts_cong [of "goto wb (CReinit 0) s" s]
    by (simp add: reinit_ok_def)
  then show ?case by (simp add: ca_inv_def)
next
  case (creinit s i s' p)
  then show ?case by (intro creinit_inv)
qed (auto intro: cwait_loop_inv cwait_turn_inv cwait_add_inv)

lemma ca_start_inv: "ca_start ca wb s \<Longrightarrow> ca_inv ca wb s"
proof -
  assume st: "ca_start ca wb s"
  then have all: "pc t = Idle \<and> held t = 0" if "t \<in> set (thr s)" for t
    using that by (simp add: ca_start_def list_all_iff)
  then have "outstanding s = 0" "asked s = 0"
    by (auto simp: outstanding_def asked_def sum_list_eq_0_iff)
  moreover have "left ca s 0 = 0" "even_from ca s 0" using st by (simp_all add: ca_start_def left_def even_from_def)
  ultimately show ?thesis
    using st all active_odd [of wb] by (auto simp: ca_unfold ca_start_def threads_ok_def)
qed

lemma cwait_again_inv: "cwait_step ca wb s s' \<Longrightarrow> ca_inv ca wb s \<Longrightarrow> ca_any ca wb s'"
proof -
  assume step: "cwait_step ca wb s s'" and inv: "ca_inv ca wb s"
  show ?thesis
  proof (cases "cwpc s = CCompleted \<and> cwpc s' = CLoop 0 0")
    case True
    from step True obtain w where "s' = enter_wait wb w s" by cases auto
    then show ?thesis using again_call [OF inv] True by (simp add: ca_any_def)
  next
    case False
    then show ?thesis using cwait_step_inv [OF step inv] by (simp add: ca_any_def)
  qed
qed

lemma ca_user_inv:
  "user_step (ca_refs ca) s t \<Longrightarrow> cwpc s \<notin> range CReinit \<Longrightarrow> ca_inv ca wb s \<Longrightarrow> ca_inv ca wb t"
  by (auto simp: ca_inv_def reinit_ok_def dest: cad.user_step_inv)

lemma ca_once_inv: "ca_inv ca wb s \<Longrightarrow> ca_once ca wb s t \<Longrightarrow> ca_inv ca wb t"
  by (auto simp: ca_once_def ca_quiet_def elim!: ca_step.cases intro: ca_user_inv cwait_step_inv)

lemma ca_quiet_inv:
  assumes "ca_any ca wb s" "ca_quiet ca wb s t"
  shows "ca_any ca wb t"
proof -
  have *: "cwait_step ca wb s t \<or> user_step (ca_refs ca) s t \<and> cwpc s \<notin> range CReinit"
    using assms(2) by (auto simp: ca_quiet_def elim: ca_step.cases)
  from assms(1) consider "ca_inv ca wb s" | "again_inv ca wb s" unfolding ca_any_def by blast
  then show ?thesis
  proof cases
    case 1
    then show ?thesis using * cwait_again_inv ca_user_inv unfolding ca_any_def by blast
  next
    case 2
    then show ?thesis using * again_wait twice.user_step_inv unfolding ca_any_def by blast
  qed
qed

lemma ca_start_any: "ca_start ca wb s \<Longrightarrow> ca_any ca wb s"
  by (simp add: ca_any_def ca_start_inv)

text \<open>
  The invariant of the rundowns waited for once, and the one of all executions with quiet clients.
\<close>

interpretation casys: invariant_system "ca_start ca wb" "ca_once ca wb" "ca_inv ca wb" for ca wb
  by unfold_locales (auto intro: ca_start_inv ca_once_inv)

interpretation caquiet: invariant_system "ca_start ca wb" "ca_quiet ca wb"
    "ca_any ca wb" for ca wb
  by unfold_locales (auto intro: ca_start_any ca_quiet_inv)

end
