(* ===== verification/RundownCacheProps.thy ===== *)
theory RundownCacheProps
  imports RundownCache "HOL-Library.Multiset"
begin

text \<open>
  What the cache-aware rundown protection guarantees: the layout of the words in both kinds of
  allocation, a completed rundown without protections, no access to a dead wait block, an end of
  every wait; and the two situations in which the interface needs its discipline.
\<close>

section \<open>The end of the wait\<close>

lemma ca_blocked:
  assumes "ca_inv ca wb s" "cwpc s = CWait"
  shows "\<forall>r\<in>ca_refs ca. odd (RrCount s r)" "block_ok (blocks s wb) (outstanding s) (wakers s)" "ca_refs ca \<noteq> {}"
    "users_inv (ca_refs ca) wb ca_live (ca_phase ca wb) s"
proof -
  have *: "ca_distinct ca" "marked_below ca wb s (cells ca)" "block_ok (blocks s wb) (outstanding s) (wakers s)"
    using assms by (simp_all add: ca_unfold)
  have "odd (RrCount s r)" if "r \<in> ca_refs ca" for r
    using ca_ref_cell [OF *(1) that, of s] *(2) odd_marked [of wb] by (auto simp: marked_below_def)
  then show "\<forall>r\<in>ca_refs ca. odd (RrCount s r)" by blast
  show "block_ok (blocks s wb) (outstanding s) (wakers s)" by (rule *(3))
  show "ca_refs ca \<noteq> {}" by (simp add: ca_refs_def)
  show "users_inv (ca_refs ca) wb ca_live (ca_phase ca wb) s"
    using assms by (auto simp: ca_inv_def reinit_ok_def)
qed

lemma ca_live_frame: "user_step R s t \<Longrightarrow> cwpc t = cwpc s" for s t :: casys
  by (induction rule: user_step.induct)
    (auto simp: set_thr_def acquire_fast_eq release_fast_eq acquire_turn_def release_turn_def
      ExfAcquireRundownProtection_def ExAcquireRundownProtectionEx_def ExfReleaseRundownProtection_def
      ExReleaseRundownProtectionEx_def InterlockedCompareExchangePointer_def InterlockedExchangeAdd64_def
      KeSetEvent_block_def Let_def split: if_splits option.splits acq_turn.splits rel_turn.splits)

lemma ca_once_user: "user_step (ca_refs ca) s t \<Longrightarrow> cwpc s \<notin> range CReinit \<Longrightarrow> ca_once ca wb s t"
  using ca_live_frame [of "ca_refs ca" s t] by (auto simp: ca_once_def ca_quiet_def intro: ca_user)

lemma ca_once_wait: "cwait_step ca wb s t \<Longrightarrow> cwpc s \<noteq> CCompleted \<Longrightarrow> ca_once ca wb s t"
  by (simp add: ca_once_def ca_quiet_def ca_wait)

lemma ca_blocked_ends:
  "ca_inv ca wb s \<Longrightarrow> cwpc s = CWait \<Longrightarrow> \<exists>t. (ca_once ca wb)\<^sup>*\<^sup>* s t \<and> cwpc t = CDone"
proof (induction "ranks s" arbitrary: s rule: less_induct)
  case less
  note b = ca_blocked [OF less.prems]
  show ?case
  proof (cases "\<exists>i<length (thr s). 0 < rank (pc (thr s ! i)) (held (thr s ! i))")
    case True
    then obtain i where i: "i < length (thr s)" "0 < rank (pc (thr s ! i)) (held (thr s ! i))" by blast
    obtain r where "r \<in> ca_refs ca" using b(3) by blast
    then have "\<exists>u. user_step (ca_refs ca) s u \<and> ranks u < ranks s \<and> ca_live u \<and> RrCount u = RrCount s"
      using less.prems(2) b(1) by (intro cad.closer_thread [OF b(4) _ _ _ i(1) refl i(2)]) (simp_all add: ca_live_def)
    then obtain u where us: "user_step (ca_refs ca) s u" and r: "ranks u < ranks s" by blast
    have u: "ca_once ca wb s u" "ranks u < ranks s" "cwpc u = CWait"
      using us r ca_live_frame [OF us] less.prems(2) by (auto intro: ca_once_user)
    then obtain t where "(ca_once ca wb)\<^sup>*\<^sup>* u t" "cwpc t = CDone"
      using less.hyps [OF u(2) casys.step_inv [OF less.prems(1) u(1)] u(3)] by blast
    then show ?thesis using u(1) by (meson converse_rtranclp_into_rtranclp)
  next
    case False
    then have "outstanding s = 0" "wakers s = 0" using cad.all_done [OF b(4)] by auto
    then obtain s' where "wait_event wb s = Some s'" using block_ok_signalled [OF b(2)] by auto
    then have "ca_once ca wb s (goto wb CDone s')"
      using less.prems(2) by (auto intro: ca_once_wait cwait_step.cwait_wake)
    then show ?thesis by (metis goto_same(4) r_into_rtranclp)
  qed
qed

lemma ca_add_ends:
  assumes "ca_inv ca wb s" "cwpc s = CAdd T"
  shows "\<exists>t. (ca_once ca wb)\<^sup>*\<^sup>* s t \<and> cwpc t = CDone"
proof -
  obtain w where "blocks s wb = Some w" using assms by (auto simp: ca_unfold adding_def)
  then obtain s' p where add: "ExWaitForRundownProtectionReleaseCacheAware_add wb T s = Some (s', p)" "p = CWait \<or> p = CDone"
    by (auto simp: ExWaitForRundownProtectionReleaseCacheAware_add_def InterlockedExchangeAdd64_def)
  have st: "ca_once ca wb s (goto wb p s')" by (rule ca_once_wait [OF cwait_step.cwait_add [OF assms(2) add(1)]]) (simp add: assms(2))
  have "\<exists>t. (ca_once ca wb)\<^sup>*\<^sup>* (goto wb p s') t \<and> cwpc t = CDone"
    using add(2) ca_blocked_ends [OF casys.step_inv [OF assms(1) st]] by auto
  then show ?thesis using st by (meson converse_rtranclp_into_rtranclp)
qed

lemma ca_loop_ends:
  "ca_inv ca wb s \<Longrightarrow> cwpc s = CLoop i T \<Longrightarrow> \<exists>t. (ca_once ca wb)\<^sup>*\<^sup>* s t \<and> cwpc t = CDone"
proof (induction "cells ca - unat i" arbitrary: s i T rule: less_induct)
  case less
  obtain s1 p1 where loop: "ExWaitForRundownProtectionReleaseCacheAware_loop ca wb i T s = (s1, p1)" by fastforce
  have st1: "ca_once ca wb s (goto wb p1 s1)" by (rule ca_once_wait [OF cwait_step.cwait_loop [OF less.prems(2) loop]]) (simp add: less.prems(2))
  note inv1 = casys.step_inv [OF less.prems(1) st1]
  have "\<exists>t. (ca_once ca wb)\<^sup>*\<^sup>* (goto wb p1 s1) t \<and> cwpc t = CDone"
  proof (cases "i < Number ca")
    case True
    note ref = ref_below [OF True]
    let ?v = "RrCount s (refno ca (unat i))"
    have 1: "s1 = s" "p1 = CTurn i ?v T"
      using loop True ref by (auto simp: ExWaitForRundownProtectionReleaseCacheAware_loop_def)
    obtain s2 where turn: "ExWaitForRundownProtectionReleaseCacheAware_turn ca wb i ?v T (goto wb p1 s1)
        = (s2, CLoop (i + 1) (T + ?v))"
      using ref 1(1) by (auto simp: ExWaitForRundownProtectionReleaseCacheAware_turn_def InterlockedCompareExchangePointer_def)
    have st2: "ca_once ca wb (goto wb p1 s1) (goto wb (CLoop (i + 1) (T + ?v)) s2)"
      using turn by (intro ca_once_wait cwait_step.cwait_turn) (simp_all add: 1(2))
    have "unat (i + 1) = unat i + 1"
      using ref unat_bound [of "Number ca"] by (subst unat_add_small) (simp_all add: cells_def)
    then have "cells ca - unat (i + 1) < cells ca - unat i" using conjunct2 [OF ref] by linarith
    from less.hyps [OF this casys.step_inv [OF inv1 st2]] show ?thesis
      using st2 by (metis converse_rtranclp_into_rtranclp goto_same(4))
  next
    case False
    then have "p1 = CDone \<or> (\<exists>T'. p1 = CAdd T')"
      using loop by (auto simp: ExWaitForRundownProtectionReleaseCacheAware_loop_def split: if_splits)
    then show ?thesis using ca_add_ends [OF inv1] by auto
  qed
  then show ?case using st1 by (meson converse_rtranclp_into_rtranclp)
qed

lemma ca_turn_ends:
  assumes inv: "ca_inv ca wb s" and pc: "cwpc s = CTurn i v T"
  shows "\<exists>t. (ca_once ca wb)\<^sup>*\<^sup>* s t \<and> cwpc t = CDone"
proof -
  let ?turn = "ExWaitForRundownProtectionReleaseCacheAware_turn ca wb i"
  have ends: "\<exists>t. (ca_once ca wb)\<^sup>*\<^sup>* s t \<and> cwpc t = CDone"
    if "ca_inv ca wb s" "cwpc s = CTurn i v T" "?turn v T s = (s', CLoop j T')" for s v s' j T'
  proof -
    have st: "ca_once ca wb s (goto wb (CLoop j T') s')" by (rule ca_once_wait [OF cwait_step.cwait_turn [OF that(2,3)]]) (simp add: that(2))
    then show ?thesis
      using ca_loop_ends [OF casys.step_inv [OF that(1) st]] by (metis converse_rtranclp_into_rtranclp goto_same(4))
  qed
  let ?f = "RrCount s (EXP_GET_PROCESSOR_RUNDOWN_REF ca i)"
  show ?thesis
  proof (cases "?f = v")
    case True
    then show ?thesis
      by (intro ends [OF inv pc]) (simp add: ExWaitForRundownProtectionReleaseCacheAware_turn_def InterlockedCompareExchangePointer_def)
  next
    case False
    then have "?turn v T s = (s, CTurn i ?f T)"
      by (simp add: ExWaitForRundownProtectionReleaseCacheAware_turn_def InterlockedCompareExchangePointer_def)
    then have st: "ca_once ca wb s (goto wb (CTurn i ?f T) s)" using ca_once_wait [OF cwait_step.cwait_turn [OF pc]] pc by simp
    have "\<exists>t. (ca_once ca wb)\<^sup>*\<^sup>* (goto wb (CTurn i ?f T) s) t \<and> cwpc t = CDone"
      by (intro ends [OF casys.step_inv [OF inv st] goto_same(4)])
        (simp add: ExWaitForRundownProtectionReleaseCacheAware_turn_def InterlockedCompareExchangePointer_def)
    then show ?thesis using st by (meson converse_rtranclp_into_rtranclp)
  qed
qed


section \<open>The layout\<close>

text \<open>Line sizes are powers of two; the bounds keep the 32-bit products exact.\<close>

definition line_ok :: "ULONG \<Rightarrow> ULONG \<Rightarrow> bool" where
  "line_ok Line Processors \<longleftrightarrow> (\<exists>j. 3 \<le> j \<and> j < 16 \<and> Line = 2 ^ j) \<and> 0 < Processors \<and> Processors < 2 ^ 15"

text \<open>\<open>[a, a + n)\<close> holds the eight bytes of every word, without wrap-around.\<close>

definition refs_inside :: "EX_RUNDOWN_REF_CACHE_AWARE \<Rightarrow> ULONG_PTR \<Rightarrow> nat \<Rightarrow> bool" where
  "refs_inside ca a n \<longleftrightarrow> (\<forall>i<cells ca. unat a \<le> unat (refno ca i) \<and> unat (refno ca i) + 8 \<le> unat a + n)"

lemma and_not_mask: "x AND NOT (mask j) = x - take_bit j x" for x :: "'a::len word"
proof -
  have "x - (x AND mask j) = x AND NOT (x AND mask j)"
    by (rule disjunctive_diff_eq_and_not) (simp add: bit_eq_iff bit_simps)
  also have "\<dots> = x AND NOT (mask j)" by (rule bit_word_eqI) (auto simp: bit_simps)
  finally show ?thesis by (simp add: take_bit_eq_mask)
qed

lemma line_mask: "j < 16 \<Longrightarrow> ucast ((2 ^ j :: ULONG) - 1) = (mask j :: ULONG_PTR)"
  by (rule bit_word_eqI) (auto simp: bit_simps simp flip: mask_eq_decr_exp)

lemma unat_take_bit: "unat (take_bit j x) = unat x mod 2 ^ j" for x :: "'a::len word"
  unfolding unsigned_take_bit_eq by (rule take_bit_eq_mod)

lemma unat_line: "j < 16 \<Longrightarrow> unat (2 ^ j :: ULONG) = 2 ^ j"
proof -
  assume "j < 16"
  then have "(2::nat) ^ j < 2 ^ 32" by (intro power_strict_increasing) simp_all
  then show ?thesis using unat_word_of_nat [of "2 ^ j", where 'a = 32] by simp
qed

lemma is_aligned: "j < 16 \<Longrightarrow> EXP_IS_ALIGNED_ON_BOUNDARY p (2 ^ j) \<longleftrightarrow> unat p mod 2 ^ j = 0"
  by (simp add: EXP_IS_ALIGNED_ON_BOUNDARY_def line_mask word_unat_eq_iff flip: take_bit_eq_mask unat_take_bit)

lemma align_up:
  assumes j: "j < 16" and p: "unat p + 2 ^ j \<le> 2 ^ 64"
  shows "unat p \<le> unat (EXP_ALIGN_UP_PTR_ON_BOUNDARY p (2 ^ j))"
    and "unat (EXP_ALIGN_UP_PTR_ON_BOUNDARY p (2 ^ j)) < unat p + 2 ^ j"
    and "unat (EXP_ALIGN_UP_PTR_ON_BOUNDARY p (2 ^ j)) mod 2 ^ j = 0"
proof -
  have "(2::nat) ^ j < 2 ^ 64" using j by (intro power_strict_increasing) simp_all
  then have m: "unat (mask j :: ULONG_PTR) = 2 ^ j - 1"
    using unat_word_of_nat [of "2 ^ j - 1", where 'a = 64] by (simp add: mask_eq_exp_minus_1 flip: of_nat_mask_eq)
  let ?x = "p + mask j"
  have x: "unat ?x = unat p + (2 ^ j - 1)"
  proof -
    have "(1::nat) \<le> 2 ^ j" by simp
    then have "unat p + unat (mask j :: ULONG_PTR) < 2 ^ LENGTH(64)" using p m by simp
    then show ?thesis using m by (simp add: unat_add_small)
  qed
  have u: "unat (EXP_ALIGN_UP_PTR_ON_BOUNDARY p (2 ^ j)) = unat ?x - unat ?x mod 2 ^ j"
    unfolding EXP_ALIGN_UP_PTR_ON_BOUNDARY_def line_mask [OF j] and_not_mask
    by (subst unat_sub_small) (simp_all add: unat_take_bit)
  have "unat ?x mod 2 ^ j < 2 ^ j" by simp
  then show "unat p \<le> unat (EXP_ALIGN_UP_PTR_ON_BOUNDARY p (2 ^ j))"
    "unat (EXP_ALIGN_UP_PTR_ON_BOUNDARY p (2 ^ j)) < unat p + 2 ^ j"
    using x u by linarith+
  show "unat (EXP_ALIGN_UP_PTR_ON_BOUNDARY p (2 ^ j)) mod 2 ^ j = 0"
    unfolding u by (metis minus_mod_eq_mult_div mod_mult_self1_is_0)
qed

lemma refno_layout:
  assumes "RunRefSize ca = 2 ^ j" "j < 16" "unat (Number ca) < 2 ^ 15" "i < cells ca"
    and "unat (RunRefs ca) + cells ca * 2 ^ j \<le> 2 ^ 64"
  shows "unat (refno ca i) = unat (RunRefs ca) + i * 2 ^ j"
proof -
  have pw: "(2::nat) ^ j \<le> 2 ^ 15" using assms(2) by (intro power_increasing) simp_all
  have i: "unat (word_of_nat i :: ULONG) = i"
    using assms(3,4) by (intro unat_word_of_nat) (simp add: cells_def)
  have "i * 2 ^ j \<le> 2 ^ 15 * 2 ^ 15"
    using assms(3,4) pw by (intro mult_le_mono) (simp_all add: cells_def)
  then have l: "i * 2 ^ j < 2 ^ 32" by simp
  have "unat ((word_of_nat i mod Number ca) * RunRefSize ca) = i * 2 ^ j"
    using i assms(4) l unat_line [OF assms(2)] unfolding assms(1)
    by (subst unat_mult_small) (simp_all add: unat_mod_word cells_def)
  then have u: "unat (ucast ((word_of_nat i mod Number ca) * RunRefSize ca) :: ULONG_PTR) = i * 2 ^ j"
    using l by (subst unat_ucast_small) simp_all
  have "i * 2 ^ j < cells ca * 2 ^ j" using assms(4) by simp
  then have "unat (RunRefs ca) + i * 2 ^ j < 2 ^ 64" using assms(5) by linarith
  then show ?thesis
    unfolding refno_def EXP_GET_PROCESSOR_RUNDOWN_REF_def using u by (subst unat_add_small) simp_all
qed

lemma each_ref_init:
  "each_ref ExfInitializeRundownProtection ca s
    = s\<lparr>RrCount := (\<lambda>r. if r \<in> refno ca ` {..<cells ca} then 0 else RrCount s r)\<rparr>"
proof -
  have "fold (\<lambda>i. ExfInitializeRundownProtection (EXP_GET_PROCESSOR_RUNDOWN_REF ca (word_of_nat i))) [0..<n] s
      = s\<lparr>RrCount := (\<lambda>r. if r \<in> refno ca ` {..<n} then 0 else RrCount s r)\<rparr>" for n
    by (induction n) (auto simp: ExfInitializeRundownProtection_def refno_def lessThan_Suc fun_eq_iff)
  then show ?thesis by (simp add: each_ref_def cells_def)
qed

text \<open>The words of a structure: how many, zero, apart, aligned, and inside the block of \<open>n\<close> bytes at \<open>a\<close>.\<close>

definition ca_fresh :: "EX_RUNDOWN_REF_CACHE_AWARE \<Rightarrow> 'x rdmem_scheme \<Rightarrow> ULONG \<Rightarrow> ULONG \<Rightarrow> ULONG_PTR \<Rightarrow> nat \<Rightarrow> bool" where
  "ca_fresh ca s Processors Line a n \<longleftrightarrow> cells ca = unat Processors \<and> ca_distinct ca
     \<and> (\<forall>i<cells ca. cell ca s i = 0 \<and> (1 < Processors \<longrightarrow> EXP_IS_ALIGNED_ON_BOUNDARY (refno ca i) Line))
     \<and> refs_inside ca a n"

lemma layout_fresh:
  assumes ca: "RunRefSize ca = 2 ^ j" "3 \<le> j" "j < 16" "Number ca = Processors" "0 < Processors" "Processors < 2 ^ 15"
    and al: "1 < Processors \<Longrightarrow> 2 ^ j = Line \<and> unat (RunRefs ca) mod 2 ^ j = 0"
    and inside: "unat a \<le> unat (RunRefs ca)" "unat (RunRefs ca) + unat Processors * 2 ^ j \<le> unat a + n" "unat a + n \<le> 2 ^ 64"
  shows "ca_fresh ca (each_ref ExfInitializeRundownProtection ca s) Processors Line a n"
proof -
  have n: "cells ca = unat Processors" "0 < cells ca" "unat (Number ca) < 2 ^ 15"
    using ca(4-6) by (simp_all add: cells_def word_less_nat_alt)
  have ref: "unat (refno ca i) = unat (RunRefs ca) + i * 2 ^ j" if "i < cells ca" for i
    using inside(2,3) n(1) by (intro refno_layout [OF ca(1,3) n(3) that]) simp
  have "inj_on (refno ca) {..<cells ca}"
    by (rule inj_onI) (metis add_left_cancel lessThan_iff mult_cancel2 power_not_zero ref zero_neq_numeral)
  then have d: "ca_distinct ca" using n(2) by (simp add: ca_distinct_def distinct_map lessThan_atLeast0)
  have in_block: "unat a \<le> unat (refno ca i) \<and> unat (refno ca i) + 8 \<le> unat a + n" if i: "i < cells ca" for i
  proof -
    have "(i + 1) * 2 ^ j \<le> unat Processors * 2 ^ j" using i n(1) by (intro mult_le_mono1) simp
    moreover have "(2::nat) ^ 3 \<le> 2 ^ j" using ca(2) by (rule power_increasing) simp
    ultimately show ?thesis using ref [OF i] inside by (simp add: algebra_simps)
  qed
  have "EXP_IS_ALIGNED_ON_BOUNDARY (refno ca i) Line" if "1 < Processors" "i < cells ca" for i
    using al [OF that(1)] ref [OF that(2)] is_aligned [OF ca(3)] by auto
  then show ?thesis
    using n(1) d in_block by (auto simp: ca_fresh_def refs_inside_def each_ref_init cell_def)
qed


text \<open>
  What the allocating routine relies on: a block that is returned lies inside the address space.
\<close>

definition pool_ok :: "(ULONG_PTR \<Rightarrow> 'p \<Rightarrow> ULONG_PTR \<times> 'p) \<Rightarrow> bool" where
  "pool_ok alloc \<longleftrightarrow> (\<forall>n p a p'. alloc n p = (a, p') \<longrightarrow> a \<noteq> 0 \<longrightarrow> unat a + unat n \<le> 2 ^ 64)"

lemma sizes_exact:
  assumes "j < 16" "Processors < 2 ^ 15"
  shows "unat (ucast ((2 ^ j :: ULONG) * Processors) :: ULONG_PTR) = unat Processors * 2 ^ j"
    and "unat (ucast ((2 ^ j :: ULONG) * Processors + 2 ^ j) :: ULONG_PTR) = unat Processors * 2 ^ j + 2 ^ j"
proof -
  have pw: "(2::nat) ^ j \<le> 2 ^ 15" using assms(1) by (intro power_increasing) simp_all
  have P: "unat Processors < 2 ^ 15" using assms(2) by (simp add: word_less_nat_alt)
  have le: "2 ^ j * unat Processors \<le> 2 ^ 15 * 2 ^ 15" using pw P by (intro mult_le_mono) simp_all
  have m: "unat ((2 ^ j :: ULONG) * Processors) = unat Processors * 2 ^ j"
    using le unat_line [OF assms(1)] by (subst unat_mult_small) (simp_all add: mult.commute)
  then show "unat (ucast ((2 ^ j :: ULONG) * Processors) :: ULONG_PTR) = unat Processors * 2 ^ j"
    using le by (subst unat_ucast_small) (simp_all add: mult.commute)
  have "unat ((2 ^ j :: ULONG) * Processors + 2 ^ j) = unat Processors * 2 ^ j + 2 ^ j"
    using le pw m unat_line [OF assms(1)] by (subst unat_add_small) (simp_all add: mult.commute)
  then show "unat (ucast ((2 ^ j :: ULONG) * Processors + 2 ^ j) :: ULONG_PTR) = unat Processors * 2 ^ j + 2 ^ j"
    using le pw by (subst unat_ucast_small) (simp_all add: mult.commute)
qed

text \<open>The cases of a successful allocation.\<close>

lemma alloc_cases:
  assumes "ExAllocateCacheAwareRundownProtection alloc free Processors Line p s = (Some (h, ca), p', s')"
  obtains Padded n q q' where "Padded = (if Processors > 1 then Line else sizeof_EX_RUNDOWN_REF)"
    "RunRefSize ca = Padded" "Number ca = Processors" "alloc n q = (PoolToFree ca, q')" "PoolToFree ca \<noteq> 0"
    "s' = each_ref ExfInitializeRundownProtection ca s"
    "n = ucast (Padded * Processors) \<and> RunRefs ca = PoolToFree ca
       \<and> (Processors > 1 \<longrightarrow> EXP_IS_ALIGNED_ON_BOUNDARY (RunRefs ca) Padded)
     \<or> n = ucast (Padded * Processors + Padded) \<and> RunRefs ca = EXP_ALIGN_UP_PTR_ON_BOUNDARY (PoolToFree ca) Padded
       \<and> 1 < Processors"
proof -
  obtain H p1 where 1: "alloc sizeof_EX_RUNDOWN_REF_CACHE_AWARE p = (H, p1)" by fastforce
  define Padded where P: "Padded = (if Processors > 1 then Line else sizeof_EX_RUNDOWN_REF)"
  obtain R p2 where 2: "alloc (ucast (Padded * Processors)) p1 = (R, p2)" by fastforce
  obtain R' p4 where 3: "alloc (ucast (Padded * Processors + Padded)) (free R p2) = (R', p4)" by fastforce
  note run = assms [unfolded ExAllocateCacheAwareRundownProtection_def 1 Let_def P [symmetric] split_conv 2 3]
  show thesis
  proof (cases "Processors > 1 \<and> \<not> EXP_IS_ALIGNED_ON_BOUNDARY R Padded")
    case True
    then have "PoolToFree ca = R'" "R' \<noteq> 0" "RunRefSize ca = Padded" "Number ca = Processors"
      "RunRefs ca = EXP_ALIGN_UP_PTR_ON_BOUNDARY R' Padded" "s' = each_ref ExfInitializeRundownProtection ca s"
      using run by (auto split: if_splits)
    then show thesis using True 3 by (intro that [OF P, of "ucast (Padded * Processors + Padded)" "free R p2" p4]) simp_all
  next
    case False
    then have "PoolToFree ca = R" "R \<noteq> 0" "RunRefSize ca = Padded" "Number ca = Processors"
      "RunRefs ca = R" "s' = each_ref ExfInitializeRundownProtection ca s"
      using run by (auto split: if_splits)
    then show thesis using False 2 by (intro that [OF P, of "ucast (Padded * Processors)" p1 p2]) simp_all
  qed
qed

text \<open>
  C22: the words of an allocated structure: one per processor, zero, pairwise distinct, each
  inside the pool block the structure remembers, and on a line of its own on a multiprocessor.
\<close>

theorem ExAllocateCacheAwareRundownProtection_layout:
  assumes line: "line_ok Line Processors" and pool: "pool_ok alloc"
    and run: "ExAllocateCacheAwareRundownProtection alloc free Processors Line p s = (Some (h, ca), p', s')"
  shows "\<exists>n q q'. alloc n q = (PoolToFree ca, q') \<and> ca_fresh ca s' Processors Line (PoolToFree ca) (unat n)"
proof -
  obtain Padded n q q' where c: "Padded = (if Processors > 1 then Line else sizeof_EX_RUNDOWN_REF)"
    "RunRefSize ca = Padded" "Number ca = Processors" "alloc n q = (PoolToFree ca, q')" "PoolToFree ca \<noteq> 0"
    "s' = each_ref ExfInitializeRundownProtection ca s"
    "n = ucast (Padded * Processors) \<and> RunRefs ca = PoolToFree ca
       \<and> (Processors > 1 \<longrightarrow> EXP_IS_ALIGNED_ON_BOUNDARY (RunRefs ca) Padded)
     \<or> n = ucast (Padded * Processors + Padded) \<and> RunRefs ca = EXP_ALIGN_UP_PTR_ON_BOUNDARY (PoolToFree ca) Padded
       \<and> 1 < Processors"
    by (rule alloc_cases [OF run])
  obtain i where i: "3 \<le> i" "i < 16" "Line = 2 ^ i" and P: "0 < Processors" "Processors < 2 ^ 15"
    using line by (auto simp: line_ok_def)
  define j where "j = (if Processors > 1 then i else 3)"
  have j: "3 \<le> j" "j < 16" "Padded = 2 ^ j" "1 < Processors \<Longrightarrow> 2 ^ j = Line"
    using i c(1) by (simp_all add: j_def sizeof_EX_RUNDOWN_REF_def)
  have top: "unat (PoolToFree ca) + unat n \<le> 2 ^ 64" using pool c(4,5) by (auto simp: pool_ok_def)
  note size = sizes_exact [OF j(2) P(2)] and al = align_up [OF j(2), of "PoolToFree ca"]
  have "ca_fresh ca s' Processors Line (PoolToFree ca) (unat n)"
    unfolding c(6)
  proof (rule layout_fresh [of _ j])
    show "unat (RunRefs ca) + unat Processors * 2 ^ j \<le> unat (PoolToFree ca) + unat n"
      and "unat (PoolToFree ca) \<le> unat (RunRefs ca)"
      using c(7) top al(1,2) size by (auto simp: j(3))
    show "2 ^ j = Line \<and> unat (RunRefs ca) mod 2 ^ j = 0" if "1 < Processors"
      using that c(7) top al(3) size j(4) by (auto simp: j(3) is_aligned [OF j(2)])
  qed (use c j P top in simp_all)
  with c(4) show ?thesis by blast
qed

text \<open>A pool that hands out the address its state names, and counts the blocks.\<close>

definition sample_pool :: "ULONG_PTR \<Rightarrow> ULONG_PTR \<Rightarrow> ULONG_PTR \<times> ULONG_PTR" where
  "sample_pool n a = (if unat a + unat n + 8 < 2 ^ 64 then (a, a + n + 8) else (0, a))"

lemma sample_pool_ok: "pool_ok sample_pool"
  by (auto simp: pool_ok_def sample_pool_def split: if_splits)

lemma sample_line: "line_ok 64 2" "line_ok 64 1"
  by (auto simp: line_ok_def intro!: exI [of _ 6])

lemma sample_alloc:
  "ExAllocateCacheAwareRundownProtection sample_pool (\<lambda>_ p. p) 2 64 0x1000 s
    = (Some (0x1000, \<lparr>RunRefs = 0x10C0, PoolToFree = 0x10A8, RunRefSize = 64, Number = 2\<rparr>), 0x1170,
       each_ref ExfInitializeRundownProtection \<lparr>RunRefs = 0x10C0, PoolToFree = 0x10A8, RunRefSize = 64, Number = 2\<rparr> s)"
  by (simp add: ExAllocateCacheAwareRundownProtection_def sample_pool_def sizeof_EX_RUNDOWN_REF_CACHE_AWARE_def
      EXP_IS_ALIGNED_ON_BOUNDARY_def EXP_ALIGN_UP_PTR_ON_BOUNDARY_def Let_def)

theorem ExAllocateCacheAwareRundownProtection_layout_witness:
  "\<exists>ca p' s' n q q'. ExAllocateCacheAwareRundownProtection sample_pool (\<lambda>_ p. p) 2 64 0x1000 \<lparr>RrCount = (\<lambda>_. 7), blocks = Map.empty\<rparr>
      = (Some (0x1000, ca), p', s')
    \<and> sample_pool n q = (0x10A8, q') \<and> ca_fresh ca s' 2 64 0x10A8 (unat n)"
  using ExAllocateCacheAwareRundownProtection_layout [OF sample_line(1) sample_pool_ok sample_alloc]
    sample_alloc [of "\<lparr>RrCount = (\<lambda>_. 7), blocks = Map.empty\<rparr>"] by fastforce


text \<open>The blocks a pool has handed out, for an allocator that keeps track of them.\<close>

definition pool_tracks ::
  "(ULONG_PTR \<Rightarrow> 'p \<Rightarrow> ULONG_PTR \<times> 'p) \<Rightarrow> (ULONG_PTR \<Rightarrow> 'p \<Rightarrow> 'p) \<Rightarrow> ('p \<Rightarrow> ULONG_PTR multiset) \<Rightarrow> bool" where
  "pool_tracks alloc free out \<longleftrightarrow>
     (\<forall>n p a p'. alloc n p = (a, p') \<longrightarrow> out p' = (if a = 0 then out p else add_mset a (out p)))
     \<and> (\<forall>a p. out (free a p) = out p - {#a#})"

text \<open>
  C23: no path of the allocation leaks: without memory every block is given back and the words
  are untouched, else exactly the header and the remembered block are out, and freeing the
  structure gives both back.
\<close>

theorem ExAllocateCacheAwareRundownProtection_balanced:
  assumes "pool_tracks alloc free out"
  shows "case ExAllocateCacheAwareRundownProtection alloc free Processors Line p s of
      (None, p', s') \<Rightarrow> out p' = out p \<and> s' = s
    | (Some (h, ca), p', s') \<Rightarrow> out p' = out p + {#h, PoolToFree ca#}
        \<and> out (ExFreeCacheAwareRundownProtection free h ca p') = out p"
proof -
  obtain H p1 where 1: "alloc sizeof_EX_RUNDOWN_REF_CACHE_AWARE p = (H, p1)" by fastforce
  define Padded where P: "Padded = (if Processors > 1 then Line else sizeof_EX_RUNDOWN_REF)"
  obtain R p2 where 2: "alloc (ucast (Padded * Processors)) p1 = (R, p2)" by fastforce
  obtain R' p4 where 3: "alloc (ucast (Padded * Processors + Padded)) (free R p2) = (R', p4)" by fastforce
  have tr: "out p1 = (if H = 0 then out p else add_mset H (out p))"
    "out p2 = (if R = 0 then out p1 else add_mset R (out p1))"
    "out p4 = (if R' = 0 then out (free R p2) else add_mset R' (out (free R p2)))"
    "out (free a q) = out q - {#a#}" for a q
    using assms 1 2 3 unfolding pool_tracks_def by metis+
  show ?thesis
    unfolding ExAllocateCacheAwareRundownProtection_def 1 Let_def P [symmetric] split_conv 2 3
    by (auto simp: tr ExFreeCacheAwareRundownProtection_def)
qed

text \<open>A pool that remembers its blocks and hands out addresses from a counter.\<close>

definition counting_pool :: "ULONG_PTR \<Rightarrow> ULONG_PTR multiset \<times> ULONG_PTR \<Rightarrow> ULONG_PTR \<times> ULONG_PTR multiset \<times> ULONG_PTR" where
  "counting_pool n p = (if snd p = 0 then (0, p) else (snd p, add_mset (snd p) (fst p), snd p + n + 8))"

theorem ExAllocateCacheAwareRundownProtection_balanced_witness:
  "fst (fst (snd (ExAllocateCacheAwareRundownProtection counting_pool (\<lambda>a p. (fst p - {#a#}, snd p)) 2 64 ({#}, 0x1000)
    \<lparr>RrCount = (\<lambda>_. 7), blocks = Map.empty\<rparr>))) = {#0x1000, 0x10A8#}"
proof -
  have t: "pool_tracks counting_pool (\<lambda>a p. (fst p - {#a#}, snd p)) fst"
    by (auto simp: pool_tracks_def counting_pool_def)
  show ?thesis
    using ExAllocateCacheAwareRundownProtection_balanced [OF t, where Processors = 2 and Line = 64 and p = "({#}, 0x1000)"
        and s = "\<lparr>RrCount = (\<lambda>_. 7), blocks = Map.empty\<rparr>"]
    by (simp add: ExAllocateCacheAwareRundownProtection_def counting_pool_def sizeof_EX_RUNDOWN_REF_CACHE_AWARE_def
        EXP_IS_ALIGNED_ON_BOUNDARY_def EXP_ALIGN_UP_PTR_ON_BOUNDARY_def Let_def)
qed

lemma unat_header: "unat sizeof_EX_RUNDOWN_REF_CACHE_AWARE = 24"
  by (simp add: sizeof_EX_RUNDOWN_REF_CACHE_AWARE_def)

lemma embedded_array:
  assumes "line_ok Line Processors" "1 < Processors"
  obtains j where "Line = 2 ^ j" "3 \<le> j" "j < 16"
    "unat (Line * (Processors + 1)) = unat Processors * 2 ^ j + 2 ^ j"
    "unat (ExSizeOfRundownProtectionCacheAware Processors Line) = 24 + (unat Processors * 2 ^ j + 2 ^ j)"
    "(ucast (ExSizeOfRundownProtectionCacheAware Processors Line - sizeof_EX_RUNDOWN_REF_CACHE_AWARE) :: ULONG)
       = Line * (Processors + 1)"
proof -
  obtain j where j: "3 \<le> j" "j < 16" "Line = 2 ^ j" and P: "Processors < 2 ^ 15"
    using assms(1) by (auto simp: line_ok_def)
  have pw: "(2::nat) ^ j \<le> 2 ^ 15" using j(2) by (intro power_increasing) simp_all
  have P': "unat Processors < 2 ^ 15" using P by (simp add: word_less_nat_alt)
  have le: "unat Processors * 2 ^ j \<le> 2 ^ 15 * 2 ^ 15" using pw P' by (intro mult_le_mono) simp_all
  have u: "unat (ucast (Line * (Processors + 1)) :: ULONG_PTR) = unat Processors * 2 ^ j + 2 ^ j"
    using sizes_exact(2) [OF j(2) P] by (simp add: j(3) distrib_left)
  have l: "unat (Line * (Processors + 1)) < 2 ^ 32" using unat_bound [of "Line * (Processors + 1)"] by simp
  have a: "unat (Line * (Processors + 1)) = unat Processors * 2 ^ j + 2 ^ j"
    using u l by (subst (asm) unat_ucast_small) simp_all
  have "unat (sizeof_EX_RUNDOWN_REF_CACHE_AWARE + ucast (Line * (Processors + 1))) = 24 + (unat Processors * 2 ^ j + 2 ^ j)"
    using u le pw by (subst unat_add_small) (simp_all add: unat_header)
  moreover have "(ucast (ucast (Line * (Processors + 1)) :: ULONG_PTR) :: ULONG) = Line * (Processors + 1)"
    by (rule word_eqI_unat) (use u a le pw in \<open>simp add: unat_ucast_mod\<close>)
  ultimately show thesis
    using assms(2) j a by (intro that) (simp_all add: ExSizeOfRundownProtectionCacheAware_def Let_def)
qed

text \<open>
  C24: the structure a caller embeds: with the size \<open>ExSizeOfRundownProtectionCacheAware\<close> asks for,
  the initialization recovers the number of processors from the size alone, and its words, zero
  and pairwise distinct, lie inside the caller's block behind the header.
\<close>

theorem ExInitializeRundownProtectionCacheAware_layout:
  assumes line: "line_ok Line Processors"
    and top: "unat a + unat (ExSizeOfRundownProtectionCacheAware Processors Line) \<le> 2 ^ 64"
    and run: "ExInitializeRundownProtectionCacheAware a (ExSizeOfRundownProtectionCacheAware Processors Line) Line s = (ca, s')"
  shows "ca_fresh ca s' Processors Line (a + 24) (unat (ExSizeOfRundownProtectionCacheAware Processors Line) - 24)"
proof (cases "1 < Processors")
  case True
  obtain j where j: "Line = 2 ^ j" "3 \<le> j" "j < 16"
    and A: "unat (Line * (Processors + 1)) = unat Processors * 2 ^ j + 2 ^ j"
    and Sz: "unat (ExSizeOfRundownProtectionCacheAware Processors Line) = 24 + (unat Processors * 2 ^ j + 2 ^ j)"
    and ar: "(ucast (ExSizeOfRundownProtectionCacheAware Processors Line - sizeof_EX_RUNDOWN_REF_CACHE_AWARE) :: ULONG)
       = Line * (Processors + 1)"
    by (rule embedded_array [OF line True])
  have P: "1 < unat Processors" "Processors < 2 ^ 15" "0 < Processors" using True line by (simp_all add: word_less_nat_alt line_ok_def)
  have two: "(2::nat) ^ 3 \<le> 2 ^ j" using j(2) by (rule power_increasing) simp
  have three: "2 * 2 ^ j \<le> unat Processors * (2::nat) ^ j" using P(1) by (intro mult_le_mono1) simp
  have n8: "Line * (Processors + 1) \<noteq> sizeof_EX_RUNDOWN_REF"
  proof
    assume "Line * (Processors + 1) = sizeof_EX_RUNDOWN_REF"
    then have "unat (Line * (Processors + 1)) = 8" by (simp only:) (simp add: sizeof_EX_RUNDOWN_REF_def)
    moreover have "(8::nat) \<le> 2 ^ j" using two by simp
    ultimately show False using three A by linarith
  qed
  have div: "Line * (Processors + 1) div Line - 1 = Processors"
  proof (rule word_eqI_unat)
    have "unat (Line * (Processors + 1) div Line) = unat Processors + 1"
      unfolding unat_div_word A using unat_line [OF j(3)] by (simp add: j(1))
    then show "unat (Line * (Processors + 1) div Line - 1) = unat Processors" by (simp add: unat_sub_small)
  qed
  have b: "unat (a + 24) = unat a + 24" using top Sz two by (subst unat_add_small) simp_all
  note al = align_up [OF j(3), of "a + 24"]
  have ca: "ca = \<lparr>RunRefs = EXP_ALIGN_UP_PTR_ON_BOUNDARY (a + 24) Line, PoolToFree = 0x0BADCA11,
      RunRefSize = Line, Number = Processors\<rparr>" and s': "s' = each_ref ExfInitializeRundownProtection ca s"
    using run n8 unfolding ExInitializeRundownProtectionCacheAware_def Let_def ar div
    by (auto simp: sizeof_EX_RUNDOWN_REF_CACHE_AWARE_def)
  show ?thesis
    unfolding s' by (rule layout_fresh [of _ j]) (use ca j P al b Sz top in simp_all)
next
  case False
  then have P: "Processors = 1" using line by (auto simp: line_ok_def word_less_nat_alt word_unat_eq_iff)
  have b: "unat (a + 24) = unat a + 24"
    using top by (subst unat_add_small) (simp_all add: P ExSizeOfRundownProtectionCacheAware_def
        sizeof_EX_RUNDOWN_REF_CACHE_AWARE_def sizeof_EX_RUNDOWN_REF_def)
  have ca: "ca = \<lparr>RunRefs = a + 24, PoolToFree = 0x0BADCA11, RunRefSize = 8, Number = 1\<rparr>"
    and s': "s' = each_ref ExfInitializeRundownProtection ca s"
    using run by (auto simp: ExInitializeRundownProtectionCacheAware_def P ExSizeOfRundownProtectionCacheAware_def
        sizeof_EX_RUNDOWN_REF_CACHE_AWARE_def sizeof_EX_RUNDOWN_REF_def Let_def)
  show ?thesis
    unfolding s' by (rule layout_fresh [of _ 3])
      (use ca P b top in \<open>simp_all add: ExSizeOfRundownProtectionCacheAware_def
        sizeof_EX_RUNDOWN_REF_CACHE_AWARE_def sizeof_EX_RUNDOWN_REF_def\<close>)
qed

theorem ExInitializeRundownProtectionCacheAware_layout_witness:
  "\<exists>ca s'. ExInitializeRundownProtectionCacheAware 0x1000 216 64 \<lparr>RrCount = (\<lambda>_. 7), blocks = Map.empty\<rparr> = (ca, s')
    \<and> ca_fresh ca s' 2 64 0x1018 192"
proof -
  have sz: "ExSizeOfRundownProtectionCacheAware 2 64 = 216"
    by (simp add: ExSizeOfRundownProtectionCacheAware_def sizeof_EX_RUNDOWN_REF_CACHE_AWARE_def)
  obtain ca s' where run: "ExInitializeRundownProtectionCacheAware 0x1000 216 64 \<lparr>RrCount = (\<lambda>_. 7), blocks = Map.empty\<rparr> = (ca, s')"
    by fastforce
  then show ?thesis
    using ExInitializeRundownProtectionCacheAware_layout [OF sample_line(1), of "0x1000" _ ca s'] by (simp add: sz)
qed


section \<open>The rundown\<close>

lemma ca_idle_thread:
  assumes inv: "ca_inv ca wb t" and "\<not> ca_live t" "outstanding t = 0" "u \<in> set (thr t)"
  shows "held u = 0 \<and> (pc u = Idle \<or> 0 < pend (pc u))"
proof -
  have "thread_ok (ca_refs ca) wb False (pc u) (held u)"
    using assms by (auto simp: ca_inv_def users_inv_def reinit_ok_def threads_ok_def)
  then show ?thesis using assms(3,4) by (cases "pc u") (auto simp: outstanding_def amount_ok_def)
qed

lemma again_idle: "again_inv ca wb t \<Longrightarrow> u \<in> set (thr t) \<Longrightarrow> held u = 0 \<and> (pc u = Idle \<or> 0 < pend (pc u))"
proof -
  assume "again_inv ca wb t" and u: "u \<in> set (thr t)"
  then have ok: "threads_ok (ca_refs ca) wb True t" "outstanding t = 0" "wakers t = 0"
    by (auto simp: users_inv_def again_phase_def)
  have "threads_ok (ca_refs ca) wb False t" by (rule threads_ok_leave [OF ok refl refl refl])
  then have "thread_ok (ca_refs ca) wb False (pc u) (held u)" using u by (simp add: threads_ok_def)
  then show ?thesis using ok(2) u by (cases "pc u") (auto simp: outstanding_def amount_ok_def)
qed

text \<open>
  C19: when \<open>ExWaitForRundownProtectionReleaseCacheAware\<close> has returned, no thread owns protection,
  none is inside a release and no wake-up is owed, on whichever processors it was taken and
  given back; this stays so until the object is reinitialized, also when the wait is repeated.
  The clients are quiet: they take no step while a reinitialization is in progress.
\<close>

theorem ca_rundown_complete:
  assumes "ca_start ca wb s" "(ca_quiet ca wb)\<^sup>*\<^sup>* s t" "cwpc t \<in> {CDone, CCompleted} \<union> range CCompleting" "u \<in> set (thr t)"
  shows "held u = 0 \<and> (pc u = Idle \<or> 0 < pend (pc u))"
proof -
  have any: "ca_any ca wb t" by (rule caquiet.reachable_inv [OF assms(1,2)])
  then have inv: "ca_inv ca wb t" using assms(3) by (auto simp: ca_any_def users_inv_def again_phase_def ca_live_def)
  moreover have "\<not> ca_live t" "outstanding t = 0" using assms(3) inv by (auto simp: ca_live_def ca_unfold)
  ultimately show ?thesis using assms(4) by (rule ca_idle_thread)
qed

text \<open>
  C20: as long as the clients are quiet, that is take no step while a reinitialization is in
  progress, every turn of a release and every wake-up finds its wait block, whatever processors
  the protections were taken on and however often the rundown thread waits, completes and
  reinitializes. The code does not enforce the condition; the end of this theory shows a race that
  happens without it.
\<close>

theorem ca_no_dangling_block:
  assumes "ca_start ca wb s" "(ca_quiet ca wb)\<^sup>*\<^sup>* s t" "u \<in> set (thr t)"
  shows "(\<forall>q k v. pc u = RelTurn q k v \<longrightarrow> release_turn k q v t \<noteq> None)
    \<and> (\<forall>b. pc u = Waking b \<longrightarrow> KeSetEvent_block b t \<noteq> None)"
proof -
  have "ca_any ca wb t" by (rule caquiet.reachable_inv [OF assms(1,2)])
  then consider "again_inv ca wb t" | "ca_inv ca wb t" "reinit_ok ca wb t" | "ca_inv ca wb t" "\<not> reinit_ok ca wb t"
    unfolding ca_any_def by blast
  then show ?thesis
  proof cases
    case 1
    then show ?thesis using again_idle [OF 1 assms(3)] by auto
  next
    case 2
    then have "\<not> ca_live t" "outstanding t = 0" by (auto simp: reinit_ok_def ca_live_def)
    from ca_idle_thread [OF 2(1) this assms(3)] show ?thesis by auto
  next
    case 3
    then show ?thesis using cad.blocks_found [OF _ assms(3)] unfolding ca_inv_def by blast
  qed
qed

text \<open>
  C21: a rundown thread inside the wait can always finish: it marks the words that are left, adds
  up, and the holders give back what they have. This is under two conditions on the callers: the
  clients are quiet while a reinitialization is in progress, and the wait is not called again
  after \<open>ExRundownCompletedCacheAware\<close> before the object is reinitialized. The code enforces
  neither; the end of this theory shows that a wait that is repeated does not return.
\<close>

theorem ca_terminates:
  assumes "ca_start ca wb s" "(ca_once ca wb)\<^sup>*\<^sup>* s t" "ca_live t"
  shows "\<exists>u. (ca_once ca wb)\<^sup>*\<^sup>* t u \<and> cwpc u = CDone"
proof -
  have inv: "ca_inv ca wb t" by (rule casys.reachable_inv [OF assms(1,2)])
  show ?thesis
    using assms(3) ca_loop_ends [OF inv] ca_turn_ends [OF inv] ca_add_ends [OF inv] ca_blocked_ends [OF inv]
    by (cases "cwpc t") (simp_all add: ca_live_def)
qed

section \<open>The limits of the interface\<close>

text \<open>The rundown thread running alone, without a second wait.\<close>

definition cwait_on :: "EX_RUNDOWN_REF_CACHE_AWARE \<Rightarrow> ULONG_PTR \<Rightarrow> casys \<Rightarrow> casys \<Rightarrow> bool" where
  "cwait_on ca wb s t \<longleftrightarrow> cwait_step ca wb s t \<and> cwpc s \<noteq> CCompleted"

lemma cwait_ons:
  "(cwait_on ca wb)\<^sup>*\<^sup>* s t \<Longrightarrow> (cwait_step ca wb)\<^sup>*\<^sup>* s t"
  "(cwait_on ca wb)\<^sup>*\<^sup>* s t \<Longrightarrow> (ca_once ca wb)\<^sup>*\<^sup>* s t"
  by (induction rule: rtranclp_induct) (auto simp: cwait_on_def intro: ca_once_wait rtranclp.rtrancl_into_rtrancl)

lemma cwait_quiet: "(cwait_step ca wb)\<^sup>*\<^sup>* s t \<Longrightarrow> (ca_quiet ca wb)\<^sup>*\<^sup>* s t"
  by (erule mono_rtranclp [rule_format, rotated]) (simp add: ca_quiet_def ca_wait)

lemma once_quiet: "(ca_once ca wb)\<^sup>*\<^sup>* s t \<Longrightarrow> (ca_quiet ca wb)\<^sup>*\<^sup>* s t"
  by (erule mono_rtranclp [rule_format, rotated]) (simp add: ca_once_def)

text \<open>The marking loop.\<close>

lemma mark_run:
  assumes d: "ca_distinct ca"
  shows "cwpc s = CLoop i T \<Longrightarrow> unat i \<le> cells ca \<Longrightarrow> \<exists>s'. (cwait_on ca wb)\<^sup>*\<^sup>* s s'
    \<and> cwpc s' = CLoop (Number ca) (T + left ca s (unat i)) \<and> blocks s' = blocks s \<and> thr s' = thr s
    \<and> started s' = started s \<and> gone s' = gone s
    \<and> (\<forall>j<cells ca. cell ca s' j = (if j < unat i then cell ca s j else wb OR EX_RUNDOWN_ACTIVE))"
proof (induction "cells ca - unat i" arbitrary: s i T)
  case 0
  then have "i = Number ca" by (simp add: cells_def word_unat_eq_iff)
  then show ?case using 0 by (intro exI [of _ s]) (simp add: left_def cells_def)
next
  case (Suc n)
  then have i: "i < Number ca" by (simp add: cells_def word_less_nat_alt)
  note ref = ref_below [OF i]
  have i1: "unat (i + 1) = unat i + 1"
    using ref unat_bound [of "Number ca"] by (subst unat_add_small) (simp_all add: cells_def)
  let ?v = "cell ca s (unat i)"
  let ?s1 = "goto wb (CTurn i ?v T) s"
  let ?m = "?s1\<lparr>RrCount := (RrCount s)(refno ca (unat i) := wb OR EX_RUNDOWN_ACTIVE)\<rparr>"
  let ?s2 = "goto wb (CLoop (i + 1) (T + ?v)) ?m"
  have "cwait_step ca wb s ?s1"
    by (rule cwait_step.cwait_loop [OF Suc.prems(1)])
      (simp add: ExWaitForRundownProtectionReleaseCacheAware_loop_def i ref cell_def)
  moreover have "cwait_step ca wb ?s1 ?s2"
    by (rule cwait_step.cwait_turn [of _ i ?v T])
      (simp_all add: ExWaitForRundownProtectionReleaseCacheAware_turn_def InterlockedCompareExchangePointer_def ref cell_def)
  ultimately have "cwait_on ca wb s ?s1" "cwait_on ca wb ?s1 ?s2" using Suc.prems(1) by (simp_all add: cwait_on_def)
  then have st: "(cwait_on ca wb)\<^sup>*\<^sup>* s ?s2" by (meson converse_rtranclp_into_rtranclp rtranclp.rtrancl_refl)
  have c: "cell ca ?m j = (if j = unat i then wb OR EX_RUNDOWN_ACTIVE else cell ca s j)" if "j < cells ca" for j
    using cell_upd [OF d that conjunct2 [OF ref], of ?s1] by simp
  have "left ca ?s2 (unat i + 1) = left ca s (unat i + 1)" unfolding left_def by (rule sum.cong) (auto simp: c)
  then have L: "T + ?v + left ca ?s2 (unat (i + 1)) = T + left ca s (unat i)"
    using ref i1 by (simp add: left_def sum.atLeast_Suc_lessThan add.assoc)
  have n: "n = cells ca - unat (i + 1)" using Suc.hyps(2) i1 by simp
  obtain s' where s': "(cwait_on ca wb)\<^sup>*\<^sup>* ?s2 s'" "cwpc s' = CLoop (Number ca) (T + left ca s (unat i))"
    "blocks s' = blocks s" "thr s' = thr s" "started s' = started s" "gone s' = gone s"
    "\<forall>j<cells ca. cell ca s' j = (if j < unat (i + 1) then cell ca ?s2 j else wb OR EX_RUNDOWN_ACTIVE)"
    using Suc.hyps(1) [OF n, of ?s2 "T + ?v"] i1 ref unfolding L by auto
  have "\<forall>j<cells ca. cell ca s' j = (if j < unat i then cell ca s j else wb OR EX_RUNDOWN_ACTIVE)"
    using s'(7) i1 by (auto simp: c)
  with s' st show ?case by (meson rtranclp_trans)
qed


text \<open>
  A rundown thread that blocks while nobody holds protection: the contract of the threads holds
  with a block that is never live, so no thread will ever signal it.
\<close>

definition hang_live :: "casys \<Rightarrow> bool" where
  "hang_live s = False"

definition hang_phase :: "EX_RUNDOWN_REF_CACHE_AWARE \<Rightarrow> ULONG_PTR \<Rightarrow> casys \<Rightarrow> nat \<Rightarrow> nat \<Rightarrow> bool" where
  "hang_phase ca wb s n k \<longleftrightarrow> n = 0 \<and> cwpc s = CWait \<and> (\<forall>r\<in>ca_refs ca. odd (RrCount s r))
     \<and> (\<exists>w. blocks s wb = Some w \<and> WakeEvent w = Some False)"

interpretation hang: rundown_protocol "ca_refs ca" wb hang_live "hang_phase ca wb" for ca wb
  by unfold_locales (auto simp: hang_phase_def hang_live_def)

lemma hang_blocked:
  assumes inv: "users_inv (ca_refs ca) wb hang_live (hang_phase ca wb) s"
  shows "cwpc s = CWait" "wait_event wb s = None"
proof -
  obtain w where "cwpc s = CWait" "blocks s wb = Some w" "WakeEvent w = Some False"
    using inv unfolding users_inv_def hang_phase_def by blast
  then show "cwpc s = CWait" "wait_event wb s = None" by (simp_all add: wait_event_def)
qed

lemma blocked_no_step: "cwait_step ca wb s t \<Longrightarrow> cwpc s = CWait \<Longrightarrow> wait_event wb s = None \<Longrightarrow> False"
  by (erule cwait_step.cases) simp_all

lemma hang_step:
  assumes inv: "users_inv (ca_refs ca) wb hang_live (hang_phase ca wb) s" and step: "ca_step ca wb s t"
  shows "users_inv (ca_refs ca) wb hang_live (hang_phase ca wb) t"
proof -
  have "user_step (ca_refs ca) s t"
    using step blocked_no_step [OF _ hang_blocked [OF inv]] by (auto elim: ca_step.cases)
  then show ?thesis by (rule hang.user_step_inv [OF _ inv])
qed

lemma hang_steps:
  "(ca_step ca wb)\<^sup>*\<^sup>* s t \<Longrightarrow> users_inv (ca_refs ca) wb hang_live (hang_phase ca wb) s \<Longrightarrow> cwpc t = CWait"
proof -
  have "(ca_step ca wb)\<^sup>*\<^sup>* s t \<Longrightarrow> users_inv (ca_refs ca) wb hang_live (hang_phase ca wb) s \<Longrightarrow>
      users_inv (ca_refs ca) wb hang_live (hang_phase ca wb) t"
    by (induction rule: rtranclp_induct) (auto intro: hang_step)
  then show "(ca_step ca wb)\<^sup>*\<^sup>* s t \<Longrightarrow> users_inv (ca_refs ca) wb hang_live (hang_phase ca wb) s \<Longrightarrow> cwpc t = CWait"
    by (auto simp: users_inv_def hang_phase_def)
qed

lemma marks_total:
  assumes "\<forall>j<cells ca. cell ca s j = EX_RUNDOWN_ACTIVE" "2 \<le> Number ca"
  shows "left ca s 0 \<noteq> 0" "drop_bit EX_RUNDOWN_COUNT_SHIFT (left ca s 0) \<noteq> 0"
proof -
  have "left ca s 0 = word_of_nat (cells ca)" using assms(1) by (simp add: left_def EX_RUNDOWN_ACTIVE_def)
  moreover have "unat (word_of_nat (cells ca) :: ULONG_PTR) = cells ca"
    using unat_bound [of "Number ca"] by (intro unat_word_of_nat) (simp add: cells_def)
  ultimately have u: "unat (left ca s 0) = cells ca" by simp
  have c: "2 \<le> cells ca" using assms(2) by (simp add: cells_def word_le_nat_alt)
  show "left ca s 0 \<noteq> 0" using u c by auto
  have "unat (drop_bit EX_RUNDOWN_COUNT_SHIFT (left ca s 0)) = cells ca div 2"
    using u by (simp add: EX_RUNDOWN_COUNT_SHIFT_def drop_bit_eq_div unat_div_word)
  then show "drop_bit EX_RUNDOWN_COUNT_SHIFT (left ca s 0) \<noteq> 0" using c by auto
qed

lemma hang_run:
  assumes d: "ca_distinct ca" and marks: "\<forall>j<cells ca. cell ca s j = EX_RUNDOWN_ACTIVE" and two: "2 \<le> Number ca"
  shows "\<exists>u. (cwait_step ca wb)\<^sup>*\<^sup>* (enter_wait wb w s) u \<and> cwpc u = CWait \<and> thr u = thr s \<and> started u = started s
    \<and> gone u = gone s \<and> (\<forall>r\<in>ca_refs ca. odd (RrCount u r)) \<and> (\<exists>w. blocks u wb = Some w \<and> WakeEvent w = Some False)"
proof -
  let ?T = "left ca s 0"
  have e: "cwpc (enter_wait wb w s) = CLoop 0 0" "left ca (enter_wait wb w s) 0 = ?T"
    by (simp_all add: enter_wait_def push_block_def)
  obtain s1 where s1: "(cwait_step ca wb)\<^sup>*\<^sup>* (enter_wait wb w s) s1" "cwpc s1 = CLoop (Number ca) ?T"
    "blocks s1 = blocks (enter_wait wb w s)" "thr s1 = thr s" "started s1 = started s" "gone s1 = gone s"
    "\<forall>j<cells ca. cell ca s1 j = wb OR EX_RUNDOWN_ACTIVE"
    using mark_run [OF d e(1), of wb] e(2) cwait_ons(1) by (force simp: enter_wait_def push_block_def)
  have b1: "blocks s1 wb = Some (w\<lparr>WbCount := 0, WakeEvent := None\<rparr>)"
    using s1(3) by (simp add: enter_wait_def push_block_def)
  define s2 where "s2 = goto wb (CAdd (drop_bit EX_RUNDOWN_COUNT_SHIFT ?T)) (KeInitializeEvent_block wb s1)"
  have "cwait_step ca wb s1 s2"
    unfolding s2_def by (rule cwait_step.cwait_loop [OF s1(2)])
      (simp add: ExWaitForRundownProtectionReleaseCacheAware_loop_def marks_total(1) [OF marks two])
  moreover obtain s3 where s3: "ExWaitForRundownProtectionReleaseCacheAware_add wb (drop_bit EX_RUNDOWN_COUNT_SHIFT ?T) s2
      = Some (s3, CWait)" "RrCount s3 = RrCount s1" "thr s3 = thr s1" "started s3 = started s1" "gone s3 = gone s1"
      "\<exists>w. blocks s3 wb = Some w \<and> WakeEvent w = Some False"
    using b1 marks_total(2) [OF marks two]
    by (auto simp: ExWaitForRundownProtectionReleaseCacheAware_add_def InterlockedExchangeAdd64_def
        KeInitializeEvent_block_def s2_def)
  moreover have "cwait_step ca wb s2 (goto wb CWait s3)"
    by (rule cwait_step.cwait_add [OF _ s3(1)]) (simp add: s2_def)
  ultimately have "(cwait_step ca wb)\<^sup>*\<^sup>* (enter_wait wb w s) (goto wb CWait s3)"
    using s1(1) by (meson rtranclp.rtrancl_into_rtrancl)
  moreover have "odd (RrCount (goto wb CWait s3) r)" if "r \<in> ca_refs ca" for r
    using ca_ref_cell [OF d that, of s1] s1(7) s3(2) odd_marked [of wb] by auto
  ultimately show ?thesis using s3 s1(4-6) by (intro exI [of _ "goto wb CWait s3"]) auto
qed

text \<open>
  C25: \<open>ExRundownCompletedCacheAware\<close> says it makes another wait safe, but with two processors or
  more a second wait never ends: the marks of the words are added up as if they were counts, and
  the thread blocks although nobody holds protection.
\<close>

theorem wait_after_completed_hangs:
  assumes "ca_start ca wb s" "(ca_quiet ca wb)\<^sup>*\<^sup>* s t" "cwpc t = CCompleted" "2 \<le> Number ca"
  shows "cwait_step ca wb t (enter_wait wb w t) \<and> (\<exists>u. (cwait_step ca wb)\<^sup>*\<^sup>* (enter_wait wb w t) u \<and> outstanding u = 0
    \<and> (\<forall>v. (ca_step ca wb)\<^sup>*\<^sup>* u v \<longrightarrow> cwpc v = CWait))"
proof -
  have t: "ca_distinct ca" "\<forall>j<cells ca. cell ca t j = EX_RUNDOWN_ACTIVE" "outstanding t = 0"
      "threads_ok (ca_refs ca) wb False t"
    using caquiet.reachable_inv [OF assms(1,2)] assms(3)
    by (auto simp: ca_any_def users_inv_def [of _ _ _ "again_phase ca wb"] again_phase_def ca_unfold ca_live_def)
  obtain u where u: "(cwait_step ca wb)\<^sup>*\<^sup>* (enter_wait wb w t) u" "cwpc u = CWait" "thr u = thr t" "started u = started t"
    "gone u = gone t" "\<forall>r\<in>ca_refs ca. odd (RrCount u r)" "\<exists>w. blocks u wb = Some w \<and> WakeEvent w = Some False"
    using hang_run [OF t(1,2) assms(4)] by blast
  have n: "outstanding u = 0" using t(3) counts_cong [OF u(3)] by simp
  have "users_inv (ca_refs ca) wb hang_live (hang_phase ca wb) u"
    using threads_ok_enter [OF t(4) u(3-5)] n u(2,6,7) by (simp add: users_inv_def hang_phase_def hang_live_def)
  then show ?thesis using u(1) n hang_steps assms(3) by (auto intro: cwait_step.cwait_call)
qed


text \<open>A rundown of unused words, up to the reset of the first word.\<close>

lemma reinit_run:
  assumes st: "ca_start ca wb s" and two: "2 \<le> Number ca"
  shows "\<exists>t. (ca_once ca wb)\<^sup>*\<^sup>* s t \<and> cwpc t = CReinit 1 \<and> thr t = thr s \<and> started t = 0 \<and> blocks t wb = None
    \<and> cell ca t 0 = 0 \<and> cell ca t 1 = wb OR EX_RUNDOWN_ACTIVE"
proof -
  have d: "ca_distinct ca" and c: "2 \<le> cells ca" and idle: "cwpc s = CIdle" "started s = 0"
    using st two by (simp_all add: ca_start_def cells_def word_le_nat_alt)
  let ?e = "enter_wait wb undefined s"
  have e: "cwpc ?e = CLoop 0 0" "left ca ?e 0 = 0"
    using st by (simp_all add: enter_wait_def push_block_def left_def ca_start_def)
  obtain s1 where s1: "(cwait_on ca wb)\<^sup>*\<^sup>* ?e s1" "cwpc s1 = CLoop (Number ca) 0" "thr s1 = thr s" "started s1 = started s"
    "\<forall>j<cells ca. cell ca s1 j = wb OR EX_RUNDOWN_ACTIVE"
    using mark_run [OF d e(1), of wb] e(2) by (auto simp: enter_wait_def push_block_def)
  define s2 s3 where "s2 = goto wb CDone s1" and "s3 = goto wb (CReinit 0) s2"
  define s4 where "s4 = goto wb (CReinit 1) (s3\<lparr>RrCount := (RrCount s3)(refno ca 0 := 0)\<rparr>)"
  have "cwait_step ca wb s ?e" by (rule cwait_step.cwait_call) (simp add: idle(1))
  moreover have "cwait_step ca wb s1 s2"
    unfolding s2_def by (rule cwait_step.cwait_loop [OF s1(2)]) (simp add: ExWaitForRundownProtectionReleaseCacheAware_loop_def)
  moreover have "cwait_step ca wb s2 s3"
    unfolding s3_def by (rule cwait_step.creinit_call) (simp add: s2_def)
  moreover have "ExReInitializeRundownProtectionCacheAware ca 0 s3 = (s3\<lparr>RrCount := (RrCount s3)(refno ca 0 := 0)\<rparr>, CReinit 1)"
    using two by (simp add: ExReInitializeRundownProtectionCacheAware_def InterlockedExchangePointer_def refno_def
        word_less_nat_alt word_le_nat_alt)
  then have "cwait_step ca wb s3 s4" unfolding s4_def by (intro cwait_step.creinit) (simp_all add: s3_def)
  ultimately have "cwait_on ca wb s ?e" "cwait_on ca wb s1 s2" "cwait_on ca wb s2 s3" "cwait_on ca wb s3 s4"
    using idle(1) s1(2) by (simp_all add: cwait_on_def s2_def s3_def)
  then have "(cwait_on ca wb)\<^sup>*\<^sup>* s s4"
    using s1(1) by (meson converse_rtranclp_into_rtranclp rtranclp.rtrancl_into_rtrancl)
  moreover have "cell ca s4 0 = 0" "cell ca s4 1 = wb OR EX_RUNDOWN_ACTIVE"
    using c s1(5) cell_upd [OF d, of _ 0 s3] by (simp_all add: s4_def s3_def s2_def)
  ultimately show ?thesis
    using s1(3,4) idle(2) by (intro exI [of _ s4]) (auto simp: s4_def s3_def s2_def intro: cwait_ons)
qed

text \<open>
  C26: \<open>ExReInitializeRundownProtectionCacheAware\<close> resets one word at a time, so it needs clients
  that stay away: a thread that takes protection on a word already reset and gives it back on one
  not yet reset decrements the count of a wait block that is gone. The rundown up to there is an
  ordinary one, waited for once and without client steps during the reset.
\<close>

theorem reinit_race:
  assumes st: "ca_start ca wb s" and two: "2 \<le> Number ca" and some: "thr s \<noteq> []"
  shows "\<exists>t u q k v. (ca_once ca wb)\<^sup>*\<^sup>* s t \<and> cwpc t = CReinit 1 \<and> (user_step (ca_refs ca))\<^sup>*\<^sup>* t u
    \<and> pc (thr u ! 0) = RelTurn q k v \<and> release_turn k q v u = None"
proof -
  obtain t where t: "(ca_once ca wb)\<^sup>*\<^sup>* s t" "cwpc t = CReinit 1" "thr t = thr s" "started t = 0" "blocks t wb = None"
      "RrCount t (refno ca 0) = 0" "RrCount t (refno ca 1) = wb OR EX_RUNDOWN_ACTIVE"
    using reinit_run [OF st two] by (auto simp: cell_def)
  have c: "2 \<le> cells ca" using two by (simp add: cells_def word_le_nat_alt)
  have refs: "refno ca 0 \<in> ca_refs ca" "refno ca 1 \<in> ca_refs ca" "refno ca 0 \<noteq> refno ca 1"
    using c st refno_inj [of ca 0 1] by (auto simp: ca_refs_eq ca_start_def)
  have th: "0 < length (thr t)" "pc (thr t ! 0) = Idle" "held (thr t ! 0) = 0" and wb: "even wb"
    using st some t(3) active_odd [of wb] by (auto simp: ca_start_def list_all_length)
  define u1 where "u1 = set_thr 0 (AcqFast (refno ca 0) 0) 0 (t\<lparr>started := 1\<rparr>)"
  define u2 where "u2 = set_thr 0 Idle 1 (u1\<lparr>RrCount := (RrCount u1)(refno ca 0 := 2)\<rparr>)"
  define u3 where "u3 = set_thr 0 (RelRead (refno ca 1) None) 1 u2"
  define u4 where "u4 = set_thr 0 (RelTurn (refno ca 1) None (wb OR EX_RUNDOWN_ACTIVE)) 1 u3"
  note defs = u1_def u2_def u3_def u4_def set_thr_def
  have "user_step (ca_refs ca) t u1"
    using user_step.acq_fast_call [OF th(1) refl th(2) refs(1)] th t by (simp add: u1_def)
  moreover have "user_step (ca_refs ca) u1 u2"
    using user_step.acq_fast [of 0 u1 _ "refno ca 0" 0 "u1\<lparr>RrCount := (RrCount u1)(refno ca 0 := 2)\<rparr>" True "ca_refs ca"] th t
    by (simp add: u2_def u1_def set_thr_def acquire_fast_eq)
  moreover have "user_step (ca_refs ca) u2 u3"
    using user_step.rel_call [of 0 u2 _ "refno ca 1" "ca_refs ca" None] th refs by (simp add: defs amount_def)
  moreover have "user_step (ca_refs ca) u3 u4"
    using user_step.rel_read [of 0 u3 _ "refno ca 1" None "ca_refs ca"] th t refs by (simp add: defs)
  ultimately have "(user_step (ca_refs ca))\<^sup>*\<^sup>* t u4" by (meson converse_rtranclp_into_rtranclp rtranclp.rtrancl_refl)
  moreover have "release_turn None (refno ca 1) (wb OR EX_RUNDOWN_ACTIVE) u4 = None"
    using t(5) unmark [OF wb] odd_marked [of wb] by (simp add: release_turn_eq amount_def Let_def defs)
  moreover have "pc (thr u4 ! 0) = RelTurn (refno ca 1) None (wb OR EX_RUNDOWN_ACTIVE)"
    using th by (simp add: defs)
  ultimately show ?thesis using t(1,2) by blast
qed

section \<open>Witnesses\<close>

text \<open>Two processors and one thread; the words are those of the allocation above.\<close>

definition sample_ca :: EX_RUNDOWN_REF_CACHE_AWARE where
  "sample_ca = \<lparr>RunRefs = 0x10C0, PoolToFree = 0x10A8, RunRefSize = 64, Number = 2\<rparr>"

definition sample_casys :: casys where
  "sample_casys = \<lparr>RrCount = (\<lambda>_. 0), blocks = Map.empty, thr = [\<lparr>pc = Idle, held = 0\<rparr>], started = 0, gone = 0, cwpc = CIdle\<rparr>"

lemma sample_cells: "cells sample_ca = 2" "refno sample_ca 0 = 0x10C0" "refno sample_ca 1 = 0x1100"
  by (simp_all add: cells_def sample_ca_def refno_def EXP_GET_PROCESSOR_RUNDOWN_REF_def)

lemma sample_ca_start: "ca_start sample_ca 0x2000 sample_casys"
proof -
  have "[0..<cells sample_ca] = [0, 1]" by (simp add: sample_cells upt_rec)
  then show ?thesis
    by (simp add: ca_start_def ca_distinct_def sample_casys_def EX_RUNDOWN_ACTIVE_def cell_def sample_cells(1)
        sample_cells(2,3) [simplified])
qed

lemma sample_ca_waiting: "ca_once sample_ca 0x2000 sample_casys (enter_wait 0x2000 \<lparr>WbCount = 9, WakeEvent = None\<rparr> sample_casys)"
  by (rule ca_once_wait, rule cwait_step.cwait_call) (simp_all add: sample_casys_def)

lemma sample_ca_done:
  "\<exists>t. (ca_once sample_ca 0x2000)\<^sup>*\<^sup>* sample_casys t \<and> cwpc t = CDone"
proof -
  let ?e = "enter_wait 0x2000 \<lparr>WbCount = 9, WakeEvent = None\<rparr> sample_casys"
  have inv: "ca_inv sample_ca 0x2000 ?e"
    by (rule casys.step_inv [OF ca_start_inv [OF sample_ca_start] sample_ca_waiting])
  have "cwpc ?e = CLoop 0 0" by (simp add: enter_wait_def)
  from ca_loop_ends [OF inv this] show ?thesis
    using sample_ca_waiting by (meson converse_rtranclp_into_rtranclp)
qed

lemma sample_ca_completed:
  "\<exists>t. (ca_quiet sample_ca 0x2000)\<^sup>*\<^sup>* sample_casys t \<and> cwpc t = CCompleted"
proof -
  obtain t where t: "(ca_quiet sample_ca 0x2000)\<^sup>*\<^sup>* sample_casys t" "cwpc t = CDone" using sample_ca_done once_quiet by blast
  have N: "Number sample_ca = 2" by (simp add: sample_ca_def)
  let ?f = "\<lambda>i s. fst (ExRundownCompletedCacheAware sample_ca i s)"
  let ?t0 = "goto 0x2000 (CCompleting 0) t"
  let ?t1 = "goto 0x2000 (CCompleting 1) (?f 0 ?t0)"
  let ?t2 = "goto 0x2000 (CCompleting 2) (?f 1 ?t1)"
  let ?t3 = "goto 0x2000 CCompleted ?t2"
  have "cwait_step sample_ca 0x2000 t ?t0" by (rule cwait_step.ccompleted_call) (simp add: t(2))
  moreover have "cwait_step sample_ca 0x2000 ?t0 ?t1"
    by (rule cwait_step.ccompleted [of _ 0]) (simp_all add: ExRundownCompletedCacheAware_def N)
  moreover have "cwait_step sample_ca 0x2000 ?t1 ?t2"
    by (rule cwait_step.ccompleted [of _ 1]) (simp_all add: ExRundownCompletedCacheAware_def N)
  moreover have "cwait_step sample_ca 0x2000 ?t2 ?t3"
    by (rule cwait_step.ccompleted [of _ 2]) (simp_all add: ExRundownCompletedCacheAware_def N)
  ultimately have "(cwait_step sample_ca 0x2000)\<^sup>*\<^sup>* t ?t3"
    by (meson converse_rtranclp_into_rtranclp rtranclp.rtrancl_refl)
  then have "(ca_quiet sample_ca 0x2000)\<^sup>*\<^sup>* sample_casys ?t3" using t(1) cwait_quiet by (meson rtranclp_trans)
  then show ?thesis by (intro exI [of _ ?t3]) simp
qed

theorem ca_rundown_complete_witness:
  "\<exists>t. (ca_quiet sample_ca 0x2000)\<^sup>*\<^sup>* sample_casys t \<and> cwpc t = CDone \<and> list_all (\<lambda>u. held u = 0) (thr t)"
proof -
  obtain t where t: "(ca_quiet sample_ca 0x2000)\<^sup>*\<^sup>* sample_casys t" "cwpc t = CDone"
    using sample_ca_done once_quiet by blast
  have "list_all (\<lambda>u. held u = 0) (thr t)"
    unfolding list_all_iff using ca_rundown_complete [OF sample_ca_start t(1)] t(2) by simp
  then show ?thesis using t by blast
qed

theorem ca_terminates_witness:
  "\<exists>u. (ca_once sample_ca 0x2000)\<^sup>*\<^sup>* (enter_wait 0x2000 \<lparr>WbCount = 9, WakeEvent = None\<rparr> sample_casys) u \<and> cwpc u = CDone"
  using sample_ca_waiting by (intro ca_terminates [OF sample_ca_start]) (auto simp: ca_live_def enter_wait_def)

theorem wait_after_completed_hangs_witness:
  "\<exists>t u. (ca_quiet sample_ca 0x2000)\<^sup>*\<^sup>* sample_casys t \<and> cwpc t = CCompleted
    \<and> (cwait_step sample_ca 0x2000)\<^sup>*\<^sup>* (enter_wait 0x2000 \<lparr>WbCount = 9, WakeEvent = None\<rparr> t) u
    \<and> outstanding u = 0 \<and> cwpc u = CWait"
proof -
  obtain t where t: "(ca_quiet sample_ca 0x2000)\<^sup>*\<^sup>* sample_casys t" "cwpc t = CCompleted" using sample_ca_completed by blast
  moreover have "2 \<le> Number sample_ca" by (simp add: sample_ca_def)
  ultimately show ?thesis
    using wait_after_completed_hangs [OF sample_ca_start t] by (meson rtranclp.rtrancl_refl)
qed

theorem reinit_race_witness:
  "\<exists>t u q k v. (ca_once sample_ca 0x2000)\<^sup>*\<^sup>* sample_casys t \<and> cwpc t = CReinit 1
    \<and> (user_step (ca_refs sample_ca))\<^sup>*\<^sup>* t u \<and> pc (thr u ! 0) = RelTurn q k v \<and> release_turn k q v u = None"
  using reinit_race [OF sample_ca_start] by (simp add: sample_ca_def sample_casys_def)


text \<open>
  The thread takes protection on the first word, the rundown thread marks that word, and the
  thread is about to give its protection back there.
\<close>

definition sample_ca1 :: casys where
  "sample_ca1 = set_thr 0 Idle 1 (sample_casys\<lparr>started := 1, RrCount := (\<lambda>_. 0)(0x10C0 := 2)\<rparr>)"

definition sample_ca2 :: casys where
  "sample_ca2 = goto 0x2000 (CLoop 1 2) ((enter_wait 0x2000 \<lparr>WbCount = 9, WakeEvent = None\<rparr> sample_ca1)
     \<lparr>RrCount := (\<lambda>_. 0)(0x10C0 := 0x2001)\<rparr>)"

definition sample_ca3 :: casys where
  "sample_ca3 = set_thr 0 (RelTurn 0x10C0 None 0x2001) 1 sample_ca2"

lemma sample_ca_refs: "0x10C0 \<in> ca_refs sample_ca"
  using ca_refs_eq [of sample_ca] sample_cells by (force simp: image_iff)

lemma sample_ca1_steps: "(ca_quiet sample_ca 0x2000)\<^sup>*\<^sup>* sample_casys sample_ca1"
proof -
  let ?u = "set_thr 0 (AcqFast 0x10C0 0) 0 (sample_casys\<lparr>started := 1\<rparr>)"
  have "user_step (ca_refs sample_ca) sample_casys ?u"
    using user_step.acq_fast_call [of 0 sample_casys _ "0x10C0" "ca_refs sample_ca"] sample_ca_refs
    by (simp add: sample_casys_def)
  moreover have "user_step (ca_refs sample_ca) ?u sample_ca1"
    using user_step.acq_fast [of 0 ?u _ "0x10C0" 0 "?u\<lparr>RrCount := (RrCount ?u)(0x10C0 := 2)\<rparr>" True "ca_refs sample_ca"]
    by (simp add: sample_casys_def sample_ca1_def set_thr_def acquire_fast_eq)
  ultimately have "ca_quiet sample_ca 0x2000 sample_casys ?u" "ca_quiet sample_ca 0x2000 ?u sample_ca1"
    by (auto intro!: ca_user simp: ca_quiet_def sample_casys_def set_thr_def)
  then show ?thesis by (meson converse_rtranclp_into_rtranclp rtranclp.rtrancl_refl)
qed

lemma sample_ca2_steps: "(cwait_step sample_ca 0x2000)\<^sup>*\<^sup>* sample_ca1 sample_ca2"
proof -
  let ?e = "enter_wait 0x2000 \<lparr>WbCount = 9, WakeEvent = None\<rparr> sample_ca1"
  have N: "Number sample_ca = 2" "EXP_GET_PROCESSOR_RUNDOWN_REF sample_ca 0 = 0x10C0"
    by (simp_all add: sample_ca_def EXP_GET_PROCESSOR_RUNDOWN_REF_def)
  have R: "RrCount ?e = (\<lambda>_. 0)(0x10C0 := 2)" by (simp add: enter_wait_def push_block_def sample_ca1_def set_thr_def)
  have "cwait_step sample_ca 0x2000 sample_ca1 ?e"
    by (rule cwait_step.cwait_call) (simp add: sample_ca1_def sample_casys_def set_thr_def)
  moreover have "cwait_step sample_ca 0x2000 ?e (goto 0x2000 (CTurn 0 2 0) ?e)"
    by (rule cwait_step.cwait_loop [of _ 0 0])
      (simp_all add: ExWaitForRundownProtectionReleaseCacheAware_loop_def N R, simp add: enter_wait_def)
  moreover have "cwait_step sample_ca 0x2000 (goto 0x2000 (CTurn 0 2 0) ?e) sample_ca2"
    using cwait_step.cwait_turn [of "goto 0x2000 (CTurn 0 2 0) ?e" 0 2 0 sample_ca "0x2000"]
    by (simp add: ExWaitForRundownProtectionReleaseCacheAware_turn_def InterlockedCompareExchangePointer_def N R
        EX_RUNDOWN_ACTIVE_def sample_ca2_def goto_def)
  ultimately show ?thesis by (meson converse_rtranclp_into_rtranclp rtranclp.rtrancl_refl)
qed

lemma sample_ca3_steps: "(ca_quiet sample_ca 0x2000)\<^sup>*\<^sup>* sample_ca2 sample_ca3"
proof -
  let ?u = "set_thr 0 (RelRead 0x10C0 None) 1 sample_ca2"
  have t: "thr sample_ca2 = [\<lparr>pc = Idle, held = 1\<rparr>]" "RrCount sample_ca2 0x10C0 = 0x2001" "cwpc sample_ca2 = CLoop 1 2"
    by (simp_all add: sample_ca2_def enter_wait_def push_block_def sample_ca1_def sample_casys_def set_thr_def)
  have "user_step (ca_refs sample_ca) sample_ca2 ?u"
    using user_step.rel_call [of 0 sample_ca2 _ "0x10C0" "ca_refs sample_ca" None] sample_ca_refs t by (simp add: amount_def)
  moreover have "user_step (ca_refs sample_ca) ?u sample_ca3"
    using user_step.rel_read [of 0 ?u _ "0x10C0" None "ca_refs sample_ca"] t by (simp add: sample_ca3_def set_thr_def)
  ultimately have "ca_quiet sample_ca 0x2000 sample_ca2 ?u" "ca_quiet sample_ca 0x2000 ?u sample_ca3"
    using t by (auto intro!: ca_user simp: ca_quiet_def set_thr_def)
  then show ?thesis by (meson converse_rtranclp_into_rtranclp rtranclp.rtrancl_refl)
qed

theorem ca_no_dangling_block_witness:
  "pc (thr sample_ca3 ! 0) = RelTurn 0x10C0 None 0x2001 \<and> release_turn None 0x10C0 0x2001 sample_ca3 \<noteq> None"
proof -
  have "(ca_quiet sample_ca 0x2000)\<^sup>*\<^sup>* sample_casys sample_ca3"
    using sample_ca1_steps cwait_quiet [OF sample_ca2_steps] sample_ca3_steps by (meson rtranclp_trans)
  moreover have t: "thr sample_ca3 = [\<lparr>pc = RelTurn 0x10C0 None 0x2001, held = 1\<rparr>]"
    by (simp add: sample_ca3_def sample_ca2_def enter_wait_def push_block_def sample_ca1_def sample_casys_def set_thr_def)
  ultimately show ?thesis using ca_no_dangling_block [OF sample_ca_start, of sample_ca3 "thr sample_ca3 ! 0"] by simp
qed

end
