(* ===== verification/Memory.thy ===== *)
theory Memory
  imports Prelude "HOL-Library.Monad_Syntax"
begin

text \<open>
  Byte-addressed memory seen through the widths the bitmap routines use.  Memory is mapped in
  aligned 64-bit granules, so that an aligned access touches one granule and an access to an
  unmapped one faults (\<open>None\<close>).  The lemmas read all accesses as operations on one string of
  bits: bit \<open>i\<close> is bit \<open>i mod 64\<close> of granule \<open>i div 64\<close>.
\<close>

section \<open>Accesses\<close>

type_synonym memory = "nat \<rightharpoonup> 64 word"

definition rd8 :: "memory \<Rightarrow> nat \<Rightarrow> UCHAR option" where
  "rd8 m a = map_option (\<lambda>c. ucast (drop_bit (8 * (a mod 8)) c)) (m (a div 8))"

definition rd32 :: "memory \<Rightarrow> nat \<Rightarrow> ULONG option" where
  "rd32 m a = map_option (\<lambda>c. ucast (drop_bit (8 * (a mod 8)) c)) (m (a div 8))"

text \<open>A store replaces the bits of \<open>msk\<close>, shifted to the address, by those of the value.\<close>

definition wr_masked :: "64 word \<Rightarrow> memory \<Rightarrow> nat \<Rightarrow> 64 word \<Rightarrow> memory option" where
  "wr_masked msk m a v = (case m (a div 8) of None \<Rightarrow> None
     | Some c \<Rightarrow> Some (m(a div 8 \<mapsto> (c AND NOT (push_bit (8 * (a mod 8)) msk)) OR push_bit (8 * (a mod 8)) (v AND msk))))"

definition wr8 :: "memory \<Rightarrow> nat \<Rightarrow> UCHAR \<Rightarrow> memory option" where
  "wr8 m a v = wr_masked 0xFF m a (ucast v)"

definition wr32 :: "memory \<Rightarrow> nat \<Rightarrow> ULONG \<Rightarrow> memory option" where
  "wr32 m a v = wr_masked 0xFFFFFFFF m a (ucast v)"

definition wr64 :: "memory \<Rightarrow> nat \<Rightarrow> 64 word \<Rightarrow> memory option" where
  "wr64 m a v = wr_masked (- 1) m a v"

text \<open>\<open>memset\<close>, and \<open>__stosq\<close> to an aligned address.\<close>

primrec memset :: "memory \<Rightarrow> nat \<Rightarrow> UCHAR \<Rightarrow> nat \<Rightarrow> memory option" where
  "memset m a v 0 = Some m"
| "memset m a v (Suc n) = do { m' \<leftarrow> wr8 m a v; memset m' (a + 1) v n }"

primrec stosq :: "memory \<Rightarrow> nat \<Rightarrow> 64 word \<Rightarrow> nat \<Rightarrow> memory option" where
  "stosq m a v 0 = Some m"
| "stosq m a v (Suc n) = do { m' \<leftarrow> wr64 m a v; stosq m' (a + 8) v n }"

section \<open>The bits\<close>

definition mapped :: "memory \<Rightarrow> nat \<Rightarrow> bool" where
  "mapped m i \<longleftrightarrow> m (i div 64) \<noteq> None"

definition mbit :: "memory \<Rightarrow> nat \<Rightarrow> bool" where
  "mbit m i \<longleftrightarrow> (case m (i div 64) of None \<Rightarrow> False | Some c \<Rightarrow> bit c (i mod 64))"

text \<open>A memory that differs from \<open>m\<close> in the bits \<open>b\<close> to \<open>b + n - 1\<close> only, which follow \<open>f\<close>.\<close>

definition bits_set_to :: "memory \<Rightarrow> nat \<Rightarrow> nat \<Rightarrow> (nat \<Rightarrow> bool) \<Rightarrow> memory \<Rightarrow> bool" where
  "bits_set_to m b n f m' \<longleftrightarrow> dom m' = dom m
     \<and> (\<forall>i. mbit m' i \<longleftrightarrow> (if b \<le> i \<and> i < b + n then f (i - b) else mbit m i))"

lemma of_nat_of_unat: "word_of_nat (unat w) = w" for w :: "'a::len word"
  by simp

lemma mbit_iff: "mbit m i \<longleftrightarrow> (\<exists>c. m (i div 64) = Some c \<and> bit c (i mod 64))"
  by (simp add: mbit_def split: option.splits)

lemma granule_of_bit:
  fixes a j :: nat
  assumes "j < 8 * (8 - a mod 8)"
  shows "(8 * a + j) div 64 = a div 8" "(8 * a + j) mod 64 = 8 * (a mod 8) + j"
proof -
  have e: "8 * a + j = 64 * (a div 8) + (8 * (a mod 8) + j)" using mult_div_mod_eq [of 8 a] by linarith
  have l: "8 * (a mod 8) + j < 64" using assms by simp
  show "(8 * a + j) div 64 = a div 8" unfolding e using l by simp
  show "(8 * a + j) mod 64 = 8 * (a mod 8) + j" unfolding e using l by simp
qed

lemma rd8_bits: "rd8 m a = Some v \<Longrightarrow> j < 8 \<Longrightarrow> bit v j \<longleftrightarrow> mbit m (8 * a + j)"
  by (auto simp: rd8_def mbit_iff granule_of_bit bit_simps)

lemma rd8_mapped: "rd8 m a = None \<longleftrightarrow> \<not> mapped m (8 * a)"
  using granule_of_bit(1) [of 0 a] by (simp add: rd8_def mapped_def)

lemma rd32_bits: "a mod 4 = 0 \<Longrightarrow> rd32 m a = Some v \<Longrightarrow> j < 32 \<Longrightarrow> bit v j \<longleftrightarrow> mbit m (8 * a + j)"
proof -
  assume *: "a mod 4 = 0" "rd32 m a = Some v" "j < 32"
  have "a mod 8 = a mod 4 \<or> a mod 8 = a mod 4 + 4" by presburger
  then have "j < 8 * (8 - a mod 8)" using * by auto
  then show ?thesis using * by (auto simp: rd32_def mbit_iff granule_of_bit bit_simps)
qed

lemma rd32_mapped: "rd32 m a = None \<longleftrightarrow> \<not> mapped m (8 * a)"
  using granule_of_bit(1) [of 0 a] by (simp add: rd32_def mapped_def)


lemma granule_in_bits:
  fixes a i n :: nat
  assumes n: "n \<le> 8 * (8 - a mod 8)" "0 < n" and g: "i div 64 = a div 8"
  shows "8 * a \<le> i \<and> i < 8 * a + n \<longleftrightarrow> 8 * (a mod 8) \<le> i mod 64 \<and> i mod 64 < 8 * (a mod 8) + n"
proof -
  have "i = 64 * (a div 8) + i mod 64" using mult_div_mod_eq [of 64 i] g by linarith
  moreover have "8 * a = 64 * (a div 8) + 8 * (a mod 8)" using mult_div_mod_eq [of 8 a] by linarith
  ultimately show ?thesis by linarith
qed

lemma wr_masked_bits:
  assumes n: "n \<le> 8 * (8 - a mod 8)" "0 < n" and mp: "mapped m (8 * a)"
  obtains m' where "wr_masked (mask n) m a v = Some m'" "bits_set_to m (8 * a) n (bit v) m'"
proof -
  obtain c where c: "m (a div 8) = Some c" using mp granule_of_bit(1) [of 0 a] by (auto simp: mapped_def)
  define c' where "c' = (c AND NOT (push_bit (8 * (a mod 8)) (mask n))) OR push_bit (8 * (a mod 8)) (v AND mask n)"
  define m' where "m' = m(a div 8 \<mapsto> c')"
  have c': "bit c' k \<longleftrightarrow> (if 8 * (a mod 8) \<le> k \<and> k < 8 * (a mod 8) + n then bit v (k - 8 * (a mod 8)) else bit c k)"
    if "k < 64" for k
    using that by (auto simp: c'_def bit_simps)
  have "mbit m' i \<longleftrightarrow> (if 8 * a \<le> i \<and> i < 8 * a + n then bit v (i - 8 * a) else mbit m i)" for i
  proof (cases "i div 64 = a div 8")
    case True
    have "i - 8 * a = i mod 64 - 8 * (a mod 8)"
      using mult_div_mod_eq [of 64 i] mult_div_mod_eq [of 8 a] True by linarith
    then show ?thesis
      using c c' [of "i mod 64"] granule_in_bits [OF n True] True by (simp add: mbit_iff m'_def)
  next
    case False
    have "\<not> (8 * a \<le> i \<and> i < 8 * a + n)"
    proof
      assume "8 * a \<le> i \<and> i < 8 * a + n"
      then have "8 * a + (i - 8 * a) = i" "i - 8 * a < 8 * (8 - a mod 8)" using n by linarith+
      then show False using granule_of_bit(1) [of "i - 8 * a" a] False by simp
    qed
    then show ?thesis using False by (auto simp: mbit_iff m'_def)
  qed
  then have "bits_set_to m (8 * a) n (bit v) m'" using c by (auto simp: bits_set_to_def m'_def)
  moreover have "wr_masked (mask n) m a v = Some m'" by (simp add: wr_masked_def c m'_def c'_def)
  ultimately show thesis by (rule that [rotated])
qed

lemma wr8_bits:
  assumes "mapped m (8 * a)"
  obtains m' where "wr8 m a v = Some m'" "bits_set_to m (8 * a) 8 (bit v) m'"
proof -
  have "8 * (8 - a mod 8) \<ge> 8" by (simp add: Suc_leI)
  then obtain m' where "wr_masked (mask 8) m a (ucast v) = Some m'" "bits_set_to m (8 * a) 8 (bit (ucast v :: 64 word)) m'"
    by (rule wr_masked_bits [OF _ _ assms]) simp_all
  moreover have "(mask 8 :: 64 word) = 0xFF" by (simp add: mask_eq_exp_minus_1)
  ultimately show thesis
    by (intro that [of m']) (auto simp: wr8_def bits_set_to_def bit_simps)
qed

lemma wr32_bits:
  assumes "a mod 4 = 0" "mapped m (8 * a)"
  obtains m' where "wr32 m a v = Some m'" "bits_set_to m (8 * a) 32 (bit v) m'"
proof -
  have "a mod 8 = a mod 4 \<or> a mod 8 = a mod 4 + 4" by presburger
  then have "32 \<le> 8 * (8 - a mod 8)" using assms by auto
  then obtain m' where "wr_masked (mask 32) m a (ucast v) = Some m'" "bits_set_to m (8 * a) 32 (bit (ucast v :: 64 word)) m'"
    by (rule wr_masked_bits [OF _ _ assms(2)]) simp_all
  moreover have "(mask 32 :: 64 word) = 0xFFFFFFFF" by (simp add: mask_eq_exp_minus_1)
  ultimately show thesis
    by (intro that [of m']) (auto simp: wr32_def bits_set_to_def bit_simps)
qed

lemma wr64_bits:
  assumes "a mod 8 = 0" "mapped m (8 * a)"
  obtains m' where "wr64 m a v = Some m'" "bits_set_to m (8 * a) 64 (bit v) m'"
proof -
  have "64 \<le> 8 * (8 - a mod 8)" using assms by simp
  then obtain m' where "wr_masked (mask 64) m a v = Some m'" "bits_set_to m (8 * a) 64 (bit v) m'"
    by (rule wr_masked_bits [OF _ _ assms(2)]) simp_all
  moreover have "(mask 64 :: 64 word) = - 1" by (simp add: mask_eq_exp_minus_1)
  ultimately show thesis by (intro that [of m']) (auto simp: wr64_def)
qed

lemma bits_set_to_mapped: "bits_set_to m b n f m' \<Longrightarrow> mapped m' i = mapped m i"
  by (auto simp: bits_set_to_def mapped_def dom_def set_eq_iff)

lemma bits_set_to_refl: "bits_set_to m b 0 f m"
  by (auto simp: bits_set_to_def)

lemma bits_set_to_trans:
  assumes "bits_set_to m b n f m'" "bits_set_to m' (b + n) k g m''"
  shows "bits_set_to m b (n + k) (\<lambda>i. if i < n then f i else g (i - n)) m''"
  using assms by (auto simp: bits_set_to_def)

lemma bits_set_to_cong: "bits_set_to m b n f m' \<Longrightarrow> (\<And>i. i < n \<Longrightarrow> f i = g i) \<Longrightarrow> bits_set_to m b n g m'"
  by (auto simp: bits_set_to_def)

lemma memset_bits:
  assumes "\<forall>i<8 * n. mapped m (8 * a + i)"
  shows "\<exists>m'. memset m a v n = Some m' \<and> bits_set_to m (8 * a) (8 * n) (\<lambda>i. bit v (i mod 8)) m'"
  using assms
proof (induction n arbitrary: m a)
  case (Suc n)
  have "mapped m (8 * a)" using Suc.prems [rule_format, of 0] by simp
  then obtain m1 where m1: "wr8 m a v = Some m1" "bits_set_to m (8 * a) 8 (bit v) m1" by (rule wr8_bits)
  have "\<forall>i<8 * n. mapped m1 (8 * (a + 1) + i)"
  proof (intro allI impI)
    fix i assume "i < 8 * n"
    then show "mapped m1 (8 * (a + 1) + i)"
      using Suc.prems [rule_format, of "8 + i"] bits_set_to_mapped [OF m1(2)] by (simp add: ac_simps)
  qed
  then have "\<exists>m2. memset m1 (a + 1) v n = Some m2 \<and> bits_set_to m1 (8 * (a + 1)) (8 * n) (\<lambda>i. bit v (i mod 8)) m2"
    by (rule Suc.IH)
  then obtain m2 where m2: "memset m1 (a + 1) v n = Some m2" "bits_set_to m1 (8 * a + 8) (8 * n) (\<lambda>i. bit v (i mod 8)) m2"
    by (auto simp: add.commute)
  have "bits_set_to m (8 * a) (8 + 8 * n) (\<lambda>i. if i < 8 then bit v i else bit v ((i - 8) mod 8)) m2"
    by (rule bits_set_to_trans [OF m1(2) m2(2)])
  then have "bits_set_to m (8 * a) (8 + 8 * n) (\<lambda>i. bit v (i mod 8)) m2"
    by (rule bits_set_to_cong) (auto simp: mod_if)
  then show ?case using m1(1) m2(1) by simp
qed (simp add: bits_set_to_refl)

lemma stosq_bits:
  assumes "a mod 8 = 0" "\<forall>i<64 * n. mapped m (8 * a + i)"
  shows "\<exists>m'. stosq m a v n = Some m' \<and> bits_set_to m (8 * a) (64 * n) (\<lambda>i. bit v (i mod 64)) m'"
  using assms
proof (induction n arbitrary: m a)
  case (Suc n)
  have "mapped m (8 * a)" using Suc.prems(2) [rule_format, of 0] by simp
  with Suc.prems(1) obtain m1 where m1: "wr64 m a v = Some m1" "bits_set_to m (8 * a) 64 (bit v) m1" by (rule wr64_bits)
  have "\<forall>i<64 * n. mapped m1 (8 * (a + 8) + i)"
  proof (intro allI impI)
    fix i assume "i < 64 * n"
    then show "mapped m1 (8 * (a + 8) + i)"
      using Suc.prems(2) [rule_format, of "64 + i"] bits_set_to_mapped [OF m1(2)] by (simp add: ac_simps)
  qed
  moreover have "(a + 8) mod 8 = 0" using Suc.prems(1) by simp
  ultimately have "\<exists>m2. stosq m1 (a + 8) v n = Some m2 \<and> bits_set_to m1 (8 * (a + 8)) (64 * n) (\<lambda>i. bit v (i mod 64)) m2"
    by (intro Suc.IH)
  then obtain m2 where "stosq m1 (a + 8) v n = Some m2" "bits_set_to m1 (8 * (a + 8)) (64 * n) (\<lambda>i. bit v (i mod 64)) m2"
    by blast
  then have m2: "stosq m1 (a + 8) v n = Some m2" "bits_set_to m1 (8 * a + 64) (64 * n) (\<lambda>i. bit v (i mod 64)) m2"
    by (simp_all add: add.commute)
  have "bits_set_to m (8 * a) (64 + 64 * n) (\<lambda>i. if i < 64 then bit v i else bit v ((i - 64) mod 64)) m2"
    by (rule bits_set_to_trans [OF m1(2) m2(2)])
  then have "bits_set_to m (8 * a) (64 + 64 * n) (\<lambda>i. bit v (i mod 64)) m2"
    by (rule bits_set_to_cong) (auto simp: mod_if)
  then show ?case using m1(1) m2(1) by simp
qed (simp add: bits_set_to_refl)

end
