(* ===== verification/Bitmap.thy ===== *)
theory Bitmap
  imports Memory
begin

text \<open>
  The bitmap routines of \<open>src/ntoskrnl/rtl/bitmap.c\<close> in their 64-bit configuration: the single
  bit operations, the search for runs of clear or set bits in 64-bit chunks with its four
  strategies, and the byte-wise setting and clearing of ranges.  All accesses go to the mapped
  granules of \<open>Memory\<close>; \<open>None\<close> is a fault, or a loop that does not end.
\<close>

section \<open>The header and the tables\<close>

record RTL_BITMAP =
  SizeOfBitMap :: ULONG
  Buffer :: ULONG_PTR

type_synonym CHUNK = "64 word"

definition FillMask :: "UCHAR list" where
  "FillMask = [0x00, 0x01, 0x03, 0x07, 0x0F, 0x1F, 0x3F, 0x7F, 0xFF]"

definition ZeroMask :: "UCHAR list" where
  "ZeroMask = [0xFF, 0xFE, 0xFC, 0xF8, 0xF0, 0xE0, 0xC0, 0x80, 0x00]"

text \<open>The number of clear bits of each byte.\<close>

definition RtlpBitsClearTotal :: "ULONG list" where
  "RtlpBitsClearTotal =
    [8, 7, 7, 6, 7, 6, 6, 5, 7, 6, 6, 5, 6, 5, 5, 4, 7, 6, 6, 5, 6, 5, 5, 4, 6, 5, 5, 4, 5, 4, 4, 3,
     7, 6, 6, 5, 6, 5, 5, 4, 6, 5, 5, 4, 5, 4, 4, 3, 6, 5, 5, 4, 5, 4, 4, 3, 5, 4, 4, 3, 4, 3, 3, 2,
     7, 6, 6, 5, 6, 5, 5, 4, 6, 5, 5, 4, 5, 4, 4, 3, 6, 5, 5, 4, 5, 4, 4, 3, 5, 4, 4, 3, 4, 3, 3, 2,
     6, 5, 5, 4, 5, 4, 4, 3, 5, 4, 4, 3, 4, 3, 3, 2, 5, 4, 4, 3, 4, 3, 3, 2, 4, 3, 3, 2, 3, 2, 2, 1,
     7, 6, 6, 5, 6, 5, 5, 4, 6, 5, 5, 4, 5, 4, 4, 3, 6, 5, 5, 4, 5, 4, 4, 3, 5, 4, 4, 3, 4, 3, 3, 2,
     6, 5, 5, 4, 5, 4, 4, 3, 5, 4, 4, 3, 4, 3, 3, 2, 5, 4, 4, 3, 4, 3, 3, 2, 4, 3, 3, 2, 3, 2, 2, 1,
     6, 5, 5, 4, 5, 4, 4, 3, 5, 4, 4, 3, 4, 3, 3, 2, 5, 4, 4, 3, 4, 3, 3, 2, 4, 3, 3, 2, 3, 2, 2, 1,
     5, 4, 4, 3, 4, 3, 3, 2, 4, 3, 3, 2, 3, 2, 2, 1, 4, 3, 3, 2, 3, 2, 2, 1, 3, 2, 2, 1, 2, 1, 1, 0]"

text \<open>A table access; outside the table it faults.\<close>

definition entry :: "'a list \<Rightarrow> nat \<Rightarrow> 'a option" where
  "entry t i = (if i < length t then Some (t ! i) else None)"

definition RtlInitializeBitMap :: "ULONG_PTR \<Rightarrow> ULONG \<Rightarrow> RTL_BITMAP" where
  "RtlInitializeBitMap BitMapBuffer Size = \<lparr>SizeOfBitMap = Size, Buffer = BitMapBuffer\<rparr>"

text \<open>The address of the buffer plus an offset.\<close>

definition buf :: "RTL_BITMAP \<Rightarrow> nat" where
  "buf bm = unat (Buffer bm)"

section \<open>Single bits\<close>

text \<open>
  \<open>BitTest\<close> and its variants take a signed \<open>LONG\<close> offset: they access the longword at
  \<open>Offset div 32\<close> from the base, which is before the base for a negative offset.
\<close>

definition bt_cell :: "RTL_BITMAP \<Rightarrow> LONG \<Rightarrow> nat" where
  "bt_cell bm Offset = nat (int (buf bm) + 4 * (sint Offset div 32))"

definition bt_bit :: "LONG \<Rightarrow> nat" where
  "bt_bit Offset = nat (sint Offset mod 32)"

definition BitTest :: "memory \<Rightarrow> RTL_BITMAP \<Rightarrow> LONG \<Rightarrow> bool option" where
  "BitTest m bm Offset = do { v \<leftarrow> rd32 m (bt_cell bm Offset); Some (bit v (bt_bit Offset)) }"

definition RtlTestBit :: "memory \<Rightarrow> RTL_BITMAP \<Rightarrow> ULONG \<Rightarrow> bool option" where
  "RtlTestBit m bm BitNumber = BitTest m bm BitNumber"

definition RtlCheckBit :: "memory \<Rightarrow> RTL_BITMAP \<Rightarrow> ULONG \<Rightarrow> bool option" where
  "RtlCheckBit m bm BitPosition = BitTest m bm BitPosition"

definition RtlClearBit :: "memory \<Rightarrow> RTL_BITMAP \<Rightarrow> ULONG \<Rightarrow> memory option" where
  "RtlClearBit m bm BitNumber =
     do { v \<leftarrow> rd32 m (bt_cell bm BitNumber); wr32 m (bt_cell bm BitNumber) (unset_bit (bt_bit BitNumber) v) }"

definition RtlSetBit :: "memory \<Rightarrow> RTL_BITMAP \<Rightarrow> ULONG \<Rightarrow> memory option" where
  "RtlSetBit m bm BitNumber =
     do { v \<leftarrow> rd32 m (bt_cell bm BitNumber); wr32 m (bt_cell bm BitNumber) (set_bit (bt_bit BitNumber) v) }"

definition RtlClearAllBits :: "memory \<Rightarrow> RTL_BITMAP \<Rightarrow> memory option" where
  "RtlClearAllBits m bm = memset m (buf bm) 0 (unat ((SizeOfBitMap bm + 31) div 32 * 4))"

text \<open>\<open>RtlFillMemoryUlong\<close> on AMD64: one longword to align, quadwords, and the odd longword.\<close>

definition RtlFillMemoryUlong :: "memory \<Rightarrow> nat \<Rightarrow> ULONG_PTR \<Rightarrow> ULONG \<Rightarrow> memory option" where
  "RtlFillMemoryUlong m Destination Bytes Pattern =
     (let Quad = ucast Pattern OR push_bit 32 (ucast Pattern);
          fill = (\<lambda>m Address Len. do {
            m1 \<leftarrow> stosq m Address Quad (unat (Len div 2));
            if Len AND 1 \<noteq> 0 then wr32 m1 (Address + 4 * unat (Len - 1)) Pattern else Some m1 });
          Len = Bytes div 4
      in if Len = 0 then Some m
         else if Destination AND 4 \<noteq> 0
         then do { m1 \<leftarrow> wr32 m Destination Pattern;
                   if Len - 1 = 0 then Some m1 else fill m1 (Destination + 4) (Len - 1) }
         else fill m Destination Len)"

definition RtlSetAllBits :: "memory \<Rightarrow> RTL_BITMAP \<Rightarrow> memory option" where
  "RtlSetAllBits m bm = RtlFillMemoryUlong m (buf bm) (ucast ((SizeOfBitMap bm + 31) div 32 * 4)) 0xFFFFFFFF"

section \<open>Runs inside a chunk\<close>

definition CHUNK_BITS :: nat where "CHUNK_BITS = 64"
definition CHUNK_CLEAR :: CHUNK where "CHUNK_CLEAR = 0"
definition CHUNK_SET :: CHUNK where "CHUNK_SET = - 1"
definition CHUNK_HIGH_BIT :: CHUNK where "CHUNK_HIGH_BIT = push_bit (CHUNK_BITS - 1) 1"
definition RTL_INVALID_INDEX :: ULONG where "RTL_INVALID_INDEX = - 1"

text \<open>The bit scans: the lowest and the highest set bit, if any.\<close>

definition BitScanForward64 :: "CHUNK \<Rightarrow> ULONG option" where
  "BitScanForward64 c = map_option word_of_nat (find (bit c) [0..<64])"

definition BitScanReverse64 :: "CHUNK \<Rightarrow> ULONG option" where
  "BitScanReverse64 c = map_option word_of_nat (find (bit c) (rev [0..<64]))"

function RunLoop :: "CHUNK \<Rightarrow> ULONG \<Rightarrow> CHUNK option" where
  "RunLoop chunkMask shiftsRemaining =
     (let shift = shiftsRemaining div 2;
          chunkMask' = chunkMask AND drop_bit (unat shift) chunkMask;
          shiftsRemaining' = shiftsRemaining - shift
      in if chunkMask' = 0 then None
         else if shiftsRemaining' > 1 then RunLoop chunkMask' shiftsRemaining' else Some chunkMask')"
  by pat_completeness auto

termination RunLoop
proof (relation "measure (\<lambda>(c, n). unat n)", goal_cases)
  case (2 c n s c' n')
  then have "1 < unat (n - n div 2)" by (simp add: word_less_nat_alt)
  then show ?case using 2 by (simp add: unat_sub_small unat_div_word)
qed simp

definition RtlpFindClearRunInChunk :: "CHUNK \<Rightarrow> ULONG \<Rightarrow> ULONG option" where
  "RtlpFindClearRunInChunk Chunk RunLength =
     (case RunLoop (NOT Chunk) RunLength of None \<Rightarrow> None | Some chunkMask \<Rightarrow> BitScanForward64 chunkMask)"

definition RtlpClearMSBInChunk :: "CHUNK \<Rightarrow> ULONG" where
  "RtlpClearMSBInChunk Chunk =
     (case BitScanReverse64 Chunk of None \<Rightarrow> word_of_nat CHUNK_BITS | Some Index \<Rightarrow> word_of_nat CHUNK_BITS - Index - 1)"

definition RtlpClearLSBInChunk :: "CHUNK \<Rightarrow> ULONG" where
  "RtlpClearLSBInChunk Chunk = (case BitScanForward64 Chunk of None \<Rightarrow> word_of_nat CHUNK_BITS | Some Index \<Rightarrow> Index)"

section \<open>Runs across chunks\<close>

text \<open>
  The chunk array is a reader \<open>rd\<close> from chunk numbers; a chunk pointer is the number \<open>k\<close>, its
  distance from \<open>chunkArray\<close> in chunks.
\<close>

type_synonym reader = "nat \<Rightarrow> CHUNK option"

definition chunk_bit :: "nat \<Rightarrow> ULONG" where
  "chunk_bit k = word_of_nat (k * CHUNK_BITS)"

text \<open>
  The strategy for runs that contain a clear chunk.  \<open>ClearChunks\<close> is the loop over the clear
  chunks a run needs; it stops at \<open>e\<close>, or before it at a chunk that is not clear.
\<close>

partial_function (option) ClearChunks :: "reader \<Rightarrow> nat \<Rightarrow> nat \<Rightarrow> nat option" where
  "ClearChunks rd k e = (if k = e then Some k
     else do { c \<leftarrow> rd k; if c \<noteq> CHUNK_CLEAR then Some k else ClearChunks rd (k + 1) e })"

text \<open>From \<open>largeLoopEntry\<close>: go back to \<open>findRunStartLarge\<close> at a chunk (\<open>Inl\<close>), or return (\<open>Inr\<close>).\<close>

definition LargeEntry :: "reader \<Rightarrow> ULONG \<Rightarrow> ULONG \<Rightarrow> nat \<Rightarrow> ULONG \<Rightarrow> (nat + ULONG) option" where
  "LargeEntry rd NumberToFind lastPossibleStartBit k headClearBits =
     (let runStartBit = chunk_bit k - headClearBits;
          clearChunksRequired = (NumberToFind - headClearBits) div 64;
          clearChunkRunEnd = k + unat clearChunksRequired;
          tailClearBits = (NumberToFind - headClearBits) mod 64
      in if runStartBit > lastPossibleStartBit then Some (Inr RTL_INVALID_INDEX)
         else do {
           j \<leftarrow> ClearChunks rd (k + 1) clearChunkRunEnd;
           if j \<noteq> clearChunkRunEnd then Some (Inl j)
           else if tailClearBits \<noteq> 0
           then do { c \<leftarrow> rd j; if RtlpClearLSBInChunk c < tailClearBits then Some (Inl j) else Some (Inr runStartBit) }
           else Some (Inr runStartBit) })"

partial_function (option) LargeLoop :: "reader \<Rightarrow> ULONG \<Rightarrow> ULONG \<Rightarrow> nat \<Rightarrow> nat \<Rightarrow> ULONG option" where
  "LargeLoop rd NumberToFind lastPossibleStartBit lastPossibleClearChunk k =
     (if k > lastPossibleClearChunk then Some RTL_INVALID_INDEX
      else do {
        c \<leftarrow> rd (k + 1);
        if c = CHUNK_CLEAR
        then do {
          p \<leftarrow> rd k;
          r \<leftarrow> LargeEntry rd NumberToFind lastPossibleStartBit (k + 1) (RtlpClearMSBInChunk p);
          (case r of Inl j \<Rightarrow> LargeLoop rd NumberToFind lastPossibleStartBit lastPossibleClearChunk j
           | Inr b \<Rightarrow> Some b) }
        else LargeLoop rd NumberToFind lastPossibleStartBit lastPossibleClearChunk (k + 1) })"

definition LargeSearch :: "reader \<Rightarrow> ULONG \<Rightarrow> ULONG \<Rightarrow> nat \<Rightarrow> CHUNK \<Rightarrow> ULONG option" where
  "LargeSearch rd NumberToFind lastPossibleStartBit k firstChunk =
     (let lastPossibleClearChunk = unat (lastPossibleStartBit div 64) + (if lastPossibleStartBit mod 64 \<noteq> 0 then 1 else 0);
          goon = (\<lambda>r. case r of Inl j \<Rightarrow> LargeLoop rd NumberToFind lastPossibleStartBit lastPossibleClearChunk j
                      | Inr b \<Rightarrow> Some b)
      in if firstChunk = CHUNK_CLEAR then LargeEntry rd NumberToFind lastPossibleStartBit k 0 \<bind> goon
         else do {
           c \<leftarrow> rd (k + 1);
           if c = CHUNK_CLEAR
           then LargeEntry rd NumberToFind lastPossibleStartBit (k + 1) (RtlpClearMSBInChunk firstChunk) \<bind> goon
           else LargeLoop rd NumberToFind lastPossibleStartBit lastPossibleClearChunk (k + 1) })"

text \<open>The strategy for runs of at least a chunk that need not contain a clear one.\<close>

partial_function (option) MediumLoop :: "reader \<Rightarrow> ULONG \<Rightarrow> ULONG \<Rightarrow> nat \<Rightarrow> nat \<Rightarrow> CHUNK \<Rightarrow> ULONG option" where
  "MediumLoop rd NumberToFind lastPossibleStartBit lastPossibleStartChunk k chunk =
     (if chunk AND CHUNK_HIGH_BIT \<noteq> 0
      then (if k + 1 > lastPossibleStartChunk then Some RTL_INVALID_INDEX
            else do { c \<leftarrow> rd (k + 1); MediumLoop rd NumberToFind lastPossibleStartBit lastPossibleStartChunk (k + 1) c })
      else (let headClearBits = RtlpClearMSBInChunk chunk;
                runStartBit = chunk_bit k + (64 - headClearBits);
                bitsRemaining = NumberToFind - headClearBits
            in if runStartBit > lastPossibleStartBit then Some RTL_INVALID_INDEX
               else if bitsRemaining = 0 then Some runStartBit
               else do {
                 c \<leftarrow> rd (k + 1);
                 if bitsRemaining \<ge> 64
                 then (if c \<noteq> CHUNK_CLEAR
                       then MediumLoop rd NumberToFind lastPossibleStartBit lastPossibleStartChunk (k + 1) c
                       else if bitsRemaining - 64 = 0 then Some runStartBit
                       else do {
                         c' \<leftarrow> rd (k + 2);
                         if RtlpClearLSBInChunk c' \<ge> bitsRemaining - 64 then Some runStartBit
                         else MediumLoop rd NumberToFind lastPossibleStartBit lastPossibleStartChunk (k + 2) c' })
                 else if RtlpClearLSBInChunk c \<ge> bitsRemaining then Some runStartBit
                 else MediumLoop rd NumberToFind lastPossibleStartBit lastPossibleStartChunk (k + 1) c }))"

text \<open>The strategy for runs of two bits up to a chunk.\<close>

partial_function (option) SmallLoop :: "reader \<Rightarrow> ULONG \<Rightarrow> ULONG \<Rightarrow> nat \<Rightarrow> nat \<Rightarrow> nat \<Rightarrow> CHUNK \<Rightarrow> ULONG \<Rightarrow> ULONG option" where
  "SmallLoop rd NumberToFind lastPossibleStartBit lastPossibleStartChunk rangeEndChunk k chunk tailClearBits =
     (if chunk = CHUNK_SET
      then (if k + 1 > lastPossibleStartChunk then Some RTL_INVALID_INDEX
            else do {
              c \<leftarrow> rd (k + 1);
              SmallLoop rd NumberToFind lastPossibleStartBit lastPossibleStartChunk rangeEndChunk (k + 1) c 0 })
      else (let headClearBits = RtlpClearLSBInChunk chunk;
                found = (if headClearBits + tailClearBits \<ge> NumberToFind then Some (0 - tailClearBits)
                         else RtlpFindClearRunInChunk chunk NumberToFind)
            in case found of
                 None \<Rightarrow>
                   (if k = rangeEndChunk then Some RTL_INVALID_INDEX
                    else do {
                      c \<leftarrow> rd (k + 1);
                      SmallLoop rd NumberToFind lastPossibleStartBit lastPossibleStartChunk rangeEndChunk (k + 1) c
                        (RtlpClearMSBInChunk chunk) })
               | Some b \<Rightarrow>
                   (let runStartBit = b + chunk_bit k
                    in if runStartBit > lastPossibleStartBit then Some RTL_INVALID_INDEX else Some runStartBit)))"

text \<open>The strategy for a single bit.\<close>

partial_function (option) SingleLoop :: "reader \<Rightarrow> ULONG \<Rightarrow> nat \<Rightarrow> nat \<Rightarrow> CHUNK \<Rightarrow> ULONG option" where
  "SingleLoop rd lastPossibleStartBit lastPossibleStartChunk k chunk =
     (if chunk = CHUNK_SET
      then (if k + 1 > lastPossibleStartChunk then Some RTL_INVALID_INDEX
            else do { c \<leftarrow> rd (k + 1); SingleLoop rd lastPossibleStartBit lastPossibleStartChunk (k + 1) c })
      else do {
        b \<leftarrow> BitScanForward64 (NOT chunk);
        (let runStartBit = b + chunk_bit k
         in if runStartBit > lastPossibleStartBit then Some RTL_INVALID_INDEX else Some runStartBit) })"

definition RtlpFindClearBitsRange :: "reader \<Rightarrow> ULONG \<Rightarrow> ULONG \<Rightarrow> ULONG \<Rightarrow> ULONG option" where
  "RtlpFindClearBitsRange rd NumberToFind rangeStart rangeEnd =
     (if rangeEnd - rangeStart + 1 < NumberToFind then Some RTL_INVALID_INDEX
      else (let k = unat (rangeStart div 64);
                lastPossibleStartBit = rangeEnd - NumberToFind + 1;
                lastPossibleStartChunk = unat (lastPossibleStartBit div 64);
                headChunkMask = push_bit (unat (rangeStart mod 64)) 1 - 1
            in do {
              c \<leftarrow> rd k;
              (let firstChunk = c OR headChunkMask
               in if NumberToFind > 2 * 64 - 1 then LargeSearch rd NumberToFind lastPossibleStartBit k firstChunk
                  else if NumberToFind \<ge> 64
                  then MediumLoop rd NumberToFind lastPossibleStartBit lastPossibleStartChunk k firstChunk
                  else if NumberToFind > 1
                  then SmallLoop rd NumberToFind lastPossibleStartBit lastPossibleStartChunk (unat (rangeEnd div 64)) k firstChunk 0
                  else SingleLoop rd lastPossibleStartBit lastPossibleStartChunk k firstChunk) }))"

text \<open>\<open>READ_CHUNK\<close>: the chunks from the one at \<open>base\<close>, complemented when \<open>Invert\<close> is set.\<close>

definition READ_CHUNK :: "memory \<Rightarrow> nat \<Rightarrow> bool \<Rightarrow> reader" where
  "READ_CHUNK m base Invert k = map_option (\<lambda>c. if Invert then NOT c else c) (m (base + k))"

text \<open>
  The search from the hint and, failing that, from the start of the map.  A buffer that is only
  longword aligned is read from the chunk that contains it.
\<close>

definition FindBits :: "bool \<Rightarrow> memory \<Rightarrow> RTL_BITMAP \<Rightarrow> ULONG \<Rightarrow> ULONG \<Rightarrow> ULONG option" where
  "FindBits Invert m bm NumberToFind HintIndex =
     (let Size = SizeOfBitMap bm;
          RangeStart = (if HintIndex \<ge> Size then 0 else HintIndex);
          RangeEnd = Size - 1;
          Adjust = Buffer bm AND 4 \<noteq> 0;
          BufferAdjustBits = (if Adjust then 32 else 0);
          rd = READ_CHUNK m ((buf bm - (if Adjust then 4 else 0)) div 8) Invert;
          RangeEnd' = (let e = HintIndex + NumberToFind in if e > Size then Size else e) - 1
      in if NumberToFind = 0 then Some (RangeStart AND NOT 7)
         else do {
           b \<leftarrow> RtlpFindClearBitsRange rd NumberToFind (RangeStart + BufferAdjustBits) (RangeEnd + BufferAdjustBits);
           b' \<leftarrow> (if b \<noteq> RTL_INVALID_INDEX \<or> RangeStart = 0 then Some b
                  else RtlpFindClearBitsRange rd NumberToFind (0 + BufferAdjustBits) (RangeEnd' + BufferAdjustBits));
           Some (if b' \<noteq> RTL_INVALID_INDEX then b' - BufferAdjustBits else b') })"

definition RtlFindClearBits :: "memory \<Rightarrow> RTL_BITMAP \<Rightarrow> ULONG \<Rightarrow> ULONG \<Rightarrow> ULONG option" where
  "RtlFindClearBits = FindBits False"

definition RtlFindSetBits :: "memory \<Rightarrow> RTL_BITMAP \<Rightarrow> ULONG \<Rightarrow> ULONG \<Rightarrow> ULONG option" where
  "RtlFindSetBits = FindBits True"


section \<open>Ranges\<close>

definition upd8 :: "memory \<Rightarrow> nat \<Rightarrow> (UCHAR \<Rightarrow> UCHAR) \<Rightarrow> memory option" where
  "upd8 m a f = do { v \<leftarrow> rd8 m a; wr8 m a (f v) }"

definition RtlClearBits :: "memory \<Rightarrow> RTL_BITMAP \<Rightarrow> ULONG \<Rightarrow> ULONG \<Rightarrow> memory option" where
  "RtlClearBits m bm StartingIndex NumberToClear =
     (if NumberToClear = 0 then Some m
      else (let CurrentByte = buf bm + unat (StartingIndex div 8);
                BitOffset = StartingIndex mod 8
            in if BitOffset + NumberToClear \<le> 8
               then do { f \<leftarrow> entry FillMask (unat NumberToClear);
                         upd8 m CurrentByte (\<lambda>v. v AND NOT (push_bit (unat BitOffset) f)) }
               else do {
                 (m1, CurrentByte1, Number1) \<leftarrow>
                   (if BitOffset > 0
                    then do { f \<leftarrow> entry FillMask (unat BitOffset);
                              m1 \<leftarrow> upd8 m CurrentByte (\<lambda>v. v AND f);
                              Some (m1, CurrentByte + 1, NumberToClear - (8 - BitOffset)) }
                    else Some (m, CurrentByte, NumberToClear));
                 (m2, CurrentByte2, Number2) \<leftarrow>
                   (if Number1 > 8
                    then do { m2 \<leftarrow> memset m1 CurrentByte1 0 (unat (Number1 div 8));
                              Some (m2, CurrentByte1 + unat (Number1 div 8), Number1 mod 8) }
                    else Some (m1, CurrentByte1, Number1));
                 (if Number2 > 0
                  then do { f \<leftarrow> entry ZeroMask (unat Number2); upd8 m2 CurrentByte2 (\<lambda>v. v AND f) }
                  else Some m2) }))"

definition RtlSetBits :: "memory \<Rightarrow> RTL_BITMAP \<Rightarrow> ULONG \<Rightarrow> ULONG \<Rightarrow> memory option" where
  "RtlSetBits m bm StartingIndex NumberToSet =
     (if NumberToSet = 0 then Some m
      else (let CurrentByte = buf bm + unat (StartingIndex div 8);
                BitOffset = StartingIndex mod 8
            in if BitOffset + NumberToSet \<le> 8
               then do { f \<leftarrow> entry FillMask (unat NumberToSet);
                         upd8 m CurrentByte (\<lambda>v. v OR push_bit (unat BitOffset) f) }
               else do {
                 (m1, CurrentByte1, Number1) \<leftarrow>
                   (if BitOffset > 0
                    then do { f \<leftarrow> entry ZeroMask (unat BitOffset);
                              m1 \<leftarrow> upd8 m CurrentByte (\<lambda>v. v OR f);
                              Some (m1, CurrentByte + 1, NumberToSet - (8 - BitOffset)) }
                    else Some (m, CurrentByte, NumberToSet));
                 (m2, CurrentByte2, Number2) \<leftarrow>
                   (if Number1 > 8
                    then do { m2 \<leftarrow> memset m1 CurrentByte1 0xFF (unat (Number1 div 8));
                              Some (m2, CurrentByte1 + unat (Number1 div 8), Number1 mod 8) }
                    else Some (m1, CurrentByte1, Number1));
                 (if Number2 > 0
                  then do { f \<leftarrow> entry FillMask (unat Number2); upd8 m2 CurrentByte2 (\<lambda>v. v OR f) }
                  else Some m2) }))"

definition RtlFindClearBitsAndSet :: "memory \<Rightarrow> RTL_BITMAP \<Rightarrow> ULONG \<Rightarrow> ULONG \<Rightarrow> (ULONG \<times> memory) option" where
  "RtlFindClearBitsAndSet m bm NumberToFind HintIndex =
     do { StartingIndex \<leftarrow> RtlFindClearBits m bm NumberToFind HintIndex;
          m' \<leftarrow> (if StartingIndex \<noteq> 0xFFFFFFFF then RtlSetBits m bm StartingIndex NumberToFind else Some m);
          Some (StartingIndex, m') }"

definition RtlFindSetBitsAndClear :: "memory \<Rightarrow> RTL_BITMAP \<Rightarrow> ULONG \<Rightarrow> ULONG \<Rightarrow> (ULONG \<times> memory) option" where
  "RtlFindSetBitsAndClear m bm NumberToFind HintIndex =
     do { StartingIndex \<leftarrow> RtlFindSetBits m bm NumberToFind HintIndex;
          m' \<leftarrow> (if StartingIndex \<noteq> 0xFFFFFFFF then RtlClearBits m bm StartingIndex NumberToFind else Some m);
          Some (StartingIndex, m') }"

section \<open>Counting and testing\<close>

definition RtlpBitsSetTotal :: "UCHAR \<Rightarrow> ULONG option" where
  "RtlpBitsSetTotal Byte = entry RtlpBitsClearTotal (unat (NOT Byte))"

definition RtlpNumberOfSetBitsInChunk :: "CHUNK \<Rightarrow> ULONG" where
  "RtlpNumberOfSetBitsInChunk Target =
     (let Target = Target - (drop_bit 1 Target AND 0x5555555555555555);
          Target = (Target AND 0x3333333333333333) + (drop_bit 2 Target AND 0x3333333333333333);
          Target = (Target + drop_bit 4 Target) AND 0x0F0F0F0F0F0F0F0F
      in ucast (drop_bit 56 (Target * 0x0101010101010101)))"

text \<open>The loops over single bytes and over chunks.\<close>

primrec CountBytes :: "memory \<Rightarrow> nat \<Rightarrow> nat \<Rightarrow> ULONG \<Rightarrow> ULONG option" where
  "CountBytes m a 0 TotalSet = Some TotalSet"
| "CountBytes m a (Suc n) TotalSet =
     do { b \<leftarrow> rd8 m a; t \<leftarrow> RtlpBitsSetTotal b; CountBytes m (a + 1) n (TotalSet + t) }"

partial_function (option) CountChunks :: "memory \<Rightarrow> nat \<Rightarrow> ULONG \<Rightarrow> ULONG \<Rightarrow> (nat \<times> ULONG) option" where
  "CountChunks m a BytesMiddle TotalSet =
     (if BytesMiddle > 0
      then do { c \<leftarrow> m (a div 8); CountChunks m (a + 8) (BytesMiddle - 8) (TotalSet + RtlpNumberOfSetBitsInChunk c) }
      else Some (a, TotalSet))"

definition RtlNumberOfSetBits :: "memory \<Rightarrow> RTL_BITMAP \<Rightarrow> (ULONG \<times> memory) option" where
  "RtlNumberOfSetBits m bm =
     (let Size = SizeOfBitMap bm;
          SizeInBytes = (Size + 7) div 8;
          BytesHead = (ucast (- Buffer bm AND 7) :: ULONG);
          BytesTail = (SizeInBytes - BytesHead) mod 8;
          BytesMiddle = SizeInBytes - (BytesHead + BytesTail)
      in do {
        m' \<leftarrow> (if Size mod 8 \<noteq> 0
               then do { f \<leftarrow> entry FillMask (unat (Size mod 8)); upd8 m (buf bm + unat (SizeInBytes - 1)) (\<lambda>v. v AND f) }
               else Some m);
        t1 \<leftarrow> CountBytes m' (buf bm) (unat BytesHead) 0;
        (a, t2) \<leftarrow> CountChunks m' (buf bm + unat BytesHead) BytesMiddle t1;
        t3 \<leftarrow> CountBytes m' a (unat BytesTail) t2;
        Some (t3, m') })"

definition RtlNumberOfClearBits :: "memory \<Rightarrow> RTL_BITMAP \<Rightarrow> (ULONG \<times> memory) option" where
  "RtlNumberOfClearBits m bm = do { (n, m') \<leftarrow> RtlNumberOfSetBits m bm; Some (SizeOfBitMap bm - n, m') }"

text \<open>The loop over whole bytes that must all equal \<open>v\<close>; it leaves the address behind them.\<close>

partial_function (option) WholeBytes :: "memory \<Rightarrow> UCHAR \<Rightarrow> nat \<Rightarrow> ULONG \<Rightarrow> ULONG \<Rightarrow> nat option option" where
  "WholeBytes m v a i EndingByte =
     (if i < EndingByte
      then do { b \<leftarrow> rd8 m a; if b \<noteq> v then Some None else WholeBytes m v (a + 1) (i + 1) EndingByte }
      else Some (Some a))"

definition AreBits :: "bool \<Rightarrow> memory \<Rightarrow> RTL_BITMAP \<Rightarrow> ULONG \<Rightarrow> ULONG \<Rightarrow> bool option" where
  "AreBits Set m bm StartingIndex Count =
     (if StartingIndex + Count > SizeOfBitMap bm \<or> Count = 0 then Some False
      else (let EndingIndex = StartingIndex + Count - 1;
                StartingByte = StartingIndex div 8;
                EndingByte = EndingIndex div 8;
                StartingOffset = StartingIndex mod 8;
                EndingOffset = EndingIndex mod 8;
                a = buf bm + unat StartingByte;
                neg = (\<lambda>b::UCHAR. if Set then NOT b else b)
            in do {
              z \<leftarrow> entry ZeroMask (unat StartingOffset);
              f \<leftarrow> entry FillMask (unat (EndingOffset + 1));
              b \<leftarrow> rd8 m a;
              if StartingByte = EndingByte then Some (z AND f AND neg b = 0)
              else if z AND neg b \<noteq> 0 then Some False
              else do {
                w \<leftarrow> WholeBytes m (if Set then 0xFF else 0) (a + 1) (StartingByte + 1) EndingByte;
                (case w of None \<Rightarrow> Some False
                 | Some a' \<Rightarrow> do { b' \<leftarrow> rd8 m a'; Some (f AND neg b' = 0) }) } }))"

definition RtlAreBitsClear :: "memory \<Rightarrow> RTL_BITMAP \<Rightarrow> ULONG \<Rightarrow> ULONG \<Rightarrow> bool option" where
  "RtlAreBitsClear = AreBits False"

definition RtlAreBitsSet :: "memory \<Rightarrow> RTL_BITMAP \<Rightarrow> ULONG \<Rightarrow> ULONG \<Rightarrow> bool option" where
  "RtlAreBitsSet = AreBits True"

section \<open>The next and the last run of clear bits\<close>

definition FillMaskUlong :: "ULONG list" where
  "FillMaskUlong =
    [0x00000000, 0x00000001, 0x00000003, 0x00000007, 0x0000000F, 0x0000001F, 0x0000003F, 0x0000007F,
     0x000000FF, 0x000001FF, 0x000003FF, 0x000007FF, 0x00000FFF, 0x00001FFF, 0x00003FFF, 0x00007FFF,
     0x0000FFFF, 0x0001FFFF, 0x0003FFFF, 0x0007FFFF, 0x000FFFFF, 0x001FFFFF, 0x003FFFFF, 0x007FFFFF,
     0x00FFFFFF, 0x01FFFFFF, 0x03FFFFFF, 0x07FFFFFF, 0x0FFFFFFF, 0x1FFFFFFF, 0x3FFFFFFF, 0x7FFFFFFF,
     0xFFFFFFFF]"

text \<open>The longword at distance \<open>h\<close> from the buffer; \<open>h\<close> may be negative.\<close>

definition rdhunk :: "memory \<Rightarrow> RTL_BITMAP \<Rightarrow> int \<Rightarrow> ULONG option" where
  "rdhunk m bm h = rd32 m (nat (int (buf bm) + 4 * h))"

text \<open>The loop over whole longwords equal to \<open>pat\<close>, upwards to \<open>e\<close>.\<close>

partial_function (option) HunksUp :: "memory \<Rightarrow> RTL_BITMAP \<Rightarrow> ULONG \<Rightarrow> int \<Rightarrow> int \<Rightarrow> ULONG \<Rightarrow> (int \<times> ULONG) option" where
  "HunksUp m bm pat e h b =
     (if h < e then do { v \<leftarrow> rdhunk m bm h; if v \<noteq> pat then Some (h, b) else HunksUp m bm pat e (h + 1) (b + 32) }
      else Some (h, b))"

text \<open>The loop over single bits equal to \<open>x\<close>, upwards.\<close>

partial_function (option) BitsUp :: "memory \<Rightarrow> RTL_BITMAP \<Rightarrow> bool \<Rightarrow> ULONG \<Rightarrow> ULONG option" where
  "BitsUp m bm x b =
     (if b < SizeOfBitMap bm then do { v \<leftarrow> RtlCheckBit m bm b; if v = x then BitsUp m bm x (b + 1) else Some b }
      else Some b)"

text \<open>
  One half of the forward scan: from bit \<open>b\<close> in longword \<open>h\<close> to the next bit that is not \<open>x\<close>.
\<close>

definition ScanUp :: "memory \<Rightarrow> RTL_BITMAP \<Rightarrow> bool \<Rightarrow> int \<Rightarrow> int \<Rightarrow> ULONG \<Rightarrow> (int \<times> ULONG) option" where
  "ScanUp m bm x BitMapEnd PHunk b =
     do {
       (h, s) \<leftarrow> (if PHunk \<noteq> BitMapEnd
                  then do {
                    v \<leftarrow> rdhunk m bm PHunk;
                    f \<leftarrow> entry FillMaskUlong (unat (b mod 32));
                    (if (if x then v OR f else v AND NOT f) = (if x then - 1 else 0)
                     then HunksUp m bm (if x then - 1 else 0) BitMapEnd (PHunk + 1) (b + (32 - b mod 32))
                     else Some (PHunk, b)) }
                  else Some (PHunk, b));
       b' \<leftarrow> BitsUp m bm x s;
       Some (h, b') }"

definition RtlFindNextForwardRunClear :: "memory \<Rightarrow> RTL_BITMAP \<Rightarrow> ULONG \<Rightarrow> (ULONG \<times> ULONG) option" where
  "RtlFindNextForwardRunClear m bm FromIndex =
     (if SizeOfBitMap bm = 0 then Some (0, FromIndex)
      else (let BitMapEnd = int (unat ((SizeOfBitMap bm - 1) div 32))
            in do {
              (PHunk, Start) \<leftarrow> ScanUp m bm True BitMapEnd (int (unat (FromIndex div 32))) FromIndex;
              (PHunk', End) \<leftarrow> ScanUp m bm False BitMapEnd PHunk Start;
              Some (End - Start, Start) }))"

definition RtlFindFirstRunClear :: "memory \<Rightarrow> RTL_BITMAP \<Rightarrow> (ULONG \<times> ULONG) option" where
  "RtlFindFirstRunClear m bm = RtlFindNextForwardRunClear m bm 0"

partial_function (option) HunksDown :: "memory \<Rightarrow> RTL_BITMAP \<Rightarrow> ULONG \<Rightarrow> int \<Rightarrow> ULONG \<Rightarrow> (int \<times> ULONG) option" where
  "HunksDown m bm pat h b =
     (if h > 0 then do { v \<leftarrow> rdhunk m bm h; if v \<noteq> pat then Some (h, b) else HunksDown m bm pat (h - 1) (b - 32) }
      else Some (h, b))"

partial_function (option) BitsDown :: "memory \<Rightarrow> RTL_BITMAP \<Rightarrow> bool \<Rightarrow> ULONG \<Rightarrow> ULONG option" where
  "BitsDown m bm x b =
     (if b \<noteq> - 1 then do { v \<leftarrow> RtlCheckBit m bm b; if v = x then BitsDown m bm x (b - 1) else Some b }
      else Some b)"

definition RtlFindLastBackwardRunClear :: "memory \<Rightarrow> RTL_BITMAP \<Rightarrow> ULONG \<Rightarrow> (ULONG \<times> ULONG) option" where
  "RtlFindLastBackwardRunClear m bm FromIndex =
     (if SizeOfBitMap bm = 0 then Some (0, FromIndex)
      else (let PHunk = int (unat (FromIndex div 32))
            in do {
              v \<leftarrow> rdhunk m bm PHunk;
              f \<leftarrow> entry FillMaskUlong (unat (FromIndex mod 32 + 1));
              (h, e) \<leftarrow> (if v OR NOT f = - 1 then HunksDown m bm (- 1) (PHunk - 1) (FromIndex - (FromIndex mod 32 + 1))
                         else Some (PHunk, FromIndex));
              End \<leftarrow> BitsDown m bm True e;
              v' \<leftarrow> rdhunk m bm h;
              f' \<leftarrow> entry FillMaskUlong (unat (End mod 32));
              (h', s) \<leftarrow> (if v' AND f' = 0 then HunksDown m bm 0 (h - 1) (End - (End mod 32 + 1)) else Some (h, End));
              Start \<leftarrow> BitsDown m bm False s;
              Some (End - Start, Start + 1) }))"

section \<open>The ends of a 64-bit set\<close>

definition RtlFindMostSignificantBit :: "64 word \<Rightarrow> SCHAR" where
  "RtlFindMostSignificantBit Set = (case BitScanReverse64 Set of Some bitOffset \<Rightarrow> ucast bitOffset | None \<Rightarrow> - 1)"

definition RtlFindLeastSignificantBit :: "64 word \<Rightarrow> SCHAR" where
  "RtlFindLeastSignificantBit Set = (case BitScanForward64 Set of Some bitOffset \<Rightarrow> ucast bitOffset | None \<Rightarrow> - 1)"

end
