(* ===== verification/BitmapFind.thy ===== *)
theory BitmapFind
  imports Bitmap
begin

text \<open>
  The search for a run of bits finds the first fit: each of the four strategies of
  \<open>RtlpFindClearBitsRange\<close> returns the first place in its range where enough clear bits follow
  each other, reads no chunk behind the range, and always returns.
\<close>

section \<open>First fit\<close>

definition run_at :: "(nat \<Rightarrow> bool) \<Rightarrow> nat \<Rightarrow> nat \<Rightarrow> bool" where
  "run_at P n b = list_all (\<lambda>i. P (b + i)) [0..<n]"

text \<open>The first start of a run of \<open>n\<close> bits from \<open>lo\<close> to \<open>hi\<close>, both included.\<close>

definition first_fit :: "(nat \<Rightarrow> bool) \<Rightarrow> nat \<Rightarrow> nat \<Rightarrow> nat \<Rightarrow> nat option" where
  "first_fit P n lo hi = find (run_at P n) [lo..<Suc hi]"

definition index_of :: "nat option \<Rightarrow> ULONG" where
  "index_of r = (case r of None \<Rightarrow> RTL_INVALID_INDEX | Some b \<Rightarrow> word_of_nat b)"

lemma run_at_iff: "run_at P n b \<longleftrightarrow> (\<forall>i<n. P (b + i))"
  by (auto simp: run_at_def list_all_iff)

lemma run_atD: "run_at P n b \<Longrightarrow> b \<le> i \<Longrightarrow> i < b + n \<Longrightarrow> P i"
  unfolding run_at_iff by (metis le_add_diff_inverse less_diff_conv2 add.commute)

lemma first_fit_none: "(\<And>b. lo \<le> b \<Longrightarrow> b \<le> hi \<Longrightarrow> \<not> run_at P n b) \<Longrightarrow> first_fit P n lo hi = None"
  by (auto simp: first_fit_def find_None_iff)

lemma first_fit_found:
  assumes "lo \<le> b" "run_at P n b" "\<And>b'. lo \<le> b' \<Longrightarrow> b' < b \<Longrightarrow> \<not> run_at P n b'"
  shows "first_fit P n lo hi = (if b \<le> hi then Some b else None)"
proof (cases "b \<le> hi")
  case True
  have "find (run_at P n) [lo..<Suc hi] = Some b"
    unfolding find_Some_iff using True assms by (intro exI [of _ "b - lo"]) (auto simp del: upt_Suc)
  then show ?thesis using True by (simp add: first_fit_def)
next
  case False
  then show ?thesis using assms(3) by (auto intro: first_fit_none)
qed

section \<open>The bits of a chunk\<close>

lemma BitScanForward64_iff:
  "BitScanForward64 c = None \<longleftrightarrow> c = 0"
  "BitScanForward64 c = Some w \<Longrightarrow> \<exists>i<64. w = word_of_nat i \<and> bit c i \<and> (\<forall>j<i. \<not> bit c j)"
proof -
  show "BitScanForward64 c = None \<longleftrightarrow> c = 0"
    by (auto simp: BitScanForward64_def find_None_iff bit_eq_iff dest: bit_imp_le_length)
  show "\<exists>i<64. w = word_of_nat i \<and> bit c i \<and> (\<forall>j<i. \<not> bit c j)" if "BitScanForward64 c = Some w"
    using that by (auto simp: BitScanForward64_def find_Some_iff)
qed

lemma BitScanReverse64_iff:
  "BitScanReverse64 c = None \<longleftrightarrow> c = 0"
  "BitScanReverse64 c = Some w \<Longrightarrow> \<exists>i<64. w = word_of_nat i \<and> bit c i \<and> (\<forall>j. i < j \<longrightarrow> j < 64 \<longrightarrow> \<not> bit c j)"
proof -
  show "BitScanReverse64 c = None \<longleftrightarrow> c = 0"
    by (auto simp: BitScanReverse64_def find_None_iff bit_eq_iff dest: bit_imp_le_length)
  show "\<exists>i<64. w = word_of_nat i \<and> bit c i \<and> (\<forall>j. i < j \<longrightarrow> j < 64 \<longrightarrow> \<not> bit c j)" if sc: "BitScanReverse64 c = Some w"
  proof -
    obtain k where "find (bit c) (rev [0..<64]) = Some k" and w: "w = word_of_nat k"
      using sc by (auto simp: BitScanReverse64_def)
    then obtain i where i: "i < 64" "bit c (63 - i)" "k = 63 - i" "\<forall>j<i. \<not> bit c (63 - j)"
      by (auto simp: find_Some_iff rev_nth)
    have "\<not> bit c j" if "63 - i < j" "j < 64" for j
      using i(4) [rule_format, of "63 - j"] that i(1) by simp
    then show ?thesis using i w by (intro exI [of _ "63 - i"]) simp
  qed
qed

lemma ClearMSB:
  obtains h where "RtlpClearMSBInChunk c = word_of_nat h" "h \<le> 64" "\<forall>i<64. 64 - h \<le> i \<longrightarrow> \<not> bit c i"
    "h < 64 \<longrightarrow> bit c (63 - h)"
proof (cases "BitScanReverse64 c")
  case None
  then have "c = 0" by (simp add: BitScanReverse64_iff(1))
  with None show thesis by (intro that [of 64]) (simp_all add: RtlpClearMSBInChunk_def CHUNK_BITS_def)
next
  case (Some w)
  obtain i where i: "i < 64" "w = word_of_nat i" "bit c i" "\<forall>j. i < j \<longrightarrow> j < 64 \<longrightarrow> \<not> bit c j"
    using BitScanReverse64_iff(2) [OF Some] by blast
  have "(64 - word_of_nat i - 1 :: ULONG) = word_of_nat (63 - i)" using i(1) by (simp add: of_nat_diff)
  then show thesis using Some i by (intro that [of "63 - i"]) (auto simp: RtlpClearMSBInChunk_def CHUNK_BITS_def)
qed

lemma ClearLSB:
  obtains h where "RtlpClearLSBInChunk c = word_of_nat h" "h \<le> 64" "\<forall>i<h. \<not> bit c i" "h < 64 \<longrightarrow> bit c h"
proof (cases "BitScanForward64 c")
  case None
  then have "c = 0" by (simp add: BitScanForward64_iff(1))
  with None show thesis by (intro that [of 64]) (simp_all add: RtlpClearLSBInChunk_def CHUNK_BITS_def)
next
  case (Some w)
  then show thesis
    using BitScanForward64_iff(2) [OF Some] by (auto simp: RtlpClearLSBInChunk_def intro: that)
qed

declare RunLoop.simps [simp del]

lemma RunLoop_bits:
  "0 < r \<Longrightarrow> (case RunLoop M r of None \<Rightarrow> (\<forall>i. \<exists>j<unat r. \<not> bit M (i + j))
    | Some M' \<Rightarrow> M' \<noteq> 0 \<and> (\<forall>i. bit M' i \<longleftrightarrow> (\<forall>j<unat r. bit M (i + j))))"
proof (induction M r rule: RunLoop.induct)
  case (1 M r)
  define s where "s = r div 2"
  define M1 where "M1 = M AND drop_bit (unat s) M"
  have s: "unat s = unat r div 2" "unat (r - s) = unat r - unat r div 2"
    by (simp_all add: s_def unat_div_word unat_sub_small)
  have r: "0 < unat r" using 1(2) by (simp add: word_gt_0 unat_gt_0)
  have join: "(\<forall>j<unat (r - s). bit M1 (i + j)) \<longleftrightarrow> (\<forall>j<unat r. bit M (i + j))" for i
  proof
    assume l: "\<forall>j<unat (r - s). bit M1 (i + j)"
    show "\<forall>j<unat r. bit M (i + j)"
    proof (intro allI impI)
      fix j assume "j < unat r"
      then consider "j < unat (r - s)" | "unat s \<le> j" "j - unat s < unat (r - s)" using s by linarith
      then show "bit M (i + j)"
      proof cases
        case 2
        then have "bit M1 (i + (j - unat s))" using l by blast
        then show ?thesis using 2(1) by (simp add: M1_def bit_simps add.commute add.left_commute)
      qed (use l in \<open>auto simp: M1_def bit_simps\<close>)
    qed
  next
    assume l: "\<forall>j<unat r. bit M (i + j)"
    show "\<forall>j<unat (r - s). bit M1 (i + j)"
    proof (intro allI impI)
      fix j assume "j < unat (r - s)"
      then have "j < unat r" "j + unat s < unat r" using s by linarith+
      then have "bit M (i + j)" "bit M (i + (j + unat s))" using l by blast+
      then show "bit M1 (i + j)" by (simp add: M1_def bit_simps ac_simps)
    qed
  qed
  show ?case
  proof (cases "M1 = 0")
    case True
    have "0 < unat (r - s)" using s r by linarith
    then have "\<not> (\<forall>j<unat r. bit M (i + j))" for i using join [of i] True by auto
    then show ?thesis using True by (subst RunLoop.simps) (auto simp: Let_def M1_def s_def)
  next
    case False
    show ?thesis
    proof (cases "r - s > 1")
      case True
      then have "0 < r - s" by (simp add: word_less_nat_alt)
      note IH = 1(1) [OF s_def M1_def refl False True this]
      have ex: "(\<exists>j<unat (r - s). \<not> bit M1 (i + j)) \<longleftrightarrow> (\<exists>j<unat r. \<not> bit M (i + j))" for i using join [of i] by blast
      have "RunLoop M r = RunLoop M1 (r - s)" using False True by (subst RunLoop.simps) (simp add: Let_def M1_def s_def)
      then show ?thesis using IH by (simp only: join ex)
    next
      case not: False
      then have "unat (r - s) = 1" using s r by (simp add: word_less_nat_alt)
      then have "bit M1 i \<longleftrightarrow> (\<forall>j<unat r. bit M (i + j))" for i using join [of i] by simp
      then show ?thesis using False not by (subst RunLoop.simps) (auto simp: Let_def M1_def s_def)
    qed
  qed
qed

lemma FindClearRunInChunk:
  assumes "0 < N"
  shows "RtlpFindClearRunInChunk c N = None \<Longrightarrow> \<exists>j<unat N. i + j \<ge> 64 \<or> bit c (i + j)"
    and "RtlpFindClearRunInChunk c N = Some w \<Longrightarrow> \<exists>i<64. w = word_of_nat i
      \<and> (\<forall>j<unat N. i + j < 64 \<and> \<not> bit c (i + j)) \<and> (\<forall>i'<i. \<exists>j<unat N. i' + j \<ge> 64 \<or> bit c (i' + j))"
proof -
  have neg: "bit (NOT c) k \<longleftrightarrow> k < 64 \<and> \<not> bit c k" for k by (simp add: bit_simps)
  note rl = RunLoop_bits [OF assms, of "NOT c"]
  show "\<exists>j<unat N. i + j \<ge> 64 \<or> bit c (i + j)" if "RtlpFindClearRunInChunk c N = None"
    using that rl BitScanForward64_iff(1) unfolding neg
    by (auto simp: RtlpFindClearRunInChunk_def not_le [symmetric] split: option.splits)
  show "\<exists>i<64. w = word_of_nat i \<and> (\<forall>j<unat N. i + j < 64 \<and> \<not> bit c (i + j))
      \<and> (\<forall>i'<i. \<exists>j<unat N. i' + j \<ge> 64 \<or> bit c (i' + j))" if fd: "RtlpFindClearRunInChunk c N = Some w"
  proof -
    obtain M where M: "RunLoop (NOT c) N = Some M" "BitScanForward64 M = Some w"
      using fd by (auto simp: RtlpFindClearRunInChunk_def split: option.splits)
    have b: "bit M i \<longleftrightarrow> (\<forall>j<unat N. i + j < 64 \<and> \<not> bit c (i + j))" for i using rl M(1) unfolding neg by simp
    obtain i where "i < 64" "w = word_of_nat i" "bit M i" "\<forall>j<i. \<not> bit M j"
      using BitScanForward64_iff(2) [OF M(2)] by blast
    then show ?thesis unfolding b by (auto simp: not_le [symmetric])
  qed
qed


section \<open>The four strategies\<close>

text \<open>
  \<open>P i\<close> says that bit \<open>i\<close> of the chunk array is clear and inside the search: a chunk shows the
  bits of its number, and a reader shows those of the chunks behind the first up to \<open>E\<close>.
\<close>

definition shows_chunk :: "(nat \<Rightarrow> bool) \<Rightarrow> nat \<Rightarrow> CHUNK \<Rightarrow> bool" where
  "shows_chunk P k c \<longleftrightarrow> (\<forall>i<64. P (64 * k + i) \<longleftrightarrow> \<not> bit c i)"

definition reads :: "reader \<Rightarrow> (nat \<Rightarrow> bool) \<Rightarrow> nat \<Rightarrow> nat \<Rightarrow> bool" where
  "reads rd P k0 E \<longleftrightarrow> (\<forall>k. k0 < k \<longrightarrow> k \<le> E \<longrightarrow> (\<exists>c. rd k = Some c \<and> shows_chunk P k c))"

lemma shows_at: "shows_chunk P k c \<Longrightarrow> i < 64 \<Longrightarrow> P (64 * k + i) \<longleftrightarrow> \<not> bit c i"
  by (simp add: shows_chunk_def)

lemma readsD:
  assumes "reads rd P k0 E" "k0 < k" "k \<le> E"
  obtains c where "rd k = Some c" "shows_chunk P k c"
  using assms by (auto simp: reads_def)

lemma chunk_split: fixes i :: nat shows "i div 64 = k \<Longrightarrow> \<exists>j<64. i = 64 * k + j"
  by (intro exI [of _ "i mod 64"]) (use mult_div_mod_eq [of 64 i] in auto)

lemma chunk_clear: "shows_chunk P k c \<Longrightarrow> c = CHUNK_CLEAR \<longleftrightarrow> (\<forall>i<64. P (64 * k + i))"
  by (auto simp: shows_chunk_def CHUNK_CLEAR_def bit_eq_iff dest: bit_imp_le_length)

lemma chunk_set: "shows_chunk P k c \<Longrightarrow> c = CHUNK_SET \<longleftrightarrow> (\<forall>i<64. \<not> P (64 * k + i))"
  by (auto simp: shows_chunk_def CHUNK_SET_def bit_eq_iff)

lemma unat_chunk_bit: "64 * k + 63 < 2 ^ 32 \<Longrightarrow> chunk_bit k = word_of_nat (64 * k)"
  by (simp add: chunk_bit_def CHUNK_BITS_def mult.commute)

lemma word_index:
  assumes "b < 2 ^ 32"
  shows "(Lw :: ULONG) < word_of_nat b \<longleftrightarrow> unat Lw < b"
  using assms by (simp add: word_less_nat_alt unat_of_nat)

text \<open>The end of every strategy: a run is found and nothing before it.\<close>

lemma found_run:
  fixes Lw :: ULONG
  assumes "lo \<le> b" "run_at P n b" "\<And>b'. lo \<le> b' \<Longrightarrow> b' < b \<Longrightarrow> \<not> run_at P n b'" "b < 2 ^ 32"
  shows "(if Lw < word_of_nat b then Some RTL_INVALID_INDEX else Some (word_of_nat b))
    = Some (index_of (first_fit P n lo (unat Lw)))"
  using first_fit_found [OF assms(1-3), of "unat Lw"] word_index [OF assms(4), of Lw]
  by (auto simp: index_of_def)

lemma no_run:
  "(\<And>b. lo \<le> b \<Longrightarrow> b \<le> unat Lw \<Longrightarrow> \<not> run_at P n b) \<Longrightarrow>
    Some RTL_INVALID_INDEX = Some (index_of (first_fit P n lo (unat Lw)))"
  using first_fit_none [of lo "unat Lw" P n] by (simp add: index_of_def)

lemma below_bit:
  fixes lo k i b :: nat
  assumes "\<And>b. lo \<le> b \<Longrightarrow> b < 64 * k \<Longrightarrow> Q b" "\<And>j. j < i \<Longrightarrow> Q (64 * k + j)" "lo \<le> b" "b < 64 * k + i"
  shows "Q b"
proof (cases "b < 64 * k")
  case False
  then have "Q (64 * k + (b - 64 * k))" using assms(4) by (intro assms(2)) simp
  with False show ?thesis by simp
qed (use assms in simp)

lemma below_next:
  fixes lo k b :: nat
  assumes "\<And>b. lo \<le> b \<Longrightarrow> b < 64 * k \<Longrightarrow> Q b" "\<And>j. j < 64 \<Longrightarrow> Q (64 * k + j)" "lo \<le> b" "b < 64 * (k + 1)"
  shows "Q b"
  using below_bit [of lo k Q 64 b] assms by simp

lemma top_chunk: "b \<le> (L::nat) \<Longrightarrow> k + 1 > L div 64 \<Longrightarrow> b < 64 * (k + 1)"
  by (metis div_less_iff_less_mult leD less_le_trans mult.commute not_le_imp_less zero_less_numeral)

lemma chunk_fits: "k \<le> unat (L :: ULONG) div 64 \<Longrightarrow> 64 * k + 63 < 2 ^ 32"
proof -
  assume "k \<le> unat L div 64"
  moreover have "unat L div 64 < 2 ^ 26" using unat_bound [of L] by (simp add: div_less_iff_less_mult)
  ultimately show ?thesis by simp
qed

lemma SingleLoop_first_fit:
  assumes "k0 \<le> k" "k \<le> unat Lw div 64" "shows_chunk P k chunk" "reads rd P k0 (unat Lw div 64)"
    and "\<And>b. 64 * k0 \<le> b \<Longrightarrow> b < 64 * k \<Longrightarrow> \<not> P b"
  shows "SingleLoop rd Lw (unat Lw div 64) k chunk = Some (index_of (first_fit P 1 (64 * k0) (unat Lw)))"
  using assms
proof (induction "unat Lw div 64 - k" arbitrary: k chunk rule: less_induct)
  case less
  note fits = chunk_fits [OF less.prems(2)]
  show ?case
  proof (cases "chunk = CHUNK_SET")
    case True
    have none: "\<not> P b" if "64 * k0 \<le> b" "b < 64 * (k + 1)" for b
      by (rule below_next [OF less.prems(5) _ that]) (use True chunk_set [OF less.prems(3)] in simp_all)
    show ?thesis
    proof (cases "k + 1 > unat Lw div 64")
      case top: True
      have "Some RTL_INVALID_INDEX = Some (index_of (first_fit P 1 (64 * k0) (unat Lw)))"
        by (rule no_run) (use none top_chunk [OF _ top] in \<open>auto simp: run_at_iff\<close>)
      then show ?thesis using True top by (subst SingleLoop.simps) simp
    next
      case False
      then obtain c where c: "rd (k + 1) = Some c" "shows_chunk P (k + 1) c"
        using readsD [OF less.prems(4), of "k + 1"] less.prems(1) by auto
      have "SingleLoop rd Lw (unat Lw div 64) (k + 1) c = Some (index_of (first_fit P 1 (64 * k0) (unat Lw)))"
        using False less.prems(1,4) none by (intro less.hyps c(2)) auto
      then show ?thesis using True False c(1) by (subst SingleLoop.simps) simp
    qed
  next
    case False
    then have "NOT chunk \<noteq> 0" by (metis CHUNK_SET_def bit.compl_zero bit.double_compl)
    then obtain w where w: "BitScanForward64 (NOT chunk) = Some w" using BitScanForward64_iff(1) by fastforce
    obtain i where i: "i < 64" "w = word_of_nat i" "\<not> bit chunk i" "\<forall>j<i. bit chunk j"
      using BitScanForward64_iff(2) [OF w] by (auto simp: bit_simps)
    have b: "w + chunk_bit k = word_of_nat (64 * k + i)"
      using i(2) unat_chunk_bit [OF fits] by simp
    have "(if Lw < word_of_nat (64 * k + i) then Some RTL_INVALID_INDEX else Some (word_of_nat (64 * k + i)))
        = Some (index_of (first_fit P 1 (64 * k0) (unat Lw)))"
    proof (rule found_run)
      fix b' assume b': "64 * k0 \<le> b'" "b' < 64 * k + i"
      have "\<not> P (64 * k + j)" if "j < i" for j using that less.prems(3) i(1,4) by (simp add: shows_chunk_def)
      with less.prems(5) have "\<not> P b'" using b' by (rule below_bit [where Q = "\<lambda>b. \<not> P b"])
      then show "\<not> run_at P 1 b'" by (simp add: run_at_iff)
    qed (use less.prems(1,3) i fits in \<open>auto simp: run_at_iff shows_chunk_def\<close>)
    then show ?thesis using False w b by (subst SingleLoop.simps) (simp add: Let_def split: if_splits)
  qed
qed


text \<open>What the clear bits at the end and at the start of a chunk say about the bits.\<close>

lemma chunk_tail:
  assumes "shows_chunk P k c"
  obtains h where "RtlpClearMSBInChunk c = word_of_nat h" "h \<le> 64"
    "\<forall>i. 64 * k + 64 \<le> i + h \<longrightarrow> i < 64 * k + 64 \<longrightarrow> P i" "h < 64 \<longrightarrow> \<not> P (64 * k + (63 - h))"
proof -
  obtain h where h: "RtlpClearMSBInChunk c = word_of_nat h" "h \<le> 64" "\<forall>i<64. 64 - h \<le> i \<longrightarrow> \<not> bit c i"
    "h < 64 \<longrightarrow> bit c (63 - h)"
    by (rule ClearMSB)
  have "P i" if "64 * k + 64 \<le> i + h" "i < 64 * k + 64" for i
  proof -
    have "64 - h \<le> i - 64 * k" "i - 64 * k < 64" "i = 64 * k + (i - 64 * k)" using h(2) that by linarith+
    then show "P i" using assms h(3) unfolding shows_chunk_def by metis
  qed
  moreover have "\<not> P (64 * k + (63 - h))" if "h < 64" using shows_at [OF assms, of "63 - h"] h(4) that by linarith
  ultimately show thesis using h(1,2) that by blast
qed

lemma chunk_head:
  assumes "shows_chunk P k c"
  obtains h where "RtlpClearLSBInChunk c = word_of_nat h" "h \<le> 64"
    "\<forall>i. 64 * k \<le> i \<longrightarrow> i < 64 * k + h \<longrightarrow> P i" "h < 64 \<longrightarrow> \<not> P (64 * k + h)"
proof -
  obtain h where h: "RtlpClearLSBInChunk c = word_of_nat h" "h \<le> 64" "\<forall>i<h. \<not> bit c i" "h < 64 \<longrightarrow> bit c h"
    by (rule ClearLSB)
  have "P i" if "64 * k \<le> i" "i < 64 * k + h" for i
  proof -
    have "i - 64 * k < h" "i - 64 * k < 64" "i = 64 * k + (i - 64 * k)" using h(2) that by linarith+
    then show "P i" using assms h(3) unfolding shows_chunk_def by metis
  qed
  moreover have "\<not> P (64 * k + h)" if "h < 64" using shows_at [OF assms that] h(4) that by blast
  ultimately show thesis using h(1,2) that by blast
qed

lemma not_run: "\<not> P i \<Longrightarrow> b \<le> i \<Longrightarrow> i < b + n \<Longrightarrow> \<not> run_at P n b"
  using run_atD by blast

lemma runI: "(\<And>i. b \<le> i \<Longrightarrow> i < b + n \<Longrightarrow> P i) \<Longrightarrow> run_at P n b"
  by (simp add: run_at_iff)

definition none_before :: "(nat \<Rightarrow> bool) \<Rightarrow> nat \<Rightarrow> nat \<Rightarrow> nat \<Rightarrow> bool" where
  "none_before P n lo x \<longleftrightarrow> (\<forall>b. lo \<le> b \<longrightarrow> b < x \<longrightarrow> \<not> run_at P n b)"

lemma none_beforeD: "none_before P n lo x \<Longrightarrow> lo \<le> b \<Longrightarrow> b < x \<Longrightarrow> \<not> run_at P n b"
  by (simp add: none_before_def)

lemma none_before_step:
  assumes "none_before P n lo x" "\<And>b. x \<le> b \<Longrightarrow> lo \<le> b \<Longrightarrow> b < y \<Longrightarrow> \<not> run_at P n b"
  shows "none_before P n lo y"
  using assms by (auto simp: none_before_def not_less)

lemma invalid_answer:
  "none_before P n lo x \<Longrightarrow> unat Lw < x \<Longrightarrow> Some RTL_INVALID_INDEX = Some (index_of (first_fit P n lo (unat Lw)))"
  by (rule no_run) (auto simp: none_before_def)

lemma found_answer:
  fixes Lw :: ULONG
  assumes "none_before P n lo b" "lo \<le> b" "run_at P n b" "b < 2 ^ 32"
  shows "(if Lw < word_of_nat b then Some RTL_INVALID_INDEX else Some (word_of_nat b))
    = Some (index_of (first_fit P n lo (unat Lw)))"
  by (rule found_run) (use assms in \<open>auto simp: none_before_def\<close>)

text \<open>Runs shorter than a chunk: \<open>t\<close> clear bits end the chunk before \<open>k\<close>.\<close>

definition small_at :: "(nat \<Rightarrow> bool) \<Rightarrow> nat \<Rightarrow> nat \<Rightarrow> nat \<Rightarrow> nat \<Rightarrow> bool" where
  "small_at P n k0 k t \<longleftrightarrow> k0 \<le> k \<and> t < n \<and> 64 * k0 + t \<le> 64 * k \<and> (\<forall>i. 64 * k \<le> i + t \<longrightarrow> i < 64 * k \<longrightarrow> P i)
     \<and> none_before P n (64 * k0) (64 * k - t)"

lemma small_set:
  assumes "small_at P n k0 k t" "0 < n" "shows_chunk P k CHUNK_SET"
  shows "small_at P n k0 (k + 1) 0"
proof -
  have set: "\<not> P (64 * k + j)" if "j < 64" for j using assms(3) that chunk_set by blast
  have "none_before P n (64 * k0) (64 * k - t)" "t < n" using assms(1) by (simp_all add: small_at_def)
  then have "none_before P n (64 * k0) (64 * (k + 1))"
  proof (elim none_before_step)
    fix b assume b: "64 * k - t \<le> b" "b < 64 * (k + 1)"
    show "\<not> run_at P n b"
    proof (cases "b < 64 * k")
      case True
      then show ?thesis using set [of 0] b(1) \<open>t < n\<close> by (intro not_run [of P "64 * k"]) simp_all
    next
      case False
      then show ?thesis using set [of "b - 64 * k"] b(2) assms(2) by (intro not_run [of P b]) simp_all
    qed
  qed
  then show ?thesis using assms by (simp add: small_at_def)
qed

lemma small_join:
  assumes "small_at P n k0 k t" "n \<le> h + t" "\<forall>i. 64 * k \<le> i \<longrightarrow> i < 64 * k + h \<longrightarrow> P i"
  shows "run_at P n (64 * k - t)"
proof (rule runI)
  fix i assume i: "64 * k - t \<le> i" "i < 64 * k - t + n"
  have "64 * k0 + t \<le> 64 * k" using assms(1) by (simp add: small_at_def)
  then show "P i"
    using assms i by (cases "i < 64 * k") (auto simp: small_at_def)
qed

text \<open>No run starts in the clear bits before chunk \<open>k\<close> when its \<open>h\<close> first clear bits do not complete it.\<close>

lemma small_tail:
  assumes "small_at P n k0 k t" "h + t < n" "\<not> P (64 * k + h)"
  shows "none_before P n (64 * k0) (64 * k)"
proof -
  have "none_before P n (64 * k0) (64 * k - t)" using assms(1) by (simp add: small_at_def)
  then show ?thesis
  proof (rule none_before_step)
    fix b assume "64 * k - t \<le> b" "b < 64 * k"
    then show "\<not> run_at P n b" using assms(2) by (intro not_run [of P, OF assms(3)]) linarith+
  qed
qed

lemma small_inside:
  assumes "none_before P n (64 * k0) (64 * k)" "shows_chunk P k c"
    "\<forall>i'<i. \<exists>j<n. i' + j \<ge> 64 \<or> bit c (i' + j)" "i + n \<le> 64"
  shows "none_before P n (64 * k0) (64 * k + i)"
  using assms(1)
proof (rule none_before_step)
  fix b assume b: "64 * k \<le> b" "b < 64 * k + i"
  then have "b - 64 * k < i" by linarith
  then obtain j where j: "j < n" "b - 64 * k + j \<ge> 64 \<or> bit c (b - 64 * k + j)" using assms(3) by blast
  have lt: "b - 64 * k + j < 64" using b j(1) assms(4) by linarith
  then have "\<not> P (64 * k + (b - 64 * k + j))" using shows_at [OF assms(2) lt] j(2) by linarith
  moreover have "64 * k + (b - 64 * k + j) = b + j" using b(1) by linarith
  ultimately show "\<not> run_at P n b" using j(1) by (intro not_run [of P "b + j"]) simp_all
qed

lemma small_next:
  assumes "none_before P n (64 * k0) (64 * k)" "shows_chunk P k c" "k0 \<le> k" "0 < n" "n < 64"
    and none: "\<And>i. \<exists>j<n. i + j \<ge> 64 \<or> bit c (i + j)"
    and t: "t \<le> 64" "\<forall>i. 64 * k + 64 \<le> i + t \<longrightarrow> i < 64 * k + 64 \<longrightarrow> P i" "t < 64 \<longrightarrow> \<not> P (64 * k + (63 - t))"
  shows "small_at P n k0 (k + 1) t"
proof -
  have "t < n"
  proof (rule ccontr)
    assume "\<not> t < n"
    moreover obtain j where "j < n" "64 - t + j \<ge> 64 \<or> bit c (64 - t + j)" using none by blast
    ultimately have lt: "64 - t + j < 64" and "bit c (64 - t + j)" using t(1) by linarith+
    then have "\<not> P (64 * k + (64 - t + j))" using shows_at [OF assms(2) lt] by blast
    moreover have "64 * k + 64 \<le> 64 * k + (64 - t + j) + t" "64 * k + (64 - t + j) < 64 * k + 64"
      using lt t(1) by linarith+
    ultimately show False using t(2) by blast
  qed
  have "none_before P n (64 * k0) (64 * (k + 1) - t)"
    using assms(1)
  proof (rule none_before_step)
    fix b assume b: "64 * k \<le> b" "b < 64 * (k + 1) - t"
    then show "\<not> run_at P n b"
    proof (cases "b - 64 * k + n \<le> 64")
      case True
      obtain j where j: "j < n" "b - 64 * k + j \<ge> 64 \<or> bit c (b - 64 * k + j)" using none by blast
      have lt: "b - 64 * k + j < 64" using True j(1) by linarith
      then have "\<not> P (64 * k + (b - 64 * k + j))" using shows_at [OF assms(2) lt] j(2) by linarith
      moreover have "64 * k + (b - 64 * k + j) = b + j" using b(1) by linarith
      ultimately show ?thesis using j(1) by (intro not_run [of P "b + j"]) simp_all
    next
      case False
      have "t < 64" using \<open>t < n\<close> assms(5) by linarith
      then have "\<not> P (64 * k + (63 - t))" using t(3) by blast
      moreover have "b \<le> 64 * k + (63 - t)" using b \<open>t < 64\<close> by simp
      moreover have "64 * k + (63 - t) < b + n" using False b(1) by linarith
      ultimately show ?thesis by (rule not_run)
    qed
  qed
  then show ?thesis using \<open>t < n\<close> t assms(3,5) by (simp add: small_at_def)
qed


text \<open>The answers of the strategy: a run that joins two chunks, one inside a chunk, none.\<close>

lemma small_join_answer:
  fixes Lw :: ULONG
  assumes at: "small_at P n k0 k t" and "n \<le> h + t" "\<forall>i. 64 * k \<le> i \<longrightarrow> i < 64 * k + h \<longrightarrow> P i" and fits: "64 * k + 63 < 2 ^ 32"
  shows "(if Lw < 0 - word_of_nat t + chunk_bit k then Some RTL_INVALID_INDEX else Some (0 - word_of_nat t + chunk_bit k))
    = Some (index_of (first_fit P n (64 * k0) (unat Lw)))"
proof -
  have t: "64 * k0 + t \<le> 64 * k" using at by (simp add: small_at_def)
  have w: "0 - word_of_nat t + chunk_bit k = word_of_nat (64 * k - t)"
    using t unat_chunk_bit [OF fits] by (simp add: of_nat_diff)
  show ?thesis unfolding w
    using at t fits by (intro found_answer small_join [OF at assms(2,3)]) (simp_all add: small_at_def)
qed

lemma small_inside_answer:
  fixes Lw :: ULONG
  assumes before: "none_before P n (64 * k0) (64 * k)" and c: "shows_chunk P k c" and "k0 \<le> k" and N: "n = unat N" "0 < n"
    and find: "RtlpFindClearRunInChunk c N = Some w" and fits: "64 * k + 63 < 2 ^ 32"
  shows "(if Lw < w + chunk_bit k then Some RTL_INVALID_INDEX else Some (w + chunk_bit k))
    = Some (index_of (first_fit P n (64 * k0) (unat Lw)))"
proof -
  have "0 < N" using N by (simp add: word_gt_0 flip: unat_gt_0)
  then obtain i where i: "i < 64" "w = word_of_nat i" "\<forall>j<n. i + j < 64 \<and> \<not> bit c (i + j)"
    "\<forall>i'<i. \<exists>j<n. i' + j \<ge> 64 \<or> bit c (i' + j)"
    using FindClearRunInChunk(2) [OF _ find] N(1) by blast
  have "i + (n - 1) < 64" using i(3) [rule_format, of "n - 1"] N(2) by linarith
  then have top: "i + n \<le> 64" using N(2) by linarith
  have w: "w + chunk_bit k = word_of_nat (64 * k + i)" using i(2) unat_chunk_bit [OF fits] by simp
  show ?thesis unfolding w
  proof (rule found_answer)
    show "none_before P n (64 * k0) (64 * k + i)" by (rule small_inside [OF before c i(4) top])
    show "run_at P n (64 * k + i)" using i(3) by (simp add: run_at_iff add.assoc shows_at [OF c])
  qed (use assms(3) i(1) fits in simp_all)
qed

lemma small_end_answer:
  fixes Lw Ew :: ULONG
  assumes "small_at P n k0 (k + 1) t" "unat Ew div 64 = k" "unat Lw + n = unat Ew + 1"
  shows "Some RTL_INVALID_INDEX = Some (index_of (first_fit P n (64 * k0) (unat Lw)))"
proof (rule invalid_answer)
  have "unat Ew < 64 * (k + 1)" using top_chunk [of "unat Ew" "unat Ew" k] assms(2) by simp
  then show "unat Lw < 64 * (k + 1) - t" using assms(1,3) unfolding small_at_def by linarith
  show "none_before P n (64 * k0) (64 * (k + 1) - t)" using assms(1) by (simp add: small_at_def)
qed

lemma small_set_answer:
  fixes Lw :: ULONG
  assumes "small_at P n k0 (k + 1) 0" "k + 1 > unat Lw div 64"
  shows "Some RTL_INVALID_INDEX = Some (index_of (first_fit P n (64 * k0) (unat Lw)))"
proof (rule invalid_answer)
  show "unat Lw < 64 * (k + 1)" by (rule top_chunk [OF order_refl assms(2)])
  show "none_before P n (64 * k0) (64 * (k + 1))" using assms(1) by (simp add: small_at_def)
qed

lemma SmallLoop_first_fit:
  fixes N Lw Ew :: ULONG
  assumes n: "n = unat N" "1 < n" "n < 64" and E: "unat Ew div 64 = E" and L: "unat Lw + n = unat Ew + 1"
    and rd: "reads rd P k0 E"
    and at: "small_at P n k0 k t" "k \<le> E" "shows_chunk P k chunk"
  shows "SmallLoop rd N Lw (unat Lw div 64) E k chunk (word_of_nat t) = Some (index_of (first_fit P n (64 * k0) (unat Lw)))"
    (is "_ = ?answer")
  using at
proof (induction "E - k" arbitrary: k chunk t rule: less_induct)
  case less
  note SL = SmallLoop.simps [of rd N Lw "unat Lw div 64" E k chunk "word_of_nat t"]
  have fits: "64 * k + 63 < 2 ^ 32" using chunk_fits [of k Ew] less.prems(2) E by simp
  have k0: "k0 \<le> k" and t: "t < n" using less.prems(1) by (simp_all add: small_at_def)
  have step: "(rd (k + 1) \<bind> (\<lambda>c. SmallLoop rd N Lw (unat Lw div 64) E (k + 1) c (word_of_nat t'))) = ?answer"
    if kE: "k + 1 \<le> E" and at': "small_at P n k0 (k + 1) t'" for t'
  proof -
    obtain c where "rd (k + 1) = Some c" "shows_chunk P (k + 1) c" using readsD [OF rd _ kE] k0 by auto
    then show ?thesis using less.hyps [OF _ at' kE] kE by simp
  qed
  have LE: "unat Lw div 64 \<le> E" using L n(2) unfolding E [symmetric] by (intro div_le_mono) linarith
  show ?case
  proof (cases "chunk = CHUNK_SET")
    case True
    have "small_at P n k0 (k + 1) 0" using small_set [OF less.prems(1)] less.prems(3) True n(2) by simp
    then show ?thesis
      unfolding SL using True small_set_answer step [of 0] LE by (cases "k + 1 > unat Lw div 64") simp_all
  next
    case False
    obtain h where h: "RtlpClearLSBInChunk chunk = word_of_nat h" "h \<le> 64"
      "\<forall>i. 64 * k \<le> i \<longrightarrow> i < 64 * k + h \<longrightarrow> P i" "h < 64 \<longrightarrow> \<not> P (64 * k + h)"
      by (rule chunk_head [OF less.prems(3)])
    have sum: "N \<le> word_of_nat h + word_of_nat t \<longleftrightarrow> n \<le> h + t"
      using h(2) t n by (simp add: word_le_nat_alt unat_of_nat flip: of_nat_add)
    show ?thesis
    proof (cases "n \<le> h + t")
      case True
      then show ?thesis
        unfolding SL using False h(1) sum small_join_answer [OF less.prems(1) True h(3) fits, of Lw]
        by (simp add: Let_def split: if_splits)
    next
      case short: False
      then have before: "none_before P n (64 * k0) (64 * k)"
        using h(4) n(3) by (intro small_tail [OF less.prems(1)]) simp_all
      obtain t' where t': "RtlpClearMSBInChunk chunk = word_of_nat t'" "t' \<le> 64"
        "\<forall>i. 64 * k + 64 \<le> i + t' \<longrightarrow> i < 64 * k + 64 \<longrightarrow> P i" "t' < 64 \<longrightarrow> \<not> P (64 * k + (63 - t'))"
        by (rule chunk_tail [OF less.prems(3)])
      show ?thesis
      proof (cases "RtlpFindClearRunInChunk chunk N")
        case None
        have "0 < N" using n by (simp add: word_gt_0 flip: unat_gt_0)
        then have nxt: "small_at P n k0 (k + 1) t'"
          using n FindClearRunInChunk(1) [OF _ None]
          by (intro small_next [OF before less.prems(3) k0 _ _ _ t'(2-4)]) simp_all
        show ?thesis
          unfolding SL using False short h(1) sum None t'(1) small_end_answer [OF nxt _ L] step [OF _ nxt] less.prems(2) E
          by (cases "k = E") (simp_all add: Let_def)
      next
        case (Some w)
        then show ?thesis
          unfolding SL using False short h(1) sum small_inside_answer [OF before less.prems(3) k0 n(1) _ Some fits, of Lw] n(2)
          by (simp add: Let_def split: if_splits)
      qed
    qed
  qed
qed

end
