(* ===== verification/BitmapFindLong.thy ===== *)
theory BitmapFindLong
  imports BitmapFind
begin

text \<open>
  The two strategies for runs of at least a chunk, and \<open>RtlpFindClearBitsRange\<close> as a whole: it
  returns the first fit in its range.
\<close>

section \<open>Runs of a chunk and more\<close>

text \<open>A bit that is not clear excludes every start of a run that would contain it.\<close>

lemma none_before_block:
  assumes "none_before P n lo x" "\<not> P i" "i < x + n" "y \<le> Suc i"
  shows "none_before P n lo y"
  by (rule none_before_step [OF assms(1)], rule not_run [of P i, OF assms(2)]) (use assms(3,4) in linarith)+

lemma found_here:
  fixes Lw :: ULONG
  assumes "none_before P n lo b" "lo \<le> b" "run_at P n b" "b \<le> unat Lw"
  shows "Some (word_of_nat b) = Some (index_of (first_fit P n lo (unat Lw)))"
  using found_answer [OF assms(1-3), of Lw] assms(4) unat_bound [of Lw] by (simp add: word_index)

text \<open>Runs of a chunk up to two chunks less a bit.\<close>

definition medium_at :: "(nat \<Rightarrow> bool) \<Rightarrow> nat \<Rightarrow> nat \<Rightarrow> nat \<Rightarrow> CHUNK \<Rightarrow> bool" where
  "medium_at P n k0 k c \<longleftrightarrow> k0 \<le> k \<and> shows_chunk P k c \<and> none_before P n (64 * k0) (64 * k)"

lemma high_bit: "c AND CHUNK_HIGH_BIT \<noteq> 0 \<longleftrightarrow> bit c 63" for c :: CHUNK
proof -
  have "bit (c AND CHUNK_HIGH_BIT) j \<longleftrightarrow> j = 63 \<and> bit c 63" for j
    unfolding CHUNK_HIGH_BIT_def CHUNK_BITS_def bit_and_iff bit_push_bit_iff bit_1_iff
    by (auto dest: bit_imp_le_length)
  then show ?thesis by (metis bit_0_eq bit_eq_iff bot_apply bot_bool_def)
qed

lemma medium_high:
  assumes "medium_at P n k0 k c" "bit c 63" "64 \<le> n"
  shows "none_before P n (64 * k0) (64 * (k + 1))"
proof (rule none_before_block)
  show "none_before P n (64 * k0) (64 * k)" "\<not> P (64 * k + 63)"
    using assms(1,2) shows_at [of P k c 63] by (auto simp: medium_at_def)
qed (use assms(3) in simp_all)

lemma medium_head:
  assumes "medium_at P n k0 k c" "\<not> bit c 63" "64 \<le> n"
  obtains h where "RtlpClearMSBInChunk c = word_of_nat h" "0 < h" "h \<le> 64"
    "\<forall>i. 64 * k + 64 \<le> i + h \<longrightarrow> i < 64 * k + 64 \<longrightarrow> P i" "none_before P n (64 * k0) (64 * k + 64 - h)"
proof -
  have c: "shows_chunk P k c" "none_before P n (64 * k0) (64 * k)" using assms(1) by (auto simp: medium_at_def)
  obtain h where h: "RtlpClearMSBInChunk c = word_of_nat h" "h \<le> 64"
    "\<forall>i. 64 * k + 64 \<le> i + h \<longrightarrow> i < 64 * k + 64 \<longrightarrow> P i" "h < 64 \<longrightarrow> \<not> P (64 * k + (63 - h))"
    by (rule chunk_tail [OF c(1)])
  have "0 < h" using h(4) shows_at [OF c(1), of 63] assms(2) by (cases "h = 0") auto
  moreover have "none_before P n (64 * k0) (64 * k + 64 - h)"
  proof (cases "h = 64")
    case False
    then have "\<not> P (64 * k + (63 - h))" using h(2,4) by linarith
    from none_before_block [OF c(2) this] show ?thesis using assms(3) h(2) by simp
  qed (use c(2) in simp)
  ultimately show thesis using h that by blast
qed

text \<open>The bits of the next chunk decide whether the run that ends a chunk goes on for \<open>r\<close> bits.\<close>

lemma run_extend:
  assumes "\<forall>i. s \<le> i \<longrightarrow> i < x \<longrightarrow> P i" "\<forall>i. x \<le> i \<longrightarrow> i < x + h \<longrightarrow> P i" "s + n \<le> x + h"
  shows "run_at P n s"
  using assms by (intro runI) (metis less_le_trans not_le)


lemma word_below:
  assumes "a < 2 ^ 32" "b < 2 ^ 32"
  shows "(word_of_nat a :: ULONG) \<le> word_of_nat b \<longleftrightarrow> a \<le> b" "(word_of_nat a :: ULONG) < word_of_nat b \<longleftrightarrow> a < b"
    "(word_of_nat a :: ULONG) = word_of_nat b \<longleftrightarrow> a = b"
  using assms by (simp_all add: word_le_nat_alt word_less_nat_alt word_unat_eq_iff unat_of_nat)

lemma word_minus: "b \<le> a \<Longrightarrow> (word_of_nat a :: ULONG) - word_of_nat b = word_of_nat (a - b)"
  by (simp add: of_nat_diff)

lemma medium_start:
  assumes "64 * k + 63 < 2 ^ 32" "0 < h" "h \<le> 64"
  shows "chunk_bit k + (64 - word_of_nat h) = word_of_nat (64 * k + 64 - h)" "64 * k + 64 - h < 2 ^ 32"
proof -
  have "(64 :: ULONG) - word_of_nat h = word_of_nat (64 - h)" using word_minus [OF assms(3)] by simp
  moreover have "64 * k + (64 - h) = 64 * k + 64 - h" using assms(3) by simp
  ultimately show "chunk_bit k + (64 - word_of_nat h) = word_of_nat (64 * k + 64 - h)"
    by (simp only: unat_chunk_bit [OF assms(1)] of_nat_add [symmetric])
  show "64 * k + 64 - h < 2 ^ 32" using assms by linarith
qed

text \<open>
  One turn from a chunk whose last bits are clear, over the bits \<open>h\<close> that are and the bits \<open>r\<close>
  that are still needed.
\<close>

lemma medium_turn:
  fixes N Lw :: ULONG
  assumes h: "RtlpClearMSBInChunk c = word_of_nat h" "h \<le> 64" and N: "N = word_of_nat n" "64 \<le> n" "n \<le> 127"
    and low: "\<not> bit c 63" and fits: "64 * k + 63 < 2 ^ 32" "0 < h"
    and start: "s = 64 * k + 64 - h" "s \<le> unat Lw"
  shows "MediumLoop rd N Lw L k c =
    (if n = h then Some (word_of_nat s)
     else do {
       c1 \<leftarrow> rd (k + 1);
       if 64 \<le> n - h
       then (if c1 \<noteq> CHUNK_CLEAR then MediumLoop rd N Lw L (k + 1) c1
             else if n - h = 64 then Some (word_of_nat s)
             else do {
               c2 \<leftarrow> rd (k + 2);
               if word_of_nat (n - h - 64) \<le> RtlpClearLSBInChunk c2 then Some (word_of_nat s)
               else MediumLoop rd N Lw L (k + 2) c2 })
       else if word_of_nat (n - h) \<le> RtlpClearLSBInChunk c1 then Some (word_of_nat s)
       else MediumLoop rd N Lw L (k + 1) c1 })"
proof -
  have hn: "h \<le> n" using h(2) N(2) by simp
  have s: "chunk_bit k + (64 - word_of_nat h) = word_of_nat s" using medium_start [OF fits h(2)] start(1) by simp
  have r: "N - word_of_nat h = word_of_nat (n - h)" using word_minus [OF hn] N(1) by simp
  have r0: "(word_of_nat (n - h) :: ULONG) = 0 \<longleftrightarrow> n = h" using word_below(3) [of "n - h" 0] N(3) hn by auto
  have r64: "(64 :: ULONG) \<le> word_of_nat (n - h) \<longleftrightarrow> 64 \<le> n - h" using word_below(1) [of 64 "n - h"] N(3) by simp
  have r1: "(word_of_nat (n - h) :: ULONG) - 64 = word_of_nat (n - h - 64)" if "64 \<le> n - h" using word_minus [OF that] by simp
  have r2: "(word_of_nat (n - h - 64) :: ULONG) = 0 \<longleftrightarrow> n - h = 64" if "64 \<le> n - h"
    using word_below(3) [of "n - h - 64" 0] N(3) that by auto
  have L: "\<not> Lw < word_of_nat s" using start(2) word_index [of s Lw] unat_bound [of Lw] by simp
  show ?thesis
    by (subst MediumLoop.simps) (simp only: Let_def high_bit low h(1) s r r0 r64 r1 r2 L if_False cong: if_cong)
qed


text \<open>
  A run of clear bits from \<open>s\<close> reaches chunk \<open>j\<close>: the head of the chunk ends the search, or the
  chunk excludes the starts before it; so does a chunk that is needed whole and is not clear.
\<close>

lemma tail_decides:
  fixes Lw :: ULONG
  assumes s: "none_before P n lo s" "lo \<le> s" "s \<le> unat Lw" and run: "\<forall>i. s \<le> i \<longrightarrow> i < 64 * j \<longrightarrow> P i"
    and c: "shows_chunk P j c" and r: "s + n = 64 * j + r" "r \<le> 64"
  shows "(word_of_nat r :: ULONG) \<le> RtlpClearLSBInChunk c \<Longrightarrow> Some (word_of_nat s) = Some (index_of (first_fit P n lo (unat Lw)))"
    and "\<not> (word_of_nat r :: ULONG) \<le> RtlpClearLSBInChunk c \<Longrightarrow> none_before P n lo (64 * j) \<and> c \<noteq> CHUNK_CLEAR"
proof -
  obtain h where h: "RtlpClearLSBInChunk c = word_of_nat h" "h \<le> 64"
    "\<forall>i. 64 * j \<le> i \<longrightarrow> i < 64 * j + h \<longrightarrow> P i" "h < 64 \<longrightarrow> \<not> P (64 * j + h)"
    by (rule chunk_head [OF c])
  have w: "(word_of_nat r :: ULONG) \<le> RtlpClearLSBInChunk c \<longleftrightarrow> r \<le> h" using word_below(1) [of r h] h(1,2) r(2) by simp
  show "Some (word_of_nat s) = Some (index_of (first_fit P n lo (unat Lw)))" if "(word_of_nat r :: ULONG) \<le> RtlpClearLSBInChunk c"
    using that w r(1) by (intro found_here [OF s(1,2) run_extend [OF run h(3)] s(3)]) simp
  show "none_before P n lo (64 * j) \<and> c \<noteq> CHUNK_CLEAR" if "\<not> (word_of_nat r :: ULONG) \<le> RtlpClearLSBInChunk c"
  proof -
    have hr: "h < r" "\<not> P (64 * j + h)" using that w h(4) r(2) by auto
    then have "none_before P n lo (64 * j)" using r(1) by (intro none_before_block [OF s(1) hr(2)]) simp_all
    moreover have "c \<noteq> CHUNK_CLEAR" using chunk_clear [OF c] hr r(2) by auto
    ultimately show ?thesis ..
  qed
qed

lemma chunk_blocks:
  assumes "none_before P n lo s" "shows_chunk P j c" "c \<noteq> CHUNK_CLEAR" "64 * j + 64 \<le> s + n"
  shows "none_before P n lo (64 * j)"
proof -
  obtain i where "i < 64" "\<not> P (64 * j + i)" using chunk_clear [OF assms(2)] assms(3) by blast
  then show ?thesis using assms(4) by (intro none_before_block [OF assms(1), of "64 * j + i"]) simp_all
qed

lemma chunk_extends:
  assumes "\<forall>i. s \<le> i \<longrightarrow> i < 64 * j \<longrightarrow> P i" "shows_chunk P j CHUNK_CLEAR"
  shows "\<forall>i. s \<le> i \<longrightarrow> i < 64 * (j + 1) \<longrightarrow> P i"
proof (intro allI impI)
  fix i assume i: "s \<le> i" "i < 64 * (j + 1)"
  show "P i"
  proof (cases "i < 64 * j")
    case False
    then have "i - 64 * j < 64" using i(2) by simp
    then have "P (64 * j + (i - 64 * j))" using chunk_clear [OF assms(2)] by blast
    with False show ?thesis by simp
  qed (use assms(1) i(1) in simp)
qed

text \<open>The part of a turn behind the first chunk.\<close>

lemma medium_tail:
  fixes Lw :: ULONG
  assumes rd: "rd j = Some c" "shows_chunk P j c" and s: "none_before P n (64 * k0) s" "64 * k0 \<le> s" "s \<le> unat Lw" and j: "k0 \<le> j"
    and run: "\<forall>i. s \<le> i \<longrightarrow> i < 64 * j \<longrightarrow> P i" and r: "s + n = 64 * j + r" "r \<le> 64"
    and cont: "medium_at P n k0 j c \<Longrightarrow> F j c = A" and A: "A = Some (index_of (first_fit P n (64 * k0) (unat Lw)))"
  shows "do { c \<leftarrow> rd j; if word_of_nat r \<le> RtlpClearLSBInChunk c then Some (word_of_nat s) else F j c } = A"
proof -
  note td = tail_decides [OF s run rd(2) r, folded A]
  have "F j c = A" if "\<not> (word_of_nat r :: ULONG) \<le> RtlpClearLSBInChunk c"
    using td(2) [OF that] rd(2) j by (intro cont) (simp add: medium_at_def)
  then show ?thesis using td(1) rd(1) by simp
qed

lemma medium_rest:
  fixes Lw Ew :: ULONG
  assumes E: "unat Ew div 64 = E" and L: "unat Lw + n = unat Ew + 1" and rd: "reads rd P k0 E"
    and s: "none_before P n (64 * k0) s" "64 * k0 \<le> s" "s \<le> unat Lw" and k: "k0 \<le> k" "s + h = 64 * (k + 1)" "h \<le> n" "n \<le> 127"
    and run: "\<forall>i. s \<le> i \<longrightarrow> i < 64 * (k + 1) \<longrightarrow> P i"
    and cont: "\<And>k' c'. k < k' \<Longrightarrow> k' \<le> E \<Longrightarrow> medium_at P n k0 k' c' \<Longrightarrow> F k' c' = A"
    and A: "A = Some (index_of (first_fit P n (64 * k0) (unat Lw)))"
  shows "(if n = h then Some (word_of_nat s)
     else do {
       c1 \<leftarrow> rd (k + 1);
       if 64 \<le> n - h
       then (if c1 \<noteq> CHUNK_CLEAR then F (k + 1) c1
             else if n - h = 64 then Some (word_of_nat s)
             else do {
               c2 \<leftarrow> rd (k + 2);
               if word_of_nat (n - h - 64) \<le> RtlpClearLSBInChunk c2 then Some (word_of_nat s) else F (k + 2) c2 })
       else if word_of_nat (n - h) \<le> RtlpClearLSBInChunk c1 then Some (word_of_nat s)
       else F (k + 1) c1 }) = A"
proof -
  have found: "Some (word_of_nat s) = A" if "run_at P n s" unfolding A by (rule found_here [OF s(1,2) that s(3)])
  have read: "j \<le> E \<and> (\<exists>c. rd j = Some c \<and> shows_chunk P j c)" if "64 * j < s + n" "k0 < j" for j
  proof -
    have "j \<le> E" using s(3) L that(1) unfolding E [symmetric] by (simp add: less_eq_div_iff_mult_less_eq)
    then show ?thesis using readsD [OF rd that(2)] by blast
  qed
  show ?thesis
  proof (cases "n = h")
    case True
    have "run_at P n s" using run k(2) True by (intro runI) simp
    then show ?thesis using True found by simp
  next
    case False
    then obtain c1 where c1: "k + 1 \<le> E" "rd (k + 1) = Some c1" "shows_chunk P (k + 1) c1" using read [of "k + 1"] k by auto
    consider "n - h < 64" | "64 \<le> n - h" "c1 \<noteq> CHUNK_CLEAR" | "64 \<le> n - h" "c1 = CHUNK_CLEAR" by linarith
    then show ?thesis
    proof cases
      case 1
      have "s + n = 64 * (k + 1) + (n - h)" using k(2,3) by linarith
      from medium_tail [of rd "k + 1" c1 P n k0 s Lw "n - h" F A, OF c1(2,3) s _ run this _ _ A] show ?thesis using 1 False k(1) cont [OF _ c1(1)] c1(2) by simp
    next
      case 2
      then have "none_before P n (64 * k0) (64 * (k + 1))" using k by (intro chunk_blocks [OF s(1) c1(3)]) simp_all
      then have "F (k + 1) c1 = A" using c1 k(1) by (intro cont) (simp_all add: medium_at_def)
      then show ?thesis using 2 False c1(2) by simp
    next
      case 3
      then have run2: "\<forall>i. s \<le> i \<longrightarrow> i < 64 * (k + 2) \<longrightarrow> P i" using chunk_extends [OF run] c1(3) by simp
      show ?thesis
      proof (cases "n - h = 64")
        case True
        have "run_at P n s" using run2 k(2) True by (intro runI) simp
        then show ?thesis using found 3 False True c1(2) by simp
      next
        case more: False
        then have "64 < n - h" using 3(1) by simp
        then have "64 * (k + 2) < s + n" using k(2) by simp
        then obtain c2 where c2: "k + 2 \<le> E" "rd (k + 2) = Some c2" "shows_chunk P (k + 2) c2" using read [of "k + 2"] k(1) by auto
        have "s + n = 64 * (k + 2) + (n - h - 64)" using 3(1) k(2,3) by simp
        from medium_tail [of rd "k + 2" c2 P n k0 s Lw "n - h - 64" F A, OF c2(2,3) s _ run2 this _ _ A]
        show ?thesis using 3 False more k(1,4) cont [OF _ c2(1)] c1(2) c2(2) by simp
      qed
    qed
  qed
qed

lemma MediumLoop_first_fit:
  fixes N Lw Ew :: ULONG
  assumes n: "N = word_of_nat n" "64 \<le> n" "n \<le> 127" and E: "unat Ew div 64 = E" and L: "unat Lw + n = unat Ew + 1"
    and rd: "reads rd P k0 E" and at: "medium_at P n k0 k c" "k \<le> E"
  shows "MediumLoop rd N Lw (unat Lw div 64) k c = Some (index_of (first_fit P n (64 * k0) (unat Lw)))" (is "_ = ?A")
  using at
proof (induction "E - k" arbitrary: k c rule: less_induct)
  case less
  have cont: "MediumLoop rd N Lw (unat Lw div 64) k' c' = ?A" if "k < k'" "k' \<le> E" "medium_at P n k0 k' c'" for k' c'
    using that by (intro less.hyps) simp_all
  have k0: "k0 \<le> k" and fits: "64 * k + 63 < 2 ^ 32"
    using less.prems chunk_fits [of k Ew] E by (simp_all add: medium_at_def)
  show ?case
  proof (cases "bit c 63")
    case True
    note none = medium_high [OF less.prems(1) True n(2)]
    show ?thesis
    proof (cases "k + 1 > unat Lw div 64")
      case top: True
      show ?thesis using True top invalid_answer [OF none top_chunk [OF order_refl top]]
        by (subst MediumLoop.simps) (simp add: high_bit)
    next
      case False
      then have k1: "k + 1 \<le> E" using L n(2) div_le_mono [of "unat Lw" "unat Ew" 64] E by linarith
      obtain c1 where c1: "rd (k + 1) = Some c1" "shows_chunk P (k + 1) c1" using readsD [OF rd _ k1] k0 by auto
      have "MediumLoop rd N Lw (unat Lw div 64) (k + 1) c1 = ?A" using k0 none c1(2) by (intro cont k1) (simp_all add: medium_at_def)
      then show ?thesis using True False c1(1) by (subst MediumLoop.simps) (simp add: high_bit)
    qed
  next
    case low: False
    obtain h where h: "RtlpClearMSBInChunk c = word_of_nat h" "0 < h" "h \<le> 64"
      "\<forall>i. 64 * k + 64 \<le> i + h \<longrightarrow> i < 64 * k + 64 \<longrightarrow> P i" "none_before P n (64 * k0) (64 * k + 64 - h)"
      by (rule medium_head [OF less.prems(1) low n(2)])
    show ?thesis
    proof (cases "64 * k + 64 - h \<le> unat Lw")
      case True
      have "64 * k0 \<le> 64 * k + 64 - h" "64 * k + 64 - h + h = 64 * (k + 1)" "h \<le> n" using h(3) k0 n(2) by simp_all
      moreover have "\<forall>i. 64 * k + 64 - h \<le> i \<longrightarrow> i < 64 * (k + 1) \<longrightarrow> P i" using h(3,4) by simp
      ultimately show ?thesis
        unfolding medium_turn [OF h(1,3) n low fits h(2) refl True, of rd "unat Lw div 64"]
        using h(5) True k0 n(3) by (intro medium_rest [OF E L rd]) (simp_all add: cont)
    next
      case False
      have "Lw < chunk_bit k + (64 - word_of_nat h)"
        unfolding medium_start(1) [OF fits h(2,3)] word_index [OF medium_start(2) [OF fits h(2,3)]] using False by simp
      then show ?thesis using low h(1) invalid_answer [OF h(5), of Lw] False
        by (subst MediumLoop.simps) (simp add: high_bit Let_def)
    qed
  qed
qed


text \<open>Longer runs: the search is at a chunk that is not clear, or has found a clear one.\<close>

definition large_at :: "(nat \<Rightarrow> bool) \<Rightarrow> nat \<Rightarrow> nat \<Rightarrow> nat \<Rightarrow> bool" where
  "large_at P n k0 k \<longleftrightarrow> k0 < k \<and> none_before P n (64 * k0) (64 * k) \<and> (\<exists>i<64. \<not> P (64 * k + i))"

text \<open>The loop over clear chunks stops at its end or at the first chunk that is not clear.\<close>

lemma ClearChunks_run:
  assumes "\<And>j. k \<le> j \<Longrightarrow> j < e \<Longrightarrow> \<exists>c. rd j = Some c \<and> shows_chunk P j c" "k \<le> e" "\<forall>i. s \<le> i \<longrightarrow> i < 64 * k \<longrightarrow> P i"
  obtains j where "ClearChunks rd k e = Some j" "k \<le> j" "j \<le> e" "\<forall>i. s \<le> i \<longrightarrow> i < 64 * j \<longrightarrow> P i"
    "j < e \<longrightarrow> (\<exists>i<64. \<not> P (64 * j + i))"
proof -
  have "\<exists>j. ClearChunks rd k e = Some j \<and> k \<le> j \<and> j \<le> e \<and> (\<forall>i. s \<le> i \<longrightarrow> i < 64 * j \<longrightarrow> P i)
      \<and> (j < e \<longrightarrow> (\<exists>i<64. \<not> P (64 * j + i)))"
    using assms
  proof (induction "e - k" arbitrary: k rule: less_induct)
    case less
    show ?case
    proof (cases "k = e")
      case True
      then show ?thesis using less.prems(3) by (subst ClearChunks.simps) simp
    next
      case False
      then obtain c where c: "rd k = Some c" "shows_chunk P k c" using less.prems(1) [of k] less.prems(2) by auto
      show ?thesis
      proof (cases "c = CHUNK_CLEAR")
        case True
        then have "\<forall>i. s \<le> i \<longrightarrow> i < 64 * (k + 1) \<longrightarrow> P i" using chunk_extends [OF less.prems(3)] c(2) by simp
        moreover have dec: "e - (k + 1) < e - k" "k + 1 \<le> e" using less.prems(2) False by linarith+
        ultimately obtain j where "ClearChunks rd (k + 1) e = Some j" "k + 1 \<le> j" "j \<le> e"
          "\<forall>i. s \<le> i \<longrightarrow> i < 64 * j \<longrightarrow> P i" "j < e \<longrightarrow> (\<exists>i<64. \<not> P (64 * j + i))"
          using less.hyps [OF dec(1)] less.prems(1) by auto
        then show ?thesis using False c(1) True by (intro exI [of _ j]) (subst ClearChunks.simps, simp)
      next
        case notc: False
        then show ?thesis using False c less.prems(2,3) chunk_clear [OF c(2)] by (intro exI [of _ k]) (subst ClearChunks.simps, auto)
      qed
    qed
  qed
  then show thesis using that by blast
qed

text \<open>The chunks that a run from \<open>s\<close> needs behind chunk \<open>k\<close>.\<close>

lemma large_rest:
  fixes Lw Ew :: ULONG
  assumes E: "unat Ew div 64 = E" and L: "unat Lw + n = unat Ew + 1" and rd: "reads rd P k0 E"
    and s: "none_before P n (64 * k0) s" "64 * k0 \<le> s" "s \<le> unat Lw" and k: "k0 \<le> k" "0 < q" "s + n = 64 * (k + q) + r" "r < 64"
    and run: "\<forall>i. s \<le> i \<longrightarrow> i < 64 * (k + 1) \<longrightarrow> P i"
  defines "T \<equiv> do {
      j \<leftarrow> ClearChunks rd (k + 1) (k + q);
      if j \<noteq> k + q then Some (Inl j)
      else if r \<noteq> 0
      then do { c \<leftarrow> rd j; if RtlpClearLSBInChunk c < word_of_nat r then Some (Inl j) else Some (Inr (word_of_nat s)) }
      else Some (Inr (word_of_nat s)) }"
  shows "(\<exists>j. T = Some (Inl j) \<and> k < j \<and> j \<le> E \<and> large_at P n k0 j) \<or> T = Some (Inr (index_of (first_fit P n (64 * k0) (unat Lw))))"
proof -
  have inE: "j \<le> E" if "64 * j < s + n" for j
    using s(3) L that unfolding E [symmetric] by (simp add: less_eq_div_iff_mult_less_eq)
  have read: "\<exists>c. rd j = Some c \<and> shows_chunk P j c" if "64 * j < s + n" "k0 < j" for j
    using readsD [OF rd that(2) inE [OF that(1)]] by blast
  obtain j where j: "ClearChunks rd (k + 1) (k + q) = Some j" "k + 1 \<le> j" "j \<le> k + q" "\<forall>i. s \<le> i \<longrightarrow> i < 64 * j \<longrightarrow> P i"
    "j < k + q \<longrightarrow> (\<exists>i<64. \<not> P (64 * j + i))"
    by (rule ClearChunks_run [OF _ _ run, of "k + q" rd]) (use k in \<open>auto intro: read\<close>)
  consider i where "j < k + q" "i < 64" "\<not> P (64 * j + i)" | "j = k + q" "r = 0" | "j = k + q" "r \<noteq> 0"
    using j(3,5) by (metis le_neq_implies_less)
  then show ?thesis
  proof cases
    case 1
    have "none_before P n (64 * k0) (64 * j)" using 1 k(3) by (intro none_before_block [OF s(1) 1(3)]) simp_all
    then have "large_at P n k0 j" using 1 k(1) j(2) by (auto simp: large_at_def)
    moreover have "j \<le> E" using 1 k(3) by (intro inE) simp
    ultimately show ?thesis using 1 j(1,2) by (simp add: T_def)
  next
    case 2
    have "run_at P n s" using j(4) k(3) 2 by (intro runI) simp
    then show ?thesis using found_here [OF s(1,2) _ s(3)] 2 j(1) by (simp add: T_def)
  next
    case 3
    have lt: "64 * j < s + n" using 3 k(3) by simp
    obtain c where c: "rd j = Some c" "shows_chunk P j c" using read [OF lt] j(2) k(1) by auto
    have "s + n = 64 * j + r" "r \<le> 64" using 3 k by simp_all
    note td = tail_decides [of P n "64 * k0" s Lw j c r, OF s j(4) c(2) this]
    show ?thesis
    proof (cases "RtlpClearLSBInChunk c < word_of_nat r")
      case True
      then have "large_at P n k0 j" using td(2) k(1) j(2) chunk_clear [OF c(2)] by (auto simp: large_at_def not_le)
      then show ?thesis using True 3 j(1,2) c(1) inE [OF lt] by (simp add: T_def)
    next
      case False
      then show ?thesis using td(1) [OF leI] 3 j(1) c(1) by (simp add: T_def)
    qed
  qed
qed

text \<open>From a clear chunk \<open>k\<close> with \<open>h\<close> clear bits before it.\<close>

definition large_entry :: "(nat \<Rightarrow> bool) \<Rightarrow> nat \<Rightarrow> nat \<Rightarrow> nat \<Rightarrow> nat \<Rightarrow> bool" where
  "large_entry P n k0 k h \<longleftrightarrow> 64 * k0 + h \<le> 64 * k \<and> h < 64 \<and> none_before P n (64 * k0) (64 * k - h)
     \<and> (\<forall>i. 64 * k - h \<le> i \<longrightarrow> i < 64 * (k + 1) \<longrightarrow> P i)"

lemma LargeEntry_first_fit:
  fixes N Lw Ew :: ULONG
  assumes N: "N = word_of_nat n" "128 \<le> n" "n < 2 ^ 32" and E: "unat Ew div 64 = E" and L: "unat Lw + n = unat Ew + 1"
    and rd: "reads rd P k0 E" and k: "k \<le> E" "large_entry P n k0 k h"
  shows "(\<exists>j. LargeEntry rd N Lw k (word_of_nat h) = Some (Inl j) \<and> k < j \<and> j \<le> E \<and> large_at P n k0 j)
    \<or> LargeEntry rd N Lw k (word_of_nat h) = Some (Inr (index_of (first_fit P n (64 * k0) (unat Lw))))"
proof -
  define s where "s = 64 * k - h"
  define q r where "q = (n - h) div 64" and "r = (n - h) mod 64"
  have h: "64 * k0 + h \<le> 64 * k" "h < 64" "none_before P n (64 * k0) s" "\<forall>i. s \<le> i \<longrightarrow> i < 64 * (k + 1) \<longrightarrow> P i"
    using k(2) by (simp_all add: large_entry_def s_def)
  have q: "0 < q" "s + n = 64 * (k + q) + r" "r < 64"
  proof -
    show "0 < q" using N(2) h(2) by (simp add: q_def div_greater_zero_iff)
    have "n - h = 64 * q + r" by (simp add: q_def r_def)
    then show "s + n = 64 * (k + q) + r" using h(1,2) N(2) by (simp add: s_def)
  qed (simp add: r_def)
  have fits: "64 * k + 63 < 2 ^ 32" using chunk_fits [of k Ew] k(1) E by simp
  have w: "chunk_bit k - word_of_nat h = word_of_nat s" "s < 2 ^ 32"
    using word_minus [of h "64 * k"] h(1) fits by (simp_all add: unat_chunk_bit [OF fits] s_def del: of_nat_mult)
  have d: "N - word_of_nat h = word_of_nat (n - h)" using word_minus [of h n] N h(2) by simp
  have dq: "unat ((N - word_of_nat h) div 64) = q" "(N - word_of_nat h) mod 64 = word_of_nat r"
    unfolding d q_def r_def using N(3) by (simp_all add: unat_div_word unat_of_nat word_unat_eq_iff unat_mod_word)
  have r0: "(word_of_nat r :: ULONG) = 0 \<longleftrightarrow> r = 0" using word_below(3) [of r 0] q(3) by simp
  note turn = LargeEntry_def [of rd N Lw k "word_of_nat h", unfolded Let_def w(1) dq word_index [OF w(2), of Lw] r0]
  show ?thesis
  proof (cases "unat Lw < s")
    case True
    then show ?thesis using invalid_answer [OF h(3), of Lw] by (simp add: turn)
  next
    case False
    have "64 * k0 \<le> s" "s \<le> unat Lw" "k0 \<le> k" using False h(1) by (simp_all add: s_def)
    from large_rest [OF E L rd h(3) this q h(4)] show ?thesis using False by (simp only: turn if_False)
  qed
qed

lemma large_enter:
  assumes before: "none_before P n (64 * k0) (64 * k)" and "k0 \<le> k" and p: "shows_chunk P k p" "\<exists>i<64. \<not> P (64 * k + i)"
    and c: "shows_chunk P (k + 1) c" "c = CHUNK_CLEAR" and "64 \<le> n"
  obtains h where "RtlpClearMSBInChunk p = word_of_nat h" "large_entry P n k0 (k + 1) h"
proof -
  obtain h where h: "RtlpClearMSBInChunk p = word_of_nat h" "h \<le> 64"
    "\<forall>i. 64 * k + 64 \<le> i + h \<longrightarrow> i < 64 * k + 64 \<longrightarrow> P i" "h < 64 \<longrightarrow> \<not> P (64 * k + (63 - h))"
    by (rule chunk_tail [OF p(1)])
  have "h < 64" using h(2,3) p(2) by (cases "h = 64") auto
  then have "none_before P n (64 * k0) (64 * (k + 1) - h)"
    using h(4) assms(7) by (intro none_before_block [OF before, of "64 * k + (63 - h)"]) simp_all
  moreover have "\<forall>i. 64 * (k + 1) - h \<le> i \<longrightarrow> i < 64 * (k + 1 + 1) \<longrightarrow> P i"
    using h(3) c \<open>h < 64\<close> by (intro chunk_extends [of _ "k + 1"]) simp_all
  ultimately show thesis using that [OF h(1)] \<open>h < 64\<close> assms(2) by (simp add: large_entry_def)
qed

lemma LargeLoop_first_fit:
  fixes N Lw Ew :: ULONG
  assumes N: "N = word_of_nat n" "128 \<le> n" "n < 2 ^ 32" and E: "unat Ew div 64 = E" and L: "unat Lw + n = unat Ew + 1"
    and rd: "reads rd P k0 E" and lc: "lc = (unat Lw + 63) div 64" and k: "k \<le> E" "large_at P n k0 k"
  shows "LargeLoop rd N Lw lc k = Some (index_of (first_fit P n (64 * k0) (unat Lw)))" (is "_ = ?A")
  using k
proof (induction "E - k" arbitrary: k rule: less_induct)
  case less
  have k: "k0 < k" "none_before P n (64 * k0) (64 * k)" using less.prems(2) by (simp_all add: large_at_def)
  show ?case
  proof (cases "k > lc")
    case True
    then have "unat Lw < 64 * k" using lc by (simp add: div_less_iff_less_mult)
    then show ?thesis using True invalid_answer [OF k(2), of Lw] by (subst LargeLoop.simps) simp
  next
    case False
    then have "64 * k \<le> unat Lw + 63" using lc by (simp add: not_less less_eq_div_iff_mult_less_eq mult.commute)
    then have k1: "k + 1 \<le> E" using L N(2) unfolding E [symmetric] by (simp add: less_eq_div_iff_mult_less_eq)
    obtain c p where c: "rd (k + 1) = Some c" "shows_chunk P (k + 1) c" and p: "rd k = Some p" "shows_chunk P k p"
      using readsD [OF rd _ k1] readsD [OF rd k(1) less.prems(1)] k(1) by (metis less_Suc_eq Suc_eq_plus1)
    show ?thesis
    proof (cases "c = CHUNK_CLEAR")
      case True
      obtain h where h: "RtlpClearMSBInChunk p = word_of_nat h" "large_entry P n k0 (k + 1) h"
        by (rule large_enter [OF k(2) _ p(2) _ c(2) True]) (use k(1) less.prems(2) N(2) in \<open>auto simp: large_at_def\<close>)
      from LargeEntry_first_fit [OF N E L rd k1 h(2)] show ?thesis
      proof (elim disjE exE conjE)
        fix j assume j: "LargeEntry rd N Lw (k + 1) (word_of_nat h) = Some (Inl j)" "k + 1 < j" "j \<le> E" "large_at P n k0 j"
        then have "LargeLoop rd N Lw lc j = ?A" by (intro less.hyps) simp_all
        then show ?thesis using False True c(1) p(1) h(1) j(1) by (subst LargeLoop.simps) simp
      qed (use False True c(1) p(1) h(1) in \<open>subst LargeLoop.simps, simp\<close>)
    next
      case notc: False
      then have "none_before P n (64 * k0) (64 * (k + 1))" using N(2) by (intro chunk_blocks [OF k(2) c(2)]) simp_all
      then have "large_at P n k0 (k + 1)" using k(1) chunk_clear [OF c(2)] notc by (auto simp: large_at_def)
      then have "LargeLoop rd N Lw lc (k + 1) = ?A" using k1 by (intro less.hyps) simp_all
      then show ?thesis using False notc c(1) by (subst LargeLoop.simps) simp
    qed
  qed
qed


lemma ceil_chunk: "(x + 63) div 64 = x div 64 + (if x mod 64 \<noteq> 0 then 1 else 0)" for x :: nat
proof -
  define q r where "q = x div 64" and "r = x mod 64"
  have e: "x = 64 * q + r" "r < 64" by (simp_all add: q_def r_def)
  have "(x + 63) div 64 = q" if "r = 0" using e that by (intro div_nat_eqI) simp_all
  moreover have "(x + 63) div 64 = q + 1" if "0 < r" using e that by (intro div_nat_eqI) simp_all
  ultimately show ?thesis by (auto simp: q_def r_def)
qed

lemma LargeSearch_first_fit:
  fixes N Lw Ew :: ULONG
  assumes N: "N = word_of_nat n" "128 \<le> n" "n < 2 ^ 32" and E: "unat Ew div 64 = E" and L: "unat Lw + n = unat Ew + 1"
    and rd: "reads rd P k0 E" and k: "64 * k0 \<le> unat Lw + 63" and c: "shows_chunk P k0 c"
  shows "LargeSearch rd N Lw k0 c = Some (index_of (first_fit P n (64 * k0) (unat Lw)))" (is "_ = ?A")
proof -
  define lc where "lc = unat (Lw div 64) + (if Lw mod 64 \<noteq> 0 then 1 else 0)"
  have lc: "lc = (unat Lw + 63) div 64"
    using ceil_chunk [of "unat Lw"] by (simp add: lc_def unat_div_word unat_eq_zero [symmetric] unat_mod_word)
  note search = LargeSearch_def [of rd N Lw k0 c, unfolded Let_def, folded lc_def]
  have k1: "k0 + 1 \<le> E" using k L N(2) unfolding E [symmetric] by (simp add: less_eq_div_iff_mult_less_eq)
  have before: "none_before P n (64 * k0) (64 * k0)" by (simp add: none_before_def)
  note loop = LargeLoop_first_fit [OF N E L rd lc]
  have entry: "LargeEntry rd N Lw k (word_of_nat h) \<bind> (\<lambda>r. case r of Inl j \<Rightarrow> LargeLoop rd N Lw lc j | Inr b \<Rightarrow> Some b) = ?A"
    if "k \<le> E" "large_entry P n k0 k h" for k h
    using LargeEntry_first_fit [OF N E L rd that] loop by auto
  obtain d where d: "rd (k0 + 1) = Some d" "shows_chunk P (k0 + 1) d" using readsD [OF rd _ k1] by auto
  consider "c = CHUNK_CLEAR" | "c \<noteq> CHUNK_CLEAR" "d = CHUNK_CLEAR" | "c \<noteq> CHUNK_CLEAR" "d \<noteq> CHUNK_CLEAR" by blast
  then show ?thesis
  proof cases
    case 1
    have "large_entry P n k0 k0 0" using 1 chunk_extends [of "64 * k0" k0 P] c before by (simp add: large_entry_def)
    then show ?thesis unfolding search using 1 entry [of k0 0] k1 by simp
  next
    case 2
    obtain h where h: "RtlpClearMSBInChunk c = word_of_nat h" "large_entry P n k0 (k0 + 1) h"
      by (rule large_enter [OF before _ c _ d(2) 2(2)]) (use chunk_clear [OF c] 2 N(2) in auto)
    then show ?thesis unfolding search using 2 entry [OF k1 h(2)] d(1) by simp
  next
    case 3
    have "none_before P n (64 * k0) (64 * (k0 + 1))" using 3 N(2) by (intro chunk_blocks [OF before d(2)]) simp_all
    then have "large_at P n k0 (k0 + 1)" using chunk_clear [OF d(2)] 3 by (auto simp: large_at_def)
    then show ?thesis unfolding search using 3 loop [OF k1] d(1) by simp
  qed
qed



section \<open>The search in a range\<close>

text \<open>The first run of \<open>n\<close> bits that starts from \<open>lo\<close> on and lies inside the first \<open>sz\<close> bits.\<close>

definition fit :: "(nat \<Rightarrow> bool) \<Rightarrow> nat \<Rightarrow> nat \<Rightarrow> nat \<Rightarrow> nat option" where
  "fit P n lo sz = find (run_at P n) [lo..<Suc sz - n]"

lemma fit_first_fit: "n \<le> sz \<Longrightarrow> fit P n lo sz = first_fit P n lo (sz - n)"
  by (simp add: fit_def first_fit_def Suc_diff_le del: upt_Suc)

lemma fit_short: "sz < lo + n \<Longrightarrow> fit P n lo sz = None"
  by (simp add: fit_def)

lemma fit_Some: "fit P n lo sz = Some b \<longleftrightarrow> lo \<le> b \<and> b + n \<le> sz \<and> run_at P n b \<and> none_before P n lo b"
proof -
  have b: "b < Suc sz - n \<longleftrightarrow> b + n \<le> sz" for b by linarith
  show ?thesis
  proof
    assume "fit P n lo sz = Some b"
    then show "lo \<le> b \<and> b + n \<le> sz \<and> run_at P n b \<and> none_before P n lo b"
      unfolding fit_def find_Some_iff b [symmetric]
      by (auto simp: none_before_def) (metis add_diff_inverse_nat less_diff_conv2 not_less add.commute)
  next
    assume r: "lo \<le> b \<and> b + n \<le> sz \<and> run_at P n b \<and> none_before P n lo b"
    then show "fit P n lo sz = Some b"
      unfolding fit_def find_Some_iff by (intro exI [of _ "b - lo"]) (auto simp: none_before_def)
  qed
qed

lemma fit_None: "fit P n lo sz = None \<longleftrightarrow> (\<forall>b. lo \<le> b \<longrightarrow> b + n \<le> sz \<longrightarrow> \<not> run_at P n b)"
  by (auto simp: fit_def find_None_iff)

lemma first_fit_masked:
  assumes "lo \<le> rs" "rs \<le> Suc hi" "0 < n"
  shows "first_fit (\<lambda>i. rs \<le> i \<and> P i) n lo hi = first_fit P n rs hi"
proof -
  have "[lo..<Suc hi] = [lo..<rs] @ [rs..<Suc hi]" using assms(1,2) by (metis le_add_diff_inverse upt_add_eq_append)
  moreover have "find (run_at (\<lambda>i. rs \<le> i \<and> P i) n) [lo..<rs] = None"
    using assms(3) by (auto simp: find_None_iff run_at_iff intro!: exI [of _ 0])
  moreover have "find (run_at (\<lambda>i. rs \<le> i \<and> P i) n) [rs..<Suc hi] = find (run_at P n) [rs..<Suc hi]"
    by (rule find_cong) (auto simp: run_at_iff)
  moreover have "find f (xs @ ys) = (case find f xs of None \<Rightarrow> find f ys | Some x \<Rightarrow> Some x)" for f and xs ys :: "nat list"
    by (induction xs) auto
  ultimately show ?thesis by (simp add: first_fit_def)
qed

lemma shows_masked:
  assumes "shows_chunk P (rs div 64) c"
  shows "shows_chunk (\<lambda>i. rs \<le> i \<and> P i) (rs div 64) (c OR (push_bit (rs mod 64) 1 - 1))"
proof -
  have "(push_bit (rs mod 64) 1 - 1 :: CHUNK) = mask (rs mod 64)" by (simp add: mask_eq_exp_minus_1 push_bit_eq_mult)
  moreover have "rs \<le> 64 * (rs div 64) + i \<longleftrightarrow> rs mod 64 \<le> i" for i using mult_div_mod_eq [of 64 rs] by linarith
  ultimately show ?thesis using assms by (auto simp: shows_chunk_def bit_simps)
qed

lemma shows_behind:
  assumes "shows_chunk P k c" "rs div 64 < k"
  shows "shows_chunk (\<lambda>i. rs \<le> i \<and> P i) k c"
proof -
  have "rs \<le> 64 * k + i" for i using top_chunk [OF order_refl, of rs "k - 1"] assms(2) by simp
  then show ?thesis using assms(1) by (simp add: shows_chunk_def)
qed

text \<open>The strategies behind the choice by the length of the run.\<close>

lemma strategies_fit:
  fixes N Lw Ew :: ULONG
  assumes n: "N = word_of_nat n" "0 < n" "n < 2 ^ 32" and L: "unat Lw + n = unat Ew + 1"
    and c: "shows_chunk P k c" and rd: "reads rd P k (unat Ew div 64)" and k: "64 * k \<le> unat Lw + 63" "k \<le> unat Lw div 64"
  shows "(if N > 2 * 64 - 1 then LargeSearch rd N Lw k c
     else if N \<ge> 64 then MediumLoop rd N Lw (unat Lw div 64) k c
     else if N > 1 then SmallLoop rd N Lw (unat Lw div 64) (unat Ew div 64) k c 0
     else SingleLoop rd Lw (unat Lw div 64) k c) = Some (index_of (first_fit P n (64 * k) (unat Lw)))" (is "_ = ?A")
proof -
  have un: "unat N = n" using n by (simp add: unat_of_nat)
  have before: "none_before P n (64 * k) (64 * k)" by (simp add: none_before_def)
  have LE: "unat Lw div 64 \<le> unat Ew div 64" using L n(2) by (intro div_le_mono) linarith
  have large: "LargeSearch rd N Lw k c = ?A" if "128 \<le> n"
    by (rule LargeSearch_first_fit [OF n(1) that n(3) refl L rd k(1) c])
  have medium: "MediumLoop rd N Lw (unat Lw div 64) k c = ?A" if "64 \<le> n" "n \<le> 127"
    using before c k(2) LE by (intro MediumLoop_first_fit [OF n(1) that refl L rd]) (simp_all add: medium_at_def)
  have small: "SmallLoop rd N Lw (unat Lw div 64) (unat Ew div 64) k c 0 = ?A" if "1 < n" "n < 64"
    using SmallLoop_first_fit [OF un [symmetric] that refl L rd _ _ c, of 0] before k(2) LE that(1) by (simp add: small_at_def)
  have single: "SingleLoop rd Lw (unat Lw div 64) k c = ?A" if "n = 1"
    using SingleLoop_first_fit [of k k Lw P c rd] k(2) c rd LE L that by (simp add: reads_def)
  have "N > 2 * 64 - 1 \<longleftrightarrow> 128 \<le> n" "N \<ge> 64 \<longleftrightarrow> 64 \<le> n" "N > 1 \<longleftrightarrow> 1 < n"
    by (auto simp: word_less_nat_alt word_le_nat_alt un)
  then show ?thesis using large medium small single n(2) by (cases "n = 1") (auto simp: not_le not_less)
qed

text \<open>
  The four strategies together: \<open>RtlpFindClearBitsRange\<close> returns the first fit in its range, if
  every chunk of the range can be read.
\<close>

lemma FindClearBitsRange_fit:
  fixes N rs re :: ULONG
  assumes rd: "\<And>k. unat rs div 64 \<le> k \<Longrightarrow> k \<le> unat re div 64 \<Longrightarrow> \<exists>c. rd k = Some c \<and> shows_chunk P k c"
    and le: "rs \<le> re" and top: "unat re + 1 < 2 ^ 32" and N: "0 < N"
  shows "RtlpFindClearBitsRange rd N rs re = Some (index_of (fit P (unat N) (unat rs) (unat re + 1)))"
proof -
  define n where "n = unat N"
  have n: "N = word_of_nat n" "n = unat N" "0 < n" "n < 2 ^ 32" using N unat_bound [of N] by (simp_all add: n_def word_gt_0 unat_gt_0)
  have len: "unat (re - rs + 1) = unat re + 1 - unat rs"
  proof -
    have "unat (re - rs) = unat re - unat rs" using le by (rule unat_sub)
    then show ?thesis using le top by (simp add: unat_plus_simple word_le_nat_alt unat_word_ariths)
  qed
  show ?thesis
  proof (cases "re - rs + 1 < N")
    case True
    then show ?thesis using len by (simp add: RtlpFindClearBitsRange_def fit_short index_of_def word_less_nat_alt)
  next
    case False
    then have room: "unat rs + n \<le> unat re + 1" using len n(3) by (simp add: n_def word_less_nat_alt)
    define Lw where "Lw = re - N + 1"
    have L: "unat Lw + n = unat re + 1"
    proof -
      have w: "Lw = word_of_nat (unat re + 1 - n)" using room n(1) by (simp add: Lw_def of_nat_diff)
      have "unat Lw = unat re + 1 - n" using top unfolding w unat_of_nat by (intro mod_less) simp
      then show ?thesis using room by simp
    qed
    define Q where "Q = (\<lambda>i. unat rs \<le> i \<and> P i)"
    define k where "k = unat rs div 64"
    have kE: "k \<le> unat re div 64" using le by (auto simp: k_def word_le_nat_alt intro: div_le_mono)
    obtain c where c: "rd k = Some c" "shows_chunk P k c" using rd [of k] kE by (auto simp: k_def)
    have Q: "shows_chunk Q k (c OR (push_bit (unat rs mod 64) 1 - 1))" using shows_masked c(2) by (simp add: Q_def k_def)
    have reads: "reads rd Q k (unat re div 64)"
      unfolding reads_def Q_def k_def using rd shows_behind by (meson less_imp_le)
    have rsL: "64 * k \<le> unat rs" "unat rs \<le> unat Lw" using L room by (simp_all add: k_def)
    have fitted: "first_fit Q n (64 * k) (unat Lw) = fit P n (unat rs) (unat re + 1)"
    proof -
      have "unat re + 1 - n = unat Lw" "n \<le> unat re + 1" using L by linarith+
      then show ?thesis
        using first_fit_masked [of "64 * k" "unat rs" "unat Lw" n P] rsL n(3) by (simp add: fit_first_fit Q_def)
    qed
    have kL: "64 * k \<le> unat Lw + 63" "k \<le> unat Lw div 64" using rsL by (simp_all add: less_eq_div_iff_mult_less_eq mult.commute)
    have "unat (rs div 64) = k" "unat (rs mod 64) = unat rs mod 64" "unat (Lw div 64) = unat Lw div 64" "unat (re div 64) = unat re div 64"
      by (simp_all add: k_def unat_div_word unat_mod_word)
    then show ?thesis
      using strategies_fit [OF n(1,3,4) L Q reads kL] False c(1)
      by (simp add: RtlpFindClearBitsRange_def Let_def fitted flip: Lw_def n(2) split: if_splits)
  qed
qed

end
