(* ===== verification/BitmapSearch.thy ===== *)
theory BitmapSearch
  imports BitmapFindLong
begin

text \<open>
  \<open>RtlFindClearBits\<close> and \<open>RtlFindSetBits\<close> search the whole map: they return the first fit from the
  hint on, or else the first fit of the map.
\<close>

section \<open>The bits of a bitmap\<close>

definition bm_bit :: "memory \<Rightarrow> RTL_BITMAP \<Rightarrow> nat \<Rightarrow> bool" where
  "bm_bit m bm i = mbit m (8 * buf bm + i)"

definition bm_size :: "RTL_BITMAP \<Rightarrow> nat" where
  "bm_size bm = unat (SizeOfBitMap bm)"

text \<open>The buffer is longword aligned and its bits are mapped.\<close>

definition bm_ok :: "memory \<Rightarrow> RTL_BITMAP \<Rightarrow> bool" where
  "bm_ok m bm \<longleftrightarrow> buf bm mod 4 = 0 \<and> list_all (\<lambda>i. mapped m (8 * buf bm + i)) [0..<bm_size bm]"

lemma bm_mapped: "bm_ok m bm \<Longrightarrow> i < bm_size bm \<Longrightarrow> mapped m (8 * buf bm + i)"
  by (simp add: bm_ok_def list_all_iff)

text \<open>The first fit from the hint on, or else of the whole map.\<close>

definition hint_fit :: "(nat \<Rightarrow> bool) \<Rightarrow> nat \<Rightarrow> nat \<Rightarrow> nat \<Rightarrow> nat option" where
  "hint_fit P n h sz = (case fit P n (if h \<ge> sz then 0 else h) sz of Some b \<Rightarrow> Some b | None \<Rightarrow> fit P n 0 sz)"

section \<open>The search\<close>

lemma fit_shift: "fit P n (lo + a) (sz + a) = map_option (\<lambda>b. b + a) (fit (\<lambda>i. P (i + a)) n lo sz)"
proof (cases "fit (\<lambda>i. P (i + a)) n lo sz")
  case None
  have "\<not> run_at P n b" if "lo + a \<le> b" "b + n \<le> sz + a" for b
    using None [unfolded fit_None, rule_format, of "b - a"] that by (auto simp: run_at_iff ac_simps)
  then have "fit P n (lo + a) (sz + a) = None" by (simp add: fit_None)
  with None show ?thesis by simp
next
  case (Some b)
  have "\<not> run_at P n b'" if "lo + a \<le> b'" "b' < b + a" for b'
    using Some [unfolded fit_Some] that none_beforeD [of "\<lambda>i. P (i + a)" n lo b "b' - a"] by (auto simp: run_at_iff ac_simps)
  then have "fit P n (lo + a) (sz + a) = Some (b + a)"
    using Some unfolding fit_Some by (auto simp: run_at_iff none_before_def ac_simps)
  with Some show ?thesis by simp
qed

text \<open>A search that failed from \<open>h\<close> on needs to look only at the runs that start before \<open>h\<close>.\<close>

lemma fit_before_hint:
  assumes "fit P n h sz = None" "h \<le> sz"
  shows "fit P n 0 (min (h + n) sz) = fit P n 0 sz"
proof (cases "fit P n 0 sz")
  case None
  then have "fit P n 0 (min (h + n) sz) = None" by (simp add: fit_None)
  with None show ?thesis by simp
next
  case (Some b)
  then have "b < h" using assms(1) by (metis fit_None fit_Some not_le)
  then have "fit P n 0 (min (h + n) sz) = Some b" using Some unfolding fit_Some by simp
  with Some show ?thesis by simp
qed

text \<open>The chunk that holds the first bit, and where the first bit is in it.\<close>

definition adjust :: "RTL_BITMAP \<Rightarrow> nat" where
  "adjust bm = (if Buffer bm AND 4 \<noteq> 0 then 32 else 0)"

definition chunk_base :: "RTL_BITMAP \<Rightarrow> nat" where
  "chunk_base bm = (buf bm - (if Buffer bm AND 4 \<noteq> 0 then 4 else 0)) div 8"

lemma and_4: "w AND 4 \<noteq> 0 \<longleftrightarrow> unat w mod 8 \<ge> 4" for w :: "64 word"
proof -
  have "w AND 4 \<noteq> 0 \<longleftrightarrow> bit w 2"
  proof -
    have "(4 :: 64 word) = push_bit 2 1" by simp
    then have "bit (w AND 4) j \<longleftrightarrow> j = 2 \<and> bit w 2" for j
      unfolding bit_and_iff by (simp only: bit_push_bit_iff bit_1_iff) (auto dest: bit_imp_le_length)
    then show ?thesis by (metis bit_0_eq bit_eq_iff bot_apply bot_bool_def)
  qed
  also have "\<dots> \<longleftrightarrow> bit (unat w) 2" by (simp add: bit_unsigned_iff)
  also have "\<dots> \<longleftrightarrow> odd (unat w div 4)" by (simp add: bit_iff_odd)
  also have "\<dots> \<longleftrightarrow> unat w mod 8 \<ge> 4" by presburger
  finally show ?thesis .
qed

lemma chunk_base:
  assumes "buf bm mod 4 = 0"
  shows "64 * chunk_base bm + adjust bm = 8 * buf bm"
proof -
  obtain q where q: "buf bm = 4 * q" using assms by (auto simp: mod_eq_0_iff_dvd)
  have e: "unat (Buffer bm) mod 8 = 4 * (q mod 2)" using q mult_mod_right [of 4 q 2] by (simp add: buf_def)
  show ?thesis
  proof (cases "even q")
    case True
    then obtain p where "q = 2 * p" by blast
    then show ?thesis using q e by (simp add: chunk_base_def adjust_def and_4)
  next
    case False
    then obtain p where "q = 2 * p + 1" by (metis oddE)
    then show ?thesis using q e by (simp add: chunk_base_def adjust_def and_4)
  qed
qed

lemma FindBits_unfold:
  "FindBits Invert m bm N hint =
     (let Size = SizeOfBitMap bm;
          RangeStart = (if hint \<ge> Size then 0 else hint);
          find = (\<lambda>rs re. RtlpFindClearBitsRange (READ_CHUNK m (chunk_base bm) Invert) N
            (rs + word_of_nat (adjust bm)) (re + word_of_nat (adjust bm)))
      in if N = 0 then Some (RangeStart AND NOT 7)
         else do {
           b \<leftarrow> find RangeStart (Size - 1);
           b' \<leftarrow> (if b \<noteq> RTL_INVALID_INDEX \<or> RangeStart = 0 then Some b
                  else find 0 ((let e = hint + N in if e > Size then Size else e) - 1));
           Some (if b' \<noteq> RTL_INVALID_INDEX then b' - word_of_nat (adjust bm) else b') })"
proof -
  have adj: "(word_of_nat (adjust bm) :: ULONG) = (if Buffer bm AND 4 \<noteq> 0 then 32 else 0)" by (simp add: adjust_def)
  show ?thesis unfolding FindBits_def chunk_base_def Let_def adj by (rule refl)
qed

text \<open>Every chunk of a range holds a bit of it.\<close>

lemma touched_bit:
  fixes x a e k :: nat
  assumes "(x + a) div 64 \<le> k" "k \<le> (e - 1 + a) div 64" "x < e"
  shows "\<exists>i<e. x \<le> i \<and> (i + a) div 64 = k"
proof (cases "x + a \<le> 64 * k")
  case True
  have "64 * k \<le> e - 1 + a" using assms(2) by (simp add: less_eq_div_iff_mult_less_eq mult.commute)
  then show ?thesis using True assms(3) by (intro exI [of _ "64 * k - a"]) auto
next
  case False
  then have "k \<le> (x + a) div 64" by (simp add: less_eq_div_iff_mult_less_eq mult.commute)
  then show ?thesis using assms by (intro exI [of _ x]) simp
qed

text \<open>One search of the map, in the bits of the map.\<close>

lemma FindRange_bits:
  fixes N rs e :: ULONG
  assumes ok: "bm_ok m bm" and e: "unat e \<le> bm_size bm" "bm_size bm + 32 < 2 ^ 32" and rs: "rs \<le> e" and N: "0 < N"
  shows "RtlpFindClearBitsRange (READ_CHUNK m (chunk_base bm) Invert) N (rs + word_of_nat (adjust bm)) (e - 1 + word_of_nat (adjust bm))
    = Some (index_of (map_option (\<lambda>b. b + adjust bm) (fit (\<lambda>i. bm_bit m bm i = Invert) (unat N) (unat rs) (unat e))))"
proof (cases "rs = e")
  case True
  then show ?thesis using N by (simp add: RtlpFindClearBitsRange_def fit_short index_of_def word_gt_0 unat_gt_0)
next
  case False
  then have lt: "unat rs < unat e" using rs by (simp add: word_le_nat_alt word_unat_eq_iff)
  define a where "a = adjust bm"
  have a: "a \<le> 32" "64 * chunk_base bm + a = 8 * buf bm" using chunk_base ok by (auto simp: adjust_def a_def bm_ok_def)
  have u1: "unat (rs + word_of_nat a) = unat rs + a" using lt e a(1) by (simp add: unat_word_ariths unat_of_nat)
  have u2: "unat (e - 1 + word_of_nat a) = unat e - 1 + a"
  proof -
    have "unat (e - 1) = unat e - 1" using unat_sub_small [of 1 e] lt by simp
    then show ?thesis using e a(1) by (simp add: unat_word_ariths unat_of_nat)
  qed
  define P where "P i \<longleftrightarrow> mbit m (64 * chunk_base bm + i) = Invert" for i
  have "\<exists>c. READ_CHUNK m (chunk_base bm) Invert k = Some c \<and> shows_chunk P k c" if k: "(unat rs + a) div 64 \<le> k" "k \<le> (unat e - 1 + a) div 64" for k
  proof -
    obtain i where i: "i < unat e" "(i + a) div 64 = k" using touched_bit [OF k lt] by blast
    have "8 * buf bm + i = 64 * chunk_base bm + (i + a)" using a(2) by simp
    then have "(8 * buf bm + i) div 64 = chunk_base bm + k" using i(2) by simp
    with i(1) obtain c where "m (chunk_base bm + k) = Some c" using bm_mapped [OF ok, of i] e(1) by (auto simp: mapped_def)
    then show ?thesis by (auto simp: READ_CHUNK_def shows_chunk_def P_def mbit_def bit_simps)
  qed
  then have "RtlpFindClearBitsRange (READ_CHUNK m (chunk_base bm) Invert) N (rs + word_of_nat a) (e - 1 + word_of_nat a)
      = Some (index_of (fit P (unat N) (unat rs + a) (unat e + a)))"
    using FindClearBitsRange_fit [of "rs + word_of_nat a" "e - 1 + word_of_nat a" "READ_CHUNK m (chunk_base bm) Invert" P N] lt e a(1) N
    by (simp add: u1 u2 word_le_nat_alt)
  moreover have "P (i + a) \<longleftrightarrow> bm_bit m bm i = Invert" for i
    unfolding P_def bm_bit_def a(2) [symmetric] by (simp add: ac_simps)
  ultimately show ?thesis by (simp add: fit_shift a_def)
qed


text \<open>The answer in the bits of the map.\<close>

lemma index_adjust:
  assumes "\<And>b. r = Some b \<Longrightarrow> b + a < 2 ^ 32 - 1"
  shows "index_of (map_option (\<lambda>b. b + a) r) \<noteq> RTL_INVALID_INDEX \<longleftrightarrow> r \<noteq> None"
    "(if index_of (map_option (\<lambda>b. b + a) r) \<noteq> RTL_INVALID_INDEX then index_of (map_option (\<lambda>b. b + a) r) - word_of_nat a
      else index_of (map_option (\<lambda>b. b + a) r)) = index_of r"
proof -
  have ne: "word_of_nat (b + a) \<noteq> RTL_INVALID_INDEX" if "r = Some b" for b
  proof -
    have "RTL_INVALID_INDEX = word_of_nat (2 ^ 32 - 1)" by (simp add: RTL_INVALID_INDEX_def)
    then show ?thesis using assms [OF that] word_below(3) [of "b + a" "2 ^ 32 - 1"] by simp
  qed
  then show "index_of (map_option (\<lambda>b. b + a) r) \<noteq> RTL_INVALID_INDEX \<longleftrightarrow> r \<noteq> None" by (cases r) (auto simp: index_of_def)
  then show "(if index_of (map_option (\<lambda>b. b + a) r) \<noteq> RTL_INVALID_INDEX then index_of (map_option (\<lambda>b. b + a) r) - word_of_nat a
      else index_of (map_option (\<lambda>b. b + a) r)) = index_of r" by (cases r) (auto simp: index_of_def)
qed

lemma FindBits_fit:
  fixes N hint :: ULONG
  assumes ok: "bm_ok m bm" and sz: "bm_size bm + 32 < 2 ^ 32" and N: "0 < N" and hn: "unat hint + unat N < 2 ^ 32"
  shows "FindBits Invert m bm N hint
    = Some (index_of (hint_fit (\<lambda>i. bm_bit m bm i = Invert) (unat N) (unat hint) (bm_size bm)))"
proof -
  define P where "P i \<longleftrightarrow> bm_bit m bm i = Invert" for i
  define S a n where "S = SizeOfBitMap bm" and "a = adjust bm" and "n = unat N"
  define find where "find rs re = RtlpFindClearBitsRange (READ_CHUNK m (chunk_base bm) Invert) N (rs + word_of_nat a) (re + word_of_nat a)" for rs re
  define r where "r = (if hint \<ge> S then 0 else hint)"
  define e where "e = (if hint + N > S then S else hint + N)"
  have S: "bm_size bm = unat S" by (simp add: S_def bm_size_def)
  have n: "N \<noteq> 0" "0 < n" using N by (auto simp: word_gt_0 n_def unat_gt_0)
  have f: "find x (y - 1) = Some (index_of (map_option (\<lambda>b. b + a) (fit P n (unat x) (unat y))))" if "x \<le> y" "y \<le> S" for x y
    unfolding find_def a_def P_def n_def using that by (intro FindRange_bits [OF ok _ sz _ N]) (simp_all add: S word_le_nat_alt)
  have low: "b + a < 2 ^ 32 - 1" if "fit P n lo (unat y) = Some b" "y \<le> S" for lo b y
  proof -
    have "b + n \<le> unat y" "a \<le> 32" using that(1) by (auto simp: fit_Some a_def adjust_def)
    then show ?thesis using that(2) sz n(2) S by (simp add: word_le_nat_alt)
  qed
  have r: "r \<le> S" by (auto simp: r_def)
  have eS: "e \<le> S" "unat e = min (unat hint + n) (unat S)"
    using hn by (auto simp: e_def n_def unat_add_small word_less_nat_alt word_le_nat_alt)
  have run: "FindBits Invert m bm N hint = do {
      b \<leftarrow> find r (S - 1);
      b' \<leftarrow> (if b \<noteq> RTL_INVALID_INDEX \<or> r = 0 then Some b else find 0 (e - 1));
      Some (if b' \<noteq> RTL_INVALID_INDEX then b' - word_of_nat a else b') }"
    unfolding FindBits_unfold Let_def find_def a_def r_def e_def S_def if_not_P [OF n(1)] by (rule refl)
  note adj = index_adjust [of "fit P n (unat r) (unat S)" a, OF low [where lo = "unat r", OF _ order_refl]]
    index_adjust [of "fit P n 0 (unat e)" a, OF low [where lo = 0, OF _ eS(1)]]
  have hf: "hint_fit P n (unat hint) (unat S) = (case fit P n (unat r) (unat S) of Some b \<Rightarrow> Some b | None \<Rightarrow> fit P n 0 (unat S))"
    by (simp add: hint_fit_def r_def word_le_nat_alt)
  have "FindBits Invert m bm N hint = Some (index_of (hint_fit P n (unat hint) (unat S)))"
  proof (cases "fit P n (unat r) (unat S) \<noteq> None \<or> r = 0")
    case True
    then have "hint_fit P n (unat hint) (unat S) = fit P n (unat r) (unat S)" by (auto simp: hf split: option.splits)
    moreover have "index_of (map_option (\<lambda>b. b + a) (fit P n (unat r) (unat S))) \<noteq> RTL_INVALID_INDEX \<or> r = 0" (is ?c)
      using True adj(1) by blast
    ultimately show ?thesis by (simp only: run f [OF r order_refl] bind.simps if_True adj(2))
  next
    case False
    then have "hint_fit P n (unat hint) (unat S) = fit P n 0 (unat e)"
      using fit_before_hint [of P n "unat r" "unat S"] r eS(2) by (simp add: hf r_def word_le_nat_alt split: if_splits)
    then show ?thesis using False adj(1,3,4) f [OF r order_refl] f [OF _ eS(1), of 0] by (simp add: run)
  qed
  then show ?thesis unfolding S n_def [symmetric] P_def [symmetric] .
qed

end
