(* ===== verification/BitmapRanges.thy ===== *)
theory BitmapRanges
  imports BitmapSearch
begin

text \<open>
  The operations that change a bitmap.  \<open>RtlSetBits\<close> and \<open>RtlClearBits\<close> have the same shape, three
  parts of which each write some bits of one or more bytes; the locale \<open>range_filler\<close> states what
  the parts promise and derives what the whole does.
\<close>

section \<open>Bytes\<close>

lemma FillMask_mask: "n \<le> 8 \<Longrightarrow> entry FillMask n = Some (mask n)"
proof -
  assume "n \<le> 8"
  then consider "n = 0" | "n = 1" | "n = 2" | "n = 3" | "n = 4" | "n = 5" | "n = 6" | "n = 7" | "n = 8" by linarith
  then show ?thesis by cases (simp_all add: entry_def FillMask_def mask_eq_exp_minus_1)
qed

lemma ZeroMask_mask: "n \<le> 8 \<Longrightarrow> entry ZeroMask n = Some (NOT (mask n))"
proof -
  assume "n \<le> 8"
  then consider "n = 0" | "n = 1" | "n = 2" | "n = 3" | "n = 4" | "n = 5" | "n = 6" | "n = 7" | "n = 8" by linarith
  then show ?thesis by cases (simp_all add: entry_def ZeroMask_def mask_eq_exp_minus_1)
qed

lemma byte_mapped: "j < 8 \<Longrightarrow> mapped m (8 * a + j) = mapped m (8 * a)"
proof -
  assume "j < 8"
  moreover have "1 \<le> 8 - a mod 8" by (simp add: Suc_le_eq)
  ultimately have "j < 8 * (8 - a mod 8)" by linarith
  then show ?thesis using granule_of_bit(1) [of j a] granule_of_bit(1) [of 0 a] by (simp add: mapped_def)
qed

text \<open>A byte update that gives the bits \<open>p\<close> to \<open>p + n - 1\<close> the value \<open>x\<close> and keeps the others.\<close>

lemma upd8_bits:
  assumes mp: "mapped m (8 * a)" and n: "p + n \<le> 8"
    and f: "\<And>v j. j < 8 \<Longrightarrow> bit (f v) j \<longleftrightarrow> (if p \<le> j \<and> j < p + n then x else bit v j)"
  shows "\<exists>m'. upd8 m a f = Some m' \<and> bits_set_to m (8 * a + p) n (\<lambda>_. x) m'"
proof -
  obtain v where v: "rd8 m a = Some v" using mp rd8_mapped [of m a] by auto
  obtain m' where m': "wr8 m a (f v) = Some m'" "bits_set_to m (8 * a) 8 (bit (f v)) m'" by (rule wr8_bits [OF mp])
  have "mbit m' i \<longleftrightarrow> (if 8 * a + p \<le> i \<and> i < 8 * a + p + n then x else mbit m i)" for i
  proof (cases "8 * a \<le> i \<and> i < 8 * a + 8")
    case True
    then obtain j where j: "i = 8 * a + j" "j < 8" by (metis le_add_diff_inverse nat_add_left_cancel_less)
    then have "mbit m' i \<longleftrightarrow> bit (f v) j" using m'(2) by (simp add: bits_set_to_def)
    then show ?thesis using f [OF j(2), of v] rd8_bits [OF v j(2)] j(1) by simp
  next
    case False
    then show ?thesis using m'(2) n by (auto simp: bits_set_to_def)
  qed
  then show ?thesis using v m' by (auto simp: upd8_def bits_set_to_def)
qed

section \<open>Ranges\<close>

text \<open>
  The shape of \<open>RtlSetBits\<close> and \<open>RtlClearBits\<close>: a range inside one byte, or the end of the first
  byte, whole bytes, and the start of the last one.
\<close>

definition fill_aligned :: "(memory \<Rightarrow> nat \<Rightarrow> nat \<Rightarrow> memory option) \<Rightarrow> (memory \<Rightarrow> nat \<Rightarrow> nat \<Rightarrow> memory option)
    \<Rightarrow> memory \<Rightarrow> nat \<Rightarrow> ULONG \<Rightarrow> memory option" where
  "fill_aligned whole ending m a N = do {
     (m2, a2, N2) \<leftarrow> (if N > 8 then do { m2 \<leftarrow> whole m a (unat (N div 8)); Some (m2, a + unat (N div 8), N mod 8) }
                     else Some (m, a, N));
     (if N2 > 0 then ending m2 a2 (unat N2) else Some m2) }"

definition fill_range :: "(memory \<Rightarrow> nat \<Rightarrow> nat \<Rightarrow> nat \<Rightarrow> memory option) \<Rightarrow> (memory \<Rightarrow> nat \<Rightarrow> nat \<Rightarrow> memory option)
    \<Rightarrow> (memory \<Rightarrow> nat \<Rightarrow> nat \<Rightarrow> memory option) \<Rightarrow> (memory \<Rightarrow> nat \<Rightarrow> nat \<Rightarrow> memory option)
    \<Rightarrow> memory \<Rightarrow> RTL_BITMAP \<Rightarrow> ULONG \<Rightarrow> ULONG \<Rightarrow> memory option" where
  "fill_range inner first whole ending m bm S N =
     (if N = 0 then Some m
      else (let a = buf bm + unat (S div 8); p = S mod 8
            in if p + N \<le> 8 then inner m a (unat p) (unat N)
               else do {
                 (m1, a1, N1) \<leftarrow> (if p > 0 then do { m1 \<leftarrow> first m a (unat p); Some (m1, a + 1, N - (8 - p)) } else Some (m, a, N));
                 fill_aligned whole ending m1 a1 N1 }))"

locale range_filler =
  fixes x :: bool
    and inner :: "memory \<Rightarrow> nat \<Rightarrow> nat \<Rightarrow> nat \<Rightarrow> memory option"
    and first whole ending :: "memory \<Rightarrow> nat \<Rightarrow> nat \<Rightarrow> memory option"
  assumes inner: "mapped m (8 * a) \<Longrightarrow> p + n \<le> 8 \<Longrightarrow> \<exists>m'. inner m a p n = Some m' \<and> bits_set_to m (8 * a + p) n (\<lambda>_. x) m'"
    and first: "mapped m (8 * a) \<Longrightarrow> p \<le> 8 \<Longrightarrow> \<exists>m'. first m a p = Some m' \<and> bits_set_to m (8 * a + p) (8 - p) (\<lambda>_. x) m'"
    and whole: "\<forall>i<8 * n. mapped m (8 * a + i) \<Longrightarrow> \<exists>m'. whole m a n = Some m' \<and> bits_set_to m (8 * a) (8 * n) (\<lambda>_. x) m'"
    and ending: "mapped m (8 * a) \<Longrightarrow> n \<le> 8 \<Longrightarrow> \<exists>m'. ending m a n = Some m' \<and> bits_set_to m (8 * a) n (\<lambda>_. x) m'"
begin

lemma joined: "bits_set_to m b n (\<lambda>_. x) m' \<Longrightarrow> bits_set_to m' (b + n) k (\<lambda>_. x) m'' \<Longrightarrow> bits_set_to m b (n + k) (\<lambda>_. x) m''"
  by (drule (1) bits_set_to_trans) simp

text \<open>The part behind the first byte.\<close>

lemma aligned_part:
  fixes N :: ULONG
  assumes "\<forall>i<unat N. mapped m (8 * a + i)"
  shows "\<exists>m'. fill_aligned whole ending m a N = Some m' \<and> bits_set_to m (8 * a) (unat N) (\<lambda>_. x) m'"
proof (cases "N > 8")
  case False
  then have "unat N \<le> 8" by (simp add: word_less_nat_alt)
  then show ?thesis
    using False ending [of m a "unat N"] assms [rule_format, of 0] bits_set_to_refl [of m "8 * a"]
    by (cases "N = 0") (auto simp: fill_aligned_def word_gt_0 unat_gt_0)
next
  case True
  define q r where "q = unat N div 8" and "r = unat N mod 8"
  have N: "unat N = 8 * q + r" "r < 8" "unat (N div 8) = q" "unat (N mod 8) = r" "N mod 8 > 0 \<longleftrightarrow> r > 0"
    by (simp_all add: q_def r_def unat_div_word unat_mod_word word_less_nat_alt)
  obtain m2 where m2: "whole m a q = Some m2" "bits_set_to m (8 * a) (8 * q) (\<lambda>_. x) m2" using whole [of q m a] assms N(1) by auto
  show ?thesis
  proof (cases "r = 0")
    case True
    then show ?thesis using \<open>N > 8\<close> N m2 by (auto simp: fill_aligned_def)
  next
    case False
    have "mapped m2 (8 * (a + q))" using assms N(1) False bits_set_to_mapped [OF m2(2)] by (simp add: distrib_left)
    from ending [OF this, of r] obtain m' where m': "ending m2 (a + q) r = Some m'" "bits_set_to m2 (8 * (a + q)) r (\<lambda>_. x) m'" using N(2) by auto
    then have "bits_set_to m (8 * a) (8 * q + r) (\<lambda>_. x) m'" using joined [OF m2(2)] by (simp add: distrib_left)
    then show ?thesis using \<open>N > 8\<close> N m2(1) m'(1) False by (simp add: fill_aligned_def)
  qed
qed

lemma filled:
  fixes S N :: ULONG
  assumes mp: "\<forall>i<unat N. mapped m (8 * buf bm + unat S + i)" and nw: "unat S + unat N < 2 ^ 32"
  shows "\<exists>m'. fill_range inner first whole ending m bm S N = Some m' \<and> bits_set_to m (8 * buf bm + unat S) (unat N) (\<lambda>_. x) m'"
proof (cases "N = 0")
  case True
  then show ?thesis using bits_set_to_refl by (auto simp: fill_range_def)
next
  case False
  define a p where "a = buf bm + unat S div 8" and "p = unat S mod 8"
  have p: "8 * buf bm + unat S = 8 * a + p" "p < 8" "p \<le> unat S" "unat (S div 8) = unat S div 8" "unat (S mod 8) = p"
    by (simp_all add: a_def p_def distrib_left unat_div_word unat_mod_word)
  note shape = fill_range_def [of inner first whole ending m bm S N, unfolded Let_def p(4), folded a_def]
  have n0: "0 < unat N" using False by (simp add: unat_gt_0)
  have sum: "unat (S mod 8 + N) = p + unat N" using p(3,5) nw by (simp add: unat_add_small)
  have a0: "mapped m (8 * a)" using mp [rule_format, of 0] n0 p(1) byte_mapped [OF p(2), of m a] by simp
  show ?thesis
  proof (cases "p + unat N \<le> 8")
    case True
    then have "S mod 8 + N \<le> 8" using sum by (simp add: word_le_nat_alt)
    then show ?thesis unfolding shape p(1,5) using inner [OF a0 True] False by simp
  next
    case over: False
    then have over': "\<not> S mod 8 + N \<le> 8" using sum by (simp add: word_le_nat_alt)
    show ?thesis
    proof (cases "p = 0")
      case True
      then have "S mod 8 = 0" using p(5) by (simp add: unat_eq_zero)
      then show ?thesis unfolding shape p(1) using aligned_part [of N m a] mp p(1) True False over' by simp
    next
      case odd: False
      obtain m1 where m1: "first m a p = Some m1" "bits_set_to m (8 * a + p) (8 - p) (\<lambda>_. x) m1" using first [OF a0, of p] p(2) by auto
      have N1: "unat (N - (8 - S mod 8)) = unat N - (8 - p)" using over p(2,5) by (simp add: unat_sub_small)
      have "\<forall>i<unat (N - (8 - S mod 8)). mapped m1 (8 * (a + 1) + i)"
      proof (intro allI impI)
        fix i assume "i < unat (N - (8 - S mod 8))"
        then have "mapped m (8 * buf bm + unat S + (8 - p + i))" using mp N1 by simp
        moreover have "8 * buf bm + unat S + (8 - p + i) = 8 * (a + 1) + i" unfolding p(1) using p(2) by simp
        ultimately show "mapped m1 (8 * (a + 1) + i)" by (simp only: bits_set_to_mapped [OF m1(2)])
      qed
      from aligned_part [OF this] obtain m' where m': "fill_aligned whole ending m1 (a + 1) (N - (8 - S mod 8)) = Some m'"
        "bits_set_to m1 (8 * (a + 1)) (unat N - (8 - p)) (\<lambda>_. x) m'"
        using N1 by auto
      have "bits_set_to m (8 * a + p) (unat N) (\<lambda>_. x) m'" using joined [OF m1(2), of "unat N - (8 - p)" m'] m'(2) p(2) over by (simp add: add.commute [of 8])
      moreover have "S mod 8 > 0" using odd p(5) by (simp add: word_less_nat_alt)
      ultimately show ?thesis unfolding shape p(1,5) using m' m1(1) False over' by simp
    qed
  qed
qed

end

text \<open>The parts of \<open>RtlSetBits\<close> and of \<open>RtlClearBits\<close>.\<close>

definition set_inner :: "memory \<Rightarrow> nat \<Rightarrow> nat \<Rightarrow> nat \<Rightarrow> memory option" where
  "set_inner m a p n = do { f \<leftarrow> entry FillMask n; upd8 m a (\<lambda>v. v OR push_bit p f) }"

definition set_first :: "memory \<Rightarrow> nat \<Rightarrow> nat \<Rightarrow> memory option" where
  "set_first m a p = do { f \<leftarrow> entry ZeroMask p; upd8 m a (\<lambda>v. v OR f) }"

definition set_last :: "memory \<Rightarrow> nat \<Rightarrow> nat \<Rightarrow> memory option" where
  "set_last m a n = do { f \<leftarrow> entry FillMask n; upd8 m a (\<lambda>v. v OR f) }"

definition clear_inner :: "memory \<Rightarrow> nat \<Rightarrow> nat \<Rightarrow> nat \<Rightarrow> memory option" where
  "clear_inner m a p n = do { f \<leftarrow> entry FillMask n; upd8 m a (\<lambda>v. v AND NOT (push_bit p f)) }"

definition clear_first :: "memory \<Rightarrow> nat \<Rightarrow> nat \<Rightarrow> memory option" where
  "clear_first m a p = do { f \<leftarrow> entry FillMask p; upd8 m a (\<lambda>v. v AND f) }"

definition clear_last :: "memory \<Rightarrow> nat \<Rightarrow> nat \<Rightarrow> memory option" where
  "clear_last m a n = do { f \<leftarrow> entry ZeroMask n; upd8 m a (\<lambda>v. v AND f) }"

lemmas set_parts = set_inner_def set_first_def set_last_def
lemmas clear_parts = clear_inner_def clear_first_def clear_last_def

lemma byte_bits: "j < 8 \<Longrightarrow> bit (0xFF :: UCHAR) j"
proof -
  assume "j < 8"
  moreover have "(0xFF :: UCHAR) = mask 8" by (simp add: mask_eq_exp_minus_1)
  ultimately show ?thesis by (simp only: bit_mask_iff) simp
qed

lemma memset_filled:
  assumes "\<forall>i<8 * n. mapped m (8 * a + i)" "\<And>j. j < 8 \<Longrightarrow> bit v j = x"
  shows "\<exists>m'. memset m a v n = Some m' \<and> bits_set_to m (8 * a) (8 * n) (\<lambda>_. x) m'"
  using memset_bits [OF assms(1), of v] bits_set_to_cong [where g = "\<lambda>_. x"] assms(2) by fastforce

interpretation set_range: range_filler True set_inner set_first "\<lambda>m a n. memset m a 0xFF n" set_last
proof
  fix m a p n
  show "mapped m (8 * a) \<Longrightarrow> p + n \<le> 8 \<Longrightarrow> \<exists>m'. set_inner m a p n = Some m' \<and> bits_set_to m (8 * a + p) n (\<lambda>_. True) m'"
    by (auto simp: set_parts FillMask_mask bit_simps split: if_splits intro!: upd8_bits)
  show "mapped m (8 * a) \<Longrightarrow> p \<le> 8 \<Longrightarrow> \<exists>m'. set_first m a p = Some m' \<and> bits_set_to m (8 * a + p) (8 - p) (\<lambda>_. True) m'"
    by (auto simp: set_parts ZeroMask_mask bit_simps split: if_splits intro!: upd8_bits)
  show "mapped m (8 * a) \<Longrightarrow> n \<le> 8 \<Longrightarrow> \<exists>m'. set_last m a n = Some m' \<and> bits_set_to m (8 * a) n (\<lambda>_. True) m'"
    by (auto simp: set_parts FillMask_mask bit_simps split: if_splits intro!: upd8_bits [where p = 0, simplified])
qed (rule memset_filled, assumption, simp only: byte_bits)

interpretation clear_range: range_filler False clear_inner clear_first "\<lambda>m a n. memset m a 0 n" clear_last
proof
  fix m a p n
  show "mapped m (8 * a) \<Longrightarrow> p + n \<le> 8 \<Longrightarrow> \<exists>m'. clear_inner m a p n = Some m' \<and> bits_set_to m (8 * a + p) n (\<lambda>_. False) m'"
    by (auto simp: clear_parts FillMask_mask bit_simps split: if_splits intro!: upd8_bits)
  show "mapped m (8 * a) \<Longrightarrow> p \<le> 8 \<Longrightarrow> \<exists>m'. clear_first m a p = Some m' \<and> bits_set_to m (8 * a + p) (8 - p) (\<lambda>_. False) m'"
    by (auto simp: clear_parts FillMask_mask bit_simps split: if_splits intro!: upd8_bits)
  show "mapped m (8 * a) \<Longrightarrow> n \<le> 8 \<Longrightarrow> \<exists>m'. clear_last m a n = Some m' \<and> bits_set_to m (8 * a) n (\<lambda>_. False) m'"
    by (auto simp: clear_parts ZeroMask_mask bit_simps split: if_splits intro!: upd8_bits [where p = 0, simplified])
qed (rule memset_filled, assumption, simp)

lemma RtlSetBits_shape: "RtlSetBits m bm S N = fill_range set_inner set_first (\<lambda>m a n. memset m a 0xFF n) set_last m bm S N"
  unfolding RtlSetBits_def fill_range_def fill_aligned_def set_parts Let_def Option.bind_assoc by (rule refl)

lemma RtlClearBits_shape: "RtlClearBits m bm S N = fill_range clear_inner clear_first (\<lambda>m a n. memset m a 0 n) clear_last m bm S N"
  unfolding RtlClearBits_def fill_range_def fill_aligned_def clear_parts Let_def Option.bind_assoc by (rule refl)

lemmas RtlSetBits_filled = set_range.filled [folded RtlSetBits_shape]
lemmas RtlClearBits_filled = clear_range.filled [folded RtlClearBits_shape]

end
