(* ===== verification/BitmapSets.thy ===== *)
theory BitmapSets
  imports BitmapRanges
begin

text \<open>
  A bitmap stands for the set of the numbers of its set bits.  Each operation of
  \<open>src/ntoskrnl/rtl/bitmap.c\<close> that changes a bitmap implements an operation on sets.
\<close>

section \<open>The set of a bitmap\<close>

definition abs_set :: "memory \<Rightarrow> RTL_BITMAP \<Rightarrow> nat set" where
  "abs_set m bm = {i. i < bm_size bm \<and> bm_bit m bm i}"

text \<open>Memory outside the bitmap is kept.\<close>

definition keeps_others :: "memory \<Rightarrow> memory \<Rightarrow> nat \<Rightarrow> nat \<Rightarrow> bool" where
  "keeps_others m m' b n \<longleftrightarrow> dom m' = dom m \<and> (\<forall>i. i < b \<or> b + n \<le> i \<longrightarrow> mbit m' i = mbit m i)"

lemma bits_bm_ok: "bits_set_to m b n f m' \<Longrightarrow> bm_ok m bm \<Longrightarrow> bm_ok m' bm"
  by (simp add: bm_ok_def bits_set_to_mapped)

lemma bits_keeps: "bits_set_to m b n f m' \<Longrightarrow> keeps_others m m' b n"
  by (auto simp: bits_set_to_def keeps_others_def)

lemma bits_bm_bit:
  "bits_set_to m (8 * buf bm + s) n (\<lambda>_. x) m' \<Longrightarrow> bm_bit m' bm i \<longleftrightarrow> (if s \<le> i \<and> i < s + n then x else bm_bit m bm i)"
  by (simp add: bits_set_to_def bm_bit_def)

lemma bits_abs_set:
  assumes "bits_set_to m (8 * buf bm + s) n (\<lambda>_. x) m'" "s + n \<le> bm_size bm"
  shows "abs_set m' bm = (if x then abs_set m bm \<union> {s..<s + n} else abs_set m bm - {s..<s + n})"
  using assms(2) by (auto simp: abs_set_def bits_bm_bit [OF assms(1)])

lemma SetBits_set:
  fixes S N :: ULONG
  assumes "bm_ok m bm" "unat S + unat N \<le> bm_size bm"
  obtains m' where "RtlSetBits m bm S N = Some m'" "bits_set_to m (8 * buf bm + unat S) (unat N) (\<lambda>_. True) m'"
proof -
  have "\<forall>i<unat N. mapped m (8 * buf bm + unat S + i)" using bm_mapped [OF assms(1)] assms(2) by (simp add: add.assoc)
  moreover have "unat S + unat N < 2 ^ 32" using assms(2) unat_bound [of "SizeOfBitMap bm"] by (simp add: bm_size_def)
  ultimately show thesis using RtlSetBits_filled that by blast
qed

lemma ClearBits_set:
  fixes S N :: ULONG
  assumes "bm_ok m bm" "unat S + unat N \<le> bm_size bm"
  obtains m' where "RtlClearBits m bm S N = Some m'" "bits_set_to m (8 * buf bm + unat S) (unat N) (\<lambda>_. False) m'"
proof -
  have "\<forall>i<unat N. mapped m (8 * buf bm + unat S + i)" using bm_mapped [OF assms(1)] assms(2) by (simp add: add.assoc)
  moreover have "unat S + unat N < 2 ^ 32" using assms(2) unat_bound [of "SizeOfBitMap bm"] by (simp add: bm_size_def)
  ultimately show thesis using RtlClearBits_filled that by blast
qed

section \<open>Single bits\<close>

lemma bt_small:
  assumes "unat n < 2 ^ 31"
  shows "bt_cell bm n = buf bm + 4 * (unat n div 32)" "bt_bit n = unat n mod 32"
proof -
  have s: "sint n = int (unat n)" using assms by (intro sint_eq_unat) simp
  show "bt_bit n = unat n mod 32" unfolding bt_bit_def s by (simp add: nat_mod_distrib)
  have "int (buf bm) + 4 * (int (unat n) div 32) = int (buf bm + 4 * (unat n div 32))" by (simp add: zdiv_int)
  then show "bt_cell bm n = buf bm + 4 * (unat n div 32)" unfolding bt_cell_def s by (simp only: nat_int)
qed

lemma cell_bit: "8 * (b + 4 * (i div 32)) + i mod 32 = 8 * b + i" for b i :: nat
  using mult_div_mod_eq [of 32 i] by (simp only: distrib_left)

text \<open>The longword of a bit is mapped when the bit is.\<close>

lemma cell_mapped:
  assumes "b mod 4 = 0" "i div 32 = j div 32"
  shows "mapped m (8 * b + i) = mapped m (8 * b + j)"
proof -
  obtain q where q: "b = 4 * q" using assms(1) by (auto simp: mod_eq_0_iff_dvd)
  have "(8 * b + k) div 64 = (q + k div 32) div 2" for k
  proof -
    have "(8 * b + k) div 32 = q + k div 32" unfolding q by simp
    then show ?thesis by (metis div_mult2_eq mult_2_right numeral_Bit0)
  qed
  then show ?thesis using assms(2) by (simp add: mapped_def)
qed

lemma bt_mapped:
  assumes "bm_ok m bm" "i < bm_size bm"
  shows "(buf bm + 4 * (i div 32)) mod 4 = 0" "mapped m (8 * (buf bm + 4 * (i div 32)))"
proof -
  show "(buf bm + 4 * (i div 32)) mod 4 = 0" using assms(1) by (simp add: bm_ok_def)
  have "mapped m (8 * buf bm + 32 * (i div 32)) = mapped m (8 * buf bm + i)" using assms(1) by (intro cell_mapped) (simp_all add: bm_ok_def)
  then show "mapped m (8 * (buf bm + 4 * (i div 32)))" using bm_mapped [OF assms] by (simp add: distrib_left)
qed

lemma TestBit_set:
  fixes n :: ULONG
  assumes "bm_ok m bm" "unat n < bm_size bm" "unat n < 2 ^ 31"
  shows "RtlTestBit m bm n = Some (unat n \<in> abs_set m bm)" "RtlCheckBit m bm n = Some (unat n \<in> abs_set m bm)"
proof -
  note bt = bt_mapped [OF assms(1,2)]
  obtain v where v: "rd32 m (buf bm + 4 * (unat n div 32)) = Some v" using rd32_mapped bt(2) by blast
  have "bit v (unat n mod 32) \<longleftrightarrow> mbit m (8 * buf bm + unat n)" using rd32_bits [OF bt(1) v, of "unat n mod 32"] by (simp only: cell_bit)
  then have "BitTest m bm n = Some (unat n \<in> abs_set m bm)"
    using v assms(2) by (simp add: BitTest_def bt_small [OF assms(3)] abs_set_def bm_bit_def)
  then show "RtlTestBit m bm n = Some (unat n \<in> abs_set m bm)" "RtlCheckBit m bm n = Some (unat n \<in> abs_set m bm)"
    by (simp_all add: RtlTestBit_def RtlCheckBit_def)
qed

text \<open>An update of a longword that changes one bit.\<close>

lemma bit_update:
  fixes n :: ULONG
  assumes ok: "bm_ok m bm" "unat n < bm_size bm" "unat n < 2 ^ 31"
    and f: "\<And>v j. j < 32 \<Longrightarrow> bit (f v) j \<longleftrightarrow> (if j = unat n mod 32 then x else bit v j)"
  shows "\<exists>m'. do { v \<leftarrow> rd32 m (bt_cell bm n); wr32 m (bt_cell bm n) (f v) } = Some m'
    \<and> bits_set_to m (8 * buf bm + unat n) 1 (\<lambda>_. x) m'"
proof -
  define a where "a = buf bm + 4 * (unat n div 32)"
  note bt = bt_mapped [OF ok(1,2), folded a_def]
  obtain v where v: "rd32 m a = Some v" using rd32_mapped bt(2) by blast
  obtain m' where m': "wr32 m a (f v) = Some m'" "bits_set_to m (8 * a) 32 (bit (f v)) m'" by (rule wr32_bits [OF bt])
  have c: "8 * buf bm + unat n = 8 * a + unat n mod 32" using cell_bit [of "buf bm" "unat n"] by (simp add: a_def)
  have "mbit m' i \<longleftrightarrow> (if i = 8 * a + unat n mod 32 then x else mbit m i)" for i
  proof (cases "8 * a \<le> i \<and> i < 8 * a + 32")
    case True
    then obtain j where j: "i = 8 * a + j" "j < 32" by (metis le_add_diff_inverse nat_add_left_cancel_less)
    then have "mbit m' i \<longleftrightarrow> bit (f v) j" using m'(2) by (simp add: bits_set_to_def)
    then show ?thesis using f [OF j(2), of v] rd32_bits [OF bt(1) v j(2)] j(1) by simp
  next
    case False
    then have "i \<noteq> 8 * a + unat n mod 32" by auto
    then show ?thesis using m'(2) False by (auto simp: bits_set_to_def)
  qed
  moreover have "dom m' = dom m" using m'(2) by (simp add: bits_set_to_def)
  moreover have "b \<le> i \<and> i < b + 1 \<longleftrightarrow> i = b" for b i :: nat by auto
  ultimately have "bits_set_to m (8 * buf bm + unat n) 1 (\<lambda>_. x) m'" unfolding c by (simp only: bits_set_to_def) simp
  then show ?thesis using v m'(1) by (auto simp: bt_small [OF ok(3)] a_def)
qed

lemma SetBit_set:
  fixes n :: ULONG
  assumes "bm_ok m bm" "unat n < bm_size bm" "unat n < 2 ^ 31"
  shows "\<exists>m'. RtlSetBit m bm n = Some m' \<and> bits_set_to m (8 * buf bm + unat n) 1 (\<lambda>_. True) m'"
  unfolding RtlSetBit_def by (rule bit_update [OF assms]) (auto simp: bit_set_bit_iff bt_small [OF assms(3)] possible_bit_def)

lemma ClearBit_set:
  fixes n :: ULONG
  assumes "bm_ok m bm" "unat n < bm_size bm" "unat n < 2 ^ 31"
  shows "\<exists>m'. RtlClearBit m bm n = Some m' \<and> bits_set_to m (8 * buf bm + unat n) 1 (\<lambda>_. False) m'"
  unfolding RtlClearBit_def by (rule bit_update [OF assms]) (auto simp: bit_unset_bit_iff bt_small [OF assms(3)] possible_bit_def)

section \<open>All bits\<close>

text \<open>The longwords of a bitmap.\<close>

definition bm_longs :: "RTL_BITMAP \<Rightarrow> nat" where
  "bm_longs bm = (bm_size bm + 31) div 32"

lemma longs_mapped:
  assumes "bm_ok m bm" "i < 32 * bm_longs bm"
  shows "mapped m (8 * buf bm + i)"
proof -
  have "i div 32 < bm_longs bm" using assms(2) by (simp add: div_less_iff_less_mult mult.commute)
  then have "32 * (i div 32) < bm_size bm" unfolding bm_longs_def by (simp add: less_eq_div_iff_mult_less_eq Suc_le_eq [symmetric])
  then have "mapped m (8 * buf bm + 32 * (i div 32))" by (rule bm_mapped [OF assms(1)])
  moreover have "mapped m (8 * buf bm + i) = mapped m (8 * buf bm + 32 * (i div 32))" using assms(1) by (intro cell_mapped) (simp_all add: bm_ok_def)
  ultimately show ?thesis by simp
qed

lemma bytes_of_map:
  assumes "bm_size bm + 31 < 2 ^ 32"
  shows "unat ((SizeOfBitMap bm + 31) div 32 * 4) = 4 * bm_longs bm"
proof -
  have "unat (SizeOfBitMap bm + 31) = bm_size bm + 31" using assms by (simp add: bm_size_def unat_add_small)
  then have d: "unat ((SizeOfBitMap bm + 31) div 32) = bm_longs bm" by (simp add: unat_div_word bm_longs_def)
  have "bm_longs bm < 2 ^ 27" using assms by (simp add: bm_longs_def div_less_iff_less_mult)
  then show ?thesis using d by (simp add: unat_mult_small)
qed

lemma ClearAllBits_set:
  assumes "bm_ok m bm" "bm_size bm + 31 < 2 ^ 32"
  shows "\<exists>m'. RtlClearAllBits m bm = Some m' \<and> bits_set_to m (8 * buf bm) (32 * bm_longs bm) (\<lambda>_. False) m'"
  using memset_filled [of "4 * bm_longs bm" m "buf bm" 0 False] longs_mapped [OF assms(1)]
  by (simp add: RtlClearAllBits_def bytes_of_map [OF assms(2)])

text \<open>The fill of \<open>n\<close> longwords from an address aligned to a quadword.\<close>

lemma ones: "j < 32 \<Longrightarrow> bit (0xFFFFFFFF :: ULONG) j"
proof -
  assume "j < 32"
  moreover have "(0xFFFFFFFF :: ULONG) = mask 32" by (simp add: mask_eq_exp_minus_1)
  ultimately show ?thesis by (simp only: bit_mask_iff) simp
qed

lemma long_filled:
  assumes "a mod 4 = 0" "mapped m (8 * a)"
  obtains m' where "wr32 m a 0xFFFFFFFF = Some m'" "bits_set_to m (8 * a) 32 (\<lambda>_. True) m'"
proof -
  obtain m' where m': "wr32 m a 0xFFFFFFFF = Some m'" "bits_set_to m (8 * a) 32 (bit (0xFFFFFFFF :: ULONG)) m'" by (rule wr32_bits [OF assms])
  from m'(2) have "bits_set_to m (8 * a) 32 (\<lambda>_. True) m'" by (rule bits_set_to_cong) (simp only: ones)
  with m'(1) show thesis by (rule that)
qed

definition fill_longs :: "memory \<Rightarrow> nat \<Rightarrow> nat \<Rightarrow> memory option" where
  "fill_longs m a n = do { m1 \<leftarrow> stosq m a (- 1) (n div 2); if odd n then wr32 m1 (a + 4 * (n - 1)) 0xFFFFFFFF else Some m1 }"

lemma fill_quads:
  assumes a: "a mod 8 = 0" and mp: "\<forall>i<32 * n. mapped m (8 * a + i)"
  shows "\<exists>m'. fill_longs m a n = Some m' \<and> bits_set_to m (8 * a) (32 * n) (\<lambda>_. True) m'"
proof -
  obtain m1 where m1: "stosq m a (- 1) (n div 2) = Some m1" "bits_set_to m (8 * a) (64 * (n div 2)) (\<lambda>i. bit (- 1 :: 64 word) (i mod 64)) m1"
    using stosq_bits [OF a, of "n div 2" m "- 1"] mp by auto
  from m1(2) have b1: "bits_set_to m (8 * a) (64 * (n div 2)) (\<lambda>_. True) m1" by (rule bits_set_to_cong) simp
  show ?thesis
  proof (cases "odd n")
    case False
    then show ?thesis using m1(1) b1 by (auto simp: fill_longs_def elim: evenE)
  next
    case True
    then obtain k where k: "n = 2 * k + 1" by (metis oddE)
    have b1': "bits_set_to m (8 * a) (64 * k) (\<lambda>_. True) m1" using b1 k by simp
    have e: "8 * (a + 4 * (2 * k)) = 8 * a + 64 * k" by simp
    have mp1: "mapped m1 (8 * (a + 4 * (2 * k)))" unfolding e using mp k by (simp add: bits_set_to_mapped [OF b1])
    have "4 dvd a" using a by (metis dvd_mod_imp_dvd dvd_0_right dvd_triv_left mod_eq_0_iff_dvd mult_2_right numeral_Bit0 numerals(2) dvd_trans)
    then have al: "(a + 4 * (2 * k)) mod 4 = 0" by (simp add: mod_eq_0_iff_dvd)
    obtain m' where m': "wr32 m1 (a + 4 * (2 * k)) 0xFFFFFFFF = Some m'" "bits_set_to m1 (8 * (a + 4 * (2 * k))) 32 (\<lambda>_. True) m'"
      by (rule long_filled [OF al mp1])
    have "bits_set_to m (8 * a) (32 * n) (\<lambda>_. True) m'" using set_range.joined [OF b1' m'(2) [unfolded e]] k by (simp add: add.commute)
    then show ?thesis using m1(1) m'(1) k by (simp add: fill_longs_def)
  qed
qed

lemma odd_word: "L AND 1 \<noteq> 0 \<longleftrightarrow> odd (unat L)" for L :: "64 word"
proof -
  have "L AND 1 = (if even L then 0 else 1)" by (simp add: and_one_eq mod_2_eq_odd)
  moreover have "even L \<longleftrightarrow> even (unat L)" using bit_unsigned_iff [where 'a = nat, of L 0] by (simp add: bit_0)
  ultimately show ?thesis by simp
qed

lemma FillMemoryUlong_shape:
  assumes "unat (Bytes div 4) = n"
  shows "RtlFillMemoryUlong m a Bytes 0xFFFFFFFF = (if n = 0 then Some m else if a AND 4 \<noteq> 0
      then do { m1 \<leftarrow> wr32 m a 0xFFFFFFFF; if n = 1 then Some m1 else fill_longs m1 (a + 4) (n - 1) } else fill_longs m a n)"
proof -
  define L where "L = Bytes div 4"
  have L: "unat L = n" "L = 0 \<longleftrightarrow> n = 0" using assms by (simp_all add: L_def unat_eq_zero [symmetric])
  have q: "(ucast (0xFFFFFFFF :: ULONG) OR push_bit 32 (ucast (0xFFFFFFFF :: ULONG)) :: 64 word) = - 1" by simp
  have fill: "do { m1 \<leftarrow> stosq m a (- 1) (unat (K div 2)); if K AND 1 \<noteq> 0 then wr32 m1 (a + 4 * unat (K - 1)) 0xFFFFFFFF else Some m1 }
      = fill_longs m a (unat K)" for m a and K :: "64 word"
  proof -
    have "unat (K - 1) = unat K - 1" if "odd (unat K)"
      using that unat_sub_small [of 1 K] by (cases "unat K") auto
    then show ?thesis unfolding fill_longs_def odd_word by (simp add: unat_div_word cong: if_cong)
  qed
  show ?thesis
  proof (cases "n = 0")
    case True
    then show ?thesis using L by (simp add: RtlFillMemoryUlong_def L_def [symmetric])
  next
    case False
    then have "unat (L - 1) = n - 1" using L(1) unat_sub_small [of 1 L] by simp
    moreover have "L - 1 = 0 \<longleftrightarrow> n = 1" using L(1) word_unat_eq_iff [of L 1] by simp
    ultimately show ?thesis
      using False L unfolding RtlFillMemoryUlong_def Let_def L_def [symmetric] q fill by (simp cong: if_cong)
  qed
qed

lemma quad_aligned:
  fixes b :: nat
  assumes "b mod 4 = 0"
  shows "b AND 4 \<noteq> 0 \<Longrightarrow> (b + 4) mod 8 = 0" "b AND 4 = 0 \<Longrightarrow> b mod 8 = 0"
proof -
  obtain q where q: "b = 4 * q" using assms by (auto simp: mod_eq_0_iff_dvd)
  have b: "bit (b AND 4) j \<longleftrightarrow> j = 2 \<and> odd q" for j
  proof -
    have "(4 :: nat) = push_bit 2 1" "b = push_bit 2 q" by (simp_all add: push_bit_eq_mult q)
    then show ?thesis unfolding bit_and_iff by (simp only: bit_push_bit_iff_nat bit_1_iff) (auto simp: bit_0)
  qed
  have "b AND 4 \<noteq> 0 \<longleftrightarrow> odd q" using b by (metis bit_0_eq bit_eq_iff bot_apply bot_bool_def)
  then show "b AND 4 \<noteq> 0 \<Longrightarrow> (b + 4) mod 8 = 0" "b AND 4 = 0 \<Longrightarrow> b mod 8 = 0" using q by (auto elim!: oddE evenE)
qed

lemma SetAllBits_set:
  assumes ok: "bm_ok m bm" and sz: "bm_size bm + 31 < 2 ^ 32"
  shows "\<exists>m'. RtlSetAllBits m bm = Some m' \<and> bits_set_to m (8 * buf bm) (32 * bm_longs bm) (\<lambda>_. True) m'"
proof -
  define n where "n = bm_longs bm"
  have mp: "mapped m (8 * buf bm + i)" if "i < 32 * n" for i using longs_mapped [OF ok] that by (simp add: n_def)
  have "unat (ucast ((SizeOfBitMap bm + 31) div 32 * 4) div 4 :: 64 word) = n"
    using bytes_of_map [OF sz] unat_bound [of "(SizeOfBitMap bm + 31) div 32 * 4"]
    by (simp add: unat_div_word unat_ucast_mod n_def)
  note shape = FillMemoryUlong_shape [OF this, of m "buf bm", folded RtlSetAllBits_def]
  have al: "buf bm mod 4 = 0" using ok by (simp add: bm_ok_def)
  consider "n = 0" | "n \<noteq> 0" "buf bm AND 4 = 0" | "n \<noteq> 0" "buf bm AND 4 \<noteq> 0" by blast
  then show ?thesis
  proof cases
    case 1
    then show ?thesis using shape bits_set_to_refl by (auto simp: n_def)
  next
    case 2
    then show ?thesis using fill_quads [OF quad_aligned(2) [OF al 2(2)], of n m] mp shape by (simp add: n_def)
  next
    case 3
    obtain m1 where m1: "wr32 m (buf bm) 0xFFFFFFFF = Some m1" "bits_set_to m (8 * buf bm) 32 (\<lambda>_. True) m1"
      by (rule long_filled [OF al, of m]) (use mp [of 0] 3 in auto)
    have e: "8 * (buf bm + 4) = 8 * buf bm + 32" by simp
    have "\<forall>i<32 * (n - 1). mapped m1 (8 * (buf bm + 4) + i)"
      unfolding e bits_set_to_mapped [OF m1(2)] add.assoc by (intro allI impI mp) simp
    then obtain m' where m': "fill_longs m1 (buf bm + 4) (n - 1) = Some m'" "bits_set_to m1 (8 * buf bm + 32) (32 * (n - 1)) (\<lambda>_. True) m'"
      using fill_quads [OF quad_aligned(1) [OF al 3(2)], of "n - 1" m1] unfolding e by blast
    have "32 + 32 * (n - 1) = 32 * n" using 3(1) by simp
    then have all: "bits_set_to m (8 * buf bm) (32 * n) (\<lambda>_. True) m'" using set_range.joined [OF m1(2) m'(2)] by simp
    show ?thesis using shape 3 m1 m' all by (cases "n = 1") (auto simp: n_def)
  qed
qed

end
