(* ===== verification/BitmapCount.thy ===== *)
theory BitmapCount
  imports BitmapSets
begin

text \<open>
  \<open>RtlpNumberOfSetBitsInChunk\<close> adds the bits of a chunk in parallel; it computes the number of set
  bits.  \<open>RtlNumberOfSetBits\<close> counts the bytes before the first chunk, the chunks and the bytes
  behind the last one.
\<close>

section \<open>The parallel sum\<close>

text \<open>The sum of the first \<open>n\<close> fields of \<open>k\<close> bits of a number.\<close>

primrec fields :: "nat \<Rightarrow> nat \<Rightarrow> nat \<Rightarrow> nat" where
  "fields k 0 w = 0"
| "fields k (Suc n) w = w mod 2 ^ k + fields k n (w div 2 ^ k)"

text \<open>The mask of every other field, and a number cut down to those fields.\<close>

primrec alternate :: "nat \<Rightarrow> nat \<Rightarrow> nat" where
  "alternate k 0 = 0"
| "alternate k (Suc n) = mask k + 2 ^ (2 * k) * alternate k n"

primrec select :: "nat \<Rightarrow> nat \<Rightarrow> nat \<Rightarrow> nat" where
  "select k 0 w = 0"
| "select k (Suc n) w = w mod 2 ^ k + 2 ^ (2 * k) * select k n (w div 2 ^ (2 * k))"

lemma and_split:
  fixes w a b :: nat
  assumes "a < 2 ^ k"
  shows "w AND (a + 2 ^ k * b) = (w mod 2 ^ k AND a) + 2 ^ k * (w div 2 ^ k AND b)"
proof -
  define x where "x = a + 2 ^ k * b"
  have x: "take_bit k x = a" "drop_bit k x = b" using assms by (simp_all add: x_def take_bit_eq_mod drop_bit_eq_div)
  have "w AND x = take_bit k (w AND x) + 2 ^ k * drop_bit k (w AND x)" by (simp add: take_bit_eq_mod drop_bit_eq_div)
  also have "\<dots> = (take_bit k w AND a) + 2 ^ k * (drop_bit k w AND b)" by (simp only: take_bit_and drop_bit_and x)
  finally show ?thesis by (simp add: x_def take_bit_eq_mod drop_bit_eq_div)
qed

lemma and_alternate: "w AND alternate k n = select k n w"
proof (induction n arbitrary: w)
  case (Suc n)
  have m: "(mask k :: nat) < 2 ^ (2 * k)" by (rule order.strict_trans2 [OF mask_nat_less_exp]) simp
  have "(w mod 2 ^ (2 * k)) AND mask k = w mod 2 ^ k"
    unfolding take_bit_eq_mask [symmetric] take_bit_eq_mod [symmetric] by (simp add: take_bit_take_bit)
  then show ?case using Suc and_split [OF m, of w "alternate k n"] by simp
qed simp

lemma pair_sum:
  fixes w k n :: nat
  defines "B \<equiv> 2 ^ k" and "w2 \<equiv> w div 2 ^ (2 * k)"
  assumes "0 < k"
  shows "select k (Suc n) w + select k (Suc n) (w div B) = (w mod B + w div B mod B) + B\<^sup>2 * (select k n w2 + select k n (w2 div B))"
    "w mod B + w div B mod B < B\<^sup>2" "w div B div B = w2"
proof -
  have p: "(2::nat) ^ (2 * k) = B\<^sup>2" by (simp add: B_def power_mult power_even_eq mult.commute)
  have e: "w div B div 2 ^ (2 * k) = w2 div B" by (simp add: B_def w2_def div_mult2_eq [symmetric] mult.commute)
  show "select k (Suc n) w + select k (Suc n) (w div B) = (w mod B + w div B mod B) + B\<^sup>2 * (select k n w2 + select k n (w2 div B))"
    by (simp add: e p [symmetric] distrib_left) (simp add: B_def w2_def)
  have "w mod B < B" "w div B mod B < B" by (simp_all add: B_def)
  moreover have "2 \<le> B" using assms(3) by (cases k) (simp_all add: B_def)
  then have "2 * B \<le> B\<^sup>2" by (simp add: power2_eq_square)
  ultimately show "w mod B + w div B mod B < B\<^sup>2" by linarith
  show "w div B div B = w2" unfolding w2_def p by (simp add: div_mult2_eq power2_eq_square)
qed

text \<open>Adding neighbours gives the fields of twice the width the sum of the two.\<close>

lemma square_pow: "(2::nat) ^ (2 * k) = (2 ^ k)\<^sup>2"
  by (simp add: power_mult power_even_eq mult.commute)

lemma fields_pairs:
  assumes "0 < k"
  shows "fields (2 * k) n (select k n w + select k n (w div 2 ^ k)) = fields k (2 * n) w"
proof (induction n arbitrary: w)
  case (Suc n)
  note ps = pair_sum(1) [OF assms, of n w] pair_sum(2,3) [OF assms, of w]
  show ?case unfolding ps(1) fields.simps square_pow using ps(2,3) Suc [of "w div 2 ^ (2 * k)"] square_pow [of k] by simp
qed simp

lemma fields_bits: "fields 1 n w = card {i. i < n \<and> bit w i}"
proof (induction n arbitrary: w)
  case (Suc n)
  have "{i. i < Suc n \<and> bit w i} = (if bit w 0 then {0} else {}) \<union> Suc ` {i. i < n \<and> bit (w div 2) i}"
  proof (intro set_eqI)
    fix i show "i \<in> {i. i < Suc n \<and> bit w i} \<longleftrightarrow> i \<in> (if bit w 0 then {0} else {}) \<union> Suc ` {i. i < n \<and> bit (w div 2) i}"
      by (cases i) (auto simp: bit_Suc)
  qed
  moreover have "card ((if bit w 0 then {0} else {}) \<union> Suc ` {i. i < n \<and> bit (w div 2) i})
      = w mod 2 + card {i. i < n \<and> bit (w div 2) i}"
    by (subst card_Un_disjoint) (auto simp: card_image bit_0 mod_2_eq_odd)
  ultimately show ?case using Suc by simp
qed simp

text \<open>No carry leaves a field.\<close>

primrec bounded :: "nat \<Rightarrow> nat \<Rightarrow> nat \<Rightarrow> nat \<Rightarrow> bool" where
  "bounded k 0 c w = True"
| "bounded k (Suc n) c w = (w mod 2 ^ k \<le> c \<and> bounded k n c (w div 2 ^ k))"

lemma bounded_bits: "bounded 1 n 1 w"
  by (induction n arbitrary: w) simp_all

lemma bounded_pairs:
  assumes "0 < k" "bounded k (2 * n) c w"
  shows "bounded (2 * k) n (2 * c) (select k n w + select k n (w div 2 ^ k))"
  using assms(2)
proof (induction n arbitrary: w)
  case (Suc n)
  note ps = pair_sum(1) [OF assms(1), of n w] pair_sum(2,3) [OF assms(1), of w]
  note p = square_pow [of k]
  have "w mod 2 ^ k \<le> c" "w div 2 ^ k mod 2 ^ k \<le> c" "bounded k (2 * n) c (w div 2 ^ (2 * k))" using Suc.prems ps(3) by simp_all
  then show ?case unfolding ps(1) bounded.simps p using ps(2) Suc.IH [of "w div 2 ^ (2 * k)"] p by simp
qed simp

lemma select_halves: "0 < k \<Longrightarrow> w < 2 ^ (2 * k * n) \<Longrightarrow> w = select k n w + 2 ^ k * select k n (w div 2 ^ k)"
proof (induction n arbitrary: w)
  case (Suc n)
  define B :: nat where "B = 2 ^ k"
  define w2 where "w2 = w div 2 ^ (2 * k)"
  note ps = pair_sum(3) [OF Suc.prems(1), of w, folded B_def w2_def]
  have p: "(2::nat) ^ (2 * k) = B * B" by (simp add: B_def power_mult power_even_eq mult.commute power2_eq_square)
  have "w2 < 2 ^ (2 * k * n)" using Suc.prems(2) by (simp add: w2_def div_less_iff_less_mult power_add mult.commute)
  then have IH: "w2 = select k n w2 + B * select k n (w2 div B)" using Suc.IH [OF Suc.prems(1), of w2] by (simp add: B_def)
  have e: "w div B div (B * B) = w2 div B" by (simp add: div_mult2_eq ps)
  have "w = w mod B + B * (w div B mod B + B * w2)" using ps by (metis mod_mult_div_eq mult_div_mod_eq add.commute)
  also have "\<dots> = w mod B + B * (w div B mod B) + B * B * (select k n w2 + B * select k n (w2 div B))" using IH by (simp add: algebra_simps)
  also have "\<dots> = select k (Suc n) w + B * select k (Suc n) (w div B)"
    unfolding select.simps p e B_def [symmetric] w2_def [unfolded p, symmetric] by (simp add: algebra_simps)
  finally show ?case by (simp only: B_def)
qed simp

lemma select_below: "0 < k \<Longrightarrow> select k n w + select k n (w div 2 ^ k) < 2 ^ (2 * k * n)"
proof (induction n arbitrary: w)
  case (Suc n)
  define B :: nat where "B = 2 ^ k"
  have p: "(2::nat) ^ (2 * k) = B\<^sup>2" by (simp add: B_def square_pow)
  note ps = pair_sum(1) [OF Suc.prems, of n w, folded B_def] pair_sum(2) [OF Suc.prems, of w, folded B_def]
  define w2 where "w2 = w div 2 ^ (2 * k)"
  have "Suc (select k n w2 + select k n (w2 div B)) \<le> 2 ^ (2 * k * n)" using Suc.IH [OF Suc.prems, of w2] by (simp add: B_def)
  then have "B\<^sup>2 * Suc (select k n w2 + select k n (w2 div B)) \<le> B\<^sup>2 * 2 ^ (2 * k * n)" by (rule mult_left_mono) simp
  then have "select k (Suc n) w + select k (Suc n) (w div B) < B\<^sup>2 * 2 ^ (2 * k * n)" using ps(1,2) by (simp add: w2_def [symmetric])
  then show ?case by (simp add: B_def [symmetric] p [symmetric] power_add [symmetric])
qed simp

text \<open>The selected fields of a number plus the number shifted by a field.\<close>

lemma select_shifted_sum:
  assumes "2 * c < 2 ^ k" "bounded k (2 * n) c w" "0 < k"
  shows "select k n (w + w div 2 ^ k) = select k n w + select k n (w div 2 ^ k)"
  using assms(2)
proof (induction n arbitrary: w)
  case (Suc n)
  define B :: nat where "B = 2 ^ k"
  define f0 f1 y where "f0 = w mod B" and "f1 = w div B mod B" and "y = w div B div B"
  note k = assms(3)
  have w: "w = f0 + B * (f1 + B * y)" "w div B = f1 + B * y" by (simp_all add: f0_def f1_def y_def)
  have f: "f0 \<le> c" "f1 \<le> c" "bounded k (2 * n) c y" using Suc.prems by (simp_all add: f0_def f1_def y_def B_def)
  have B: "f0 + f1 < B" "0 < B" using f assms(1) by (simp_all add: B_def)
  have sum: "w + w div B = (f0 + f1) + B * (f1 + y + B * y)" unfolding w(2) by (subst w(1)) (simp add: algebra_simps)
  have p: "(2::nat) ^ (2 * k) = B * B" by (simp add: B_def square_pow power2_eq_square)
  have d: "(w + w div B) div (B * B) = (f1 + y) div B + y" unfolding sum div_mult2_eq using B by simp
  have "select k n ((f1 + y) div B + y) = select k n (y + y div B)"
  proof (cases n)
    case (Suc n')
    have "y mod B \<le> c" using f(3) Suc by (simp add: B_def)
    then have "f1 + y mod B < B" using f(2) assms(1) by (simp add: B_def)
    moreover have "f1 + y = (f1 + y mod B) + B * (y div B)" by simp
    ultimately have "(f1 + y) div B = y div B" using B(2) by (metis add_0_right div_less div_mult_self2 not_less_zero)
    then show ?thesis by (simp add: add.commute)
  qed simp
  moreover have "select k n (y + y div B) = select k n y + select k n (y div B)" using Suc.IH [OF f(3)] by (simp only: B_def)
  moreover have "(w + w div B) mod B = f0 + f1" unfolding sum using B by simp
  ultimately have "select k (Suc n) (w + w div B) = f0 + f1 + B * B * (select k n y + select k n (y div B))"
    unfolding select.simps p B_def [symmetric] d by (simp only:)
  moreover have "select k (Suc n) w + select k (Suc n) (w div B) = f0 + f1 + B\<^sup>2 * (select k n y + select k n (y div B))"
    using pair_sum(1) [OF k, of n w] pair_sum(3) [OF k, of w] by (simp only: f0_def f1_def y_def B_def)
  ultimately show ?case by (simp only: B_def power2_eq_square)
qed simp

text \<open>The product with a one in every byte has the sum of the bytes in the last one.\<close>

lemma fields_numeral: "fields k (numeral n) w = w mod 2 ^ k + fields k (pred_numeral n) (w div 2 ^ k)"
  by (simp add: numeral_eq_Suc)

lemma seven_bytes:
  fixes s0 s1 s2 s3 s4 s5 s6 :: nat
  assumes "s0 \<le> 255" "s1 \<le> 255" "s2 \<le> 255" "s3 \<le> 255" "s4 \<le> 255" "s5 \<le> 255" "s6 \<le> 255"
  shows "s0 + 0x100 * s1 + 0x10000 * s2 + 0x1000000 * s3 + 0x100000000 * s4 + 0x10000000000 * s5 + 0x1000000000000 * s6 < 0x100000000000000"
  using assms by linarith

lemma top_byte_sum:
  fixes x :: nat
  assumes "x < 2 ^ 64" "fields 8 8 x < 256"
  shows "(x * 0x0101010101010101) mod 2 ^ 64 div 2 ^ 56 = fields 8 8 x"
proof -
  define x1 x2 x3 x4 x5 x6 x7 where "x1 = x div 256" and "x2 = x1 div 256" and "x3 = x2 div 256" and "x4 = x3 div 256"
    and "x5 = x4 div 256" and "x6 = x5 div 256" and "x7 = x6 div 256"
  note xs = x1_def x2_def x3_def x4_def x5_def x6_def x7_def
  define f0 f1 f2 f3 f4 f5 f6 where "f0 = x mod 256" and "f1 = x1 mod 256" and "f2 = x2 mod 256" and "f3 = x3 mod 256"
    and "f4 = x4 mod 256" and "f5 = x5 mod 256" and "f6 = x6 mod 256"
  note fs = f0_def f1_def f2_def f3_def f4_def f5_def f6_def
  have "x7 < 256" using assms(1) by (simp add: xs div_mult2_eq [symmetric] div_less_iff_less_mult)
  then have s: "fields 8 8 x = f0 + f1 + f2 + f3 + f4 + f5 + f6 + x7" by (simp add: fields_numeral fs xs)
  have d: "x = f0 + 256 * x1" "x1 = f1 + 256 * x2" "x2 = f2 + 256 * x3" "x3 = f3 + 256 * x4" "x4 = f4 + 256 * x5" "x5 = f5 + 256 * x6" "x6 = f6 + 256 * x7"
    by (simp_all add: fs xs)
  define P where "P = f0 + 0x100 * (f0 + f1) + 0x10000 * (f0 + f1 + f2) + 0x1000000 * (f0 + f1 + f2 + f3)
    + 0x100000000 * (f0 + f1 + f2 + f3 + f4) + 0x10000000000 * (f0 + f1 + f2 + f3 + f4 + f5)
    + 0x1000000000000 * (f0 + f1 + f2 + f3 + f4 + f5 + f6)"
  define R where "R = f1 + f2 * 0x101 + f3 * 0x10101 + f4 * 0x1010101 + f5 * 0x101010101 + f6 * 0x10101010101 + x7 * 0x1010101010101"
  have e: "x * 0x0101010101010101 = P + 0x100000000000000 * fields 8 8 x + 0x10000000000000000 * R"
  proof -
    have "x = f0 + 256 * (f1 + 256 * (f2 + 256 * (f3 + 256 * (f4 + 256 * (f5 + 256 * (f6 + 256 * x7))))))"
      unfolding d(7) [symmetric] d(6) [symmetric] d(5) [symmetric] d(4) [symmetric] d(3) [symmetric] d(2) [symmetric] by (rule d(1))
    then show ?thesis unfolding s P_def R_def by (simp only:) (simp add: algebra_simps)
  qed
  have P: "P < 0x100000000000000" unfolding P_def by (rule seven_bytes) (use assms(2) s in linarith)+
  then have "P + 0x100000000000000 * fields 8 8 x < 0x10000000000000000" using assms(2) by linarith
  then have "(x * 0x0101010101010101) mod 0x10000000000000000 = P + 0x100000000000000 * fields 8 8 x" unfolding e by simp
  then show ?thesis using P by simp
qed

text \<open>The three steps and the product.\<close>

lemma alternate_numeral: "alternate k (numeral n) = mask k + 2 ^ (2 * k) * alternate k (pred_numeral n)"
  by (simp add: numeral_eq_Suc)

lemma masks:
  "unat (0x5555555555555555 :: CHUNK) = alternate 1 32" "unat (0x3333333333333333 :: CHUNK) = alternate 2 16"
  "unat (0x0F0F0F0F0F0F0F0F :: CHUNK) = alternate 4 8"
  by (simp_all add: alternate_numeral mask_eq_exp_minus_1)

lemma unat_masked: "unat (w AND v) = unat w AND unat v" for w v :: "'a::len word"
  by (simp add: unsigned_and_eq)

lemma unat_shifted: "unat (drop_bit k w) = unat w div 2 ^ k" for w :: "'a::len word"
proof -
  have "unat (drop_bit k w) = drop_bit k (unat w)" by (rule bit_eqI) (auto simp: bit_simps dest: bit_imp_le_length)
  then show ?thesis by (simp add: drop_bit_eq_div)
qed

lemma step_pairs:
  fixes w :: CHUNK
  shows "unat (w - (drop_bit 1 w AND 0x5555555555555555)) = select 1 32 (unat w) + select 1 32 (unat w div 2)"
proof -
  have "unat w < 2 ^ (2 * 1 * 32)" using unat_bound [of w] by simp
  from select_halves [OF _ this] have h: "unat w = select 1 32 (unat w) + 2 * select 1 32 (unat w div 2)" by simp
  have s: "unat (drop_bit 1 w AND 0x5555555555555555) = select 1 32 (unat w div 2)"
    unfolding unat_masked unat_shifted masks and_alternate by simp
  have "unat (w - (drop_bit 1 w AND 0x5555555555555555)) = unat w - select 1 32 (unat w div 2)"
    unfolding s [symmetric] by (rule unat_sub_small) (use h s in linarith)
  then show ?thesis using h by linarith
qed

lemma step_nibbles:
  fixes w :: CHUNK
  shows "unat ((w AND 0x3333333333333333) + (drop_bit 2 w AND 0x3333333333333333)) = select 2 16 (unat w) + select 2 16 (unat w div 4)"
proof -
  have "unat (w AND 0x3333333333333333) = select 2 16 (unat w)" "unat (drop_bit 2 w AND 0x3333333333333333) = select 2 16 (unat w div 4)"
    unfolding unat_masked unat_shifted masks and_alternate by simp_all
  then show ?thesis using select_below [of 2 16 "unat w"] by (simp add: unat_add_small)
qed

lemma step_bytes:
  fixes w :: CHUNK
  assumes "bounded 4 16 4 (unat w)" "unat w + unat w div 16 < 2 ^ 64"
  shows "unat ((w + drop_bit 4 w) AND 0x0F0F0F0F0F0F0F0F) = select 4 8 (unat w) + select 4 8 (unat w div 16)"
proof -
  have "unat (w + drop_bit 4 w) = unat w + unat w div 16" using assms(2) by (simp add: unat_add_small unat_shifted)
  then show ?thesis unfolding unat_masked masks and_alternate using select_shifted_sum [of 4 4 8 "unat w"] assms(1) by simp
qed

lemma chunk_popcount:
  "unat (RtlpNumberOfSetBitsInChunk c) = card {i. i < 64 \<and> bit c i}"
proof -
  define T1 T2 T3 where "T1 = c - (drop_bit 1 c AND 0x5555555555555555)"
    and "T2 = (T1 AND 0x3333333333333333) + (drop_bit 2 T1 AND 0x3333333333333333)"
    and "T3 = (T2 + drop_bit 4 T2) AND 0x0F0F0F0F0F0F0F0F"
  have u1: "unat T1 = select 1 32 (unat c) + select 1 32 (unat c div 2)" unfolding T1_def by (rule step_pairs)
  have u2: "unat T2 = select 2 16 (unat T1) + select 2 16 (unat T1 div 4)" unfolding T2_def by (rule step_nibbles)
  have b1: "bounded 2 32 2 (unat T1)" using bounded_pairs [of 1 32 1 "unat c"] bounded_bits [of 64 "unat c"] by (simp add: u1)
  have b2: "bounded 4 16 4 (unat T2)" using bounded_pairs [of 2 16 2 "unat T1"] b1 by (simp add: u2)
  have "unat T2 + unat T2 div 16 < 2 ^ 64"
  proof -
    have "unat (w AND 0x3333333333333333) \<le> 0x3333333333333333" for w :: CHUNK
      using word_and_le1 [of w "0x3333333333333333"] by (simp add: word_le_nat_alt)
    from add_mono [OF this this] have "unat T2 \<le> 2 * 0x3333333333333333"
      unfolding T2_def unat_word_ariths by (intro order_trans [OF mod_less_eq_dividend]) simp
    then show ?thesis using div_le_dividend [of "unat T2" 16] by simp
  qed
  then have u3: "unat T3 = select 4 8 (unat T2) + select 4 8 (unat T2 div 16)" unfolding T3_def by (rule step_bytes [OF b2])
  have f: "fields 8 8 (unat T3) = card {i. i < 64 \<and> bit c i}"
    using fields_pairs [of 4 8 "unat T2"] fields_pairs [of 2 16 "unat T1"] fields_pairs [of 1 32 "unat c"] fields_bits [of 64 "unat c"]
    by (simp add: u1 u2 u3 bit_unsigned_iff)
  have le: "card {i. i < 64 \<and> bit c i} \<le> 64" using card_mono [of "{..<64}" "{i. i < 64 \<and> bit c i}"] by auto
  have "unat (drop_bit 56 (T3 * 0x0101010101010101)) = fields 8 8 (unat T3)"
    unfolding unat_shifted using top_byte_sum [of "unat T3"] unat_bound [of T3] f le by (simp add: unat_word_ariths)
  then show ?thesis using f le by (simp add: RtlpNumberOfSetBitsInChunk_def Let_def T1_def T2_def T3_def unat_ucast_mod)
qed

end
