(* ===== verification/BitmapTotals.thy ===== *)
theory BitmapTotals
  imports BitmapCount
begin

text \<open>
  \<open>RtlNumberOfSetBits\<close> and \<open>RtlNumberOfClearBits\<close>: the totals of a bitmap, the bits they clear
  behind its end, and the bitmaps on which they run away.
\<close>

section \<open>Counting\<close>

definition count_bits :: "memory \<Rightarrow> nat \<Rightarrow> nat \<Rightarrow> nat" where
  "count_bits m b n = card {i. b \<le> i \<and> i < b + n \<and> mbit m i}"

lemma count_0 [simp]: "count_bits m b 0 = 0"
  by (simp add: count_bits_def)

lemma count_add: "count_bits m b (n + k) = count_bits m b n + count_bits m (b + n) k"
proof -
  have "{i. b \<le> i \<and> i < b + (n + k) \<and> mbit m i} = {i. b \<le> i \<and> i < b + n \<and> mbit m i} \<union> {i. b + n \<le> i \<and> i < b + n + k \<and> mbit m i}"
    by auto
  then show ?thesis unfolding count_bits_def by (simp add: card_Un_disjoint disjoint_iff)
qed

lemma count_word:
  assumes "\<And>j. j < n \<Longrightarrow> bit v j \<longleftrightarrow> mbit m (b + j)"
  shows "card {j. j < n \<and> bit v j} = count_bits m b n"
proof -
  have "{i. b \<le> i \<and> i < b + n \<and> mbit m i} = (\<lambda>j. b + j) ` {j. j < n \<and> bit v j}" (is "?l = ?r")
  proof
    show "?l \<subseteq> ?r"
    proof
      fix i assume i: "i \<in> ?l"
      then have "i = b + (i - b)" "i - b < n" by auto
      then show "i \<in> ?r" using i assms [of "i - b"] by (intro image_eqI [of _ _ "i - b"]) auto
    qed
  qed (use assms in auto)
  then show ?thesis by (simp add: count_bits_def card_image)
qed

lemma table_counts: "map unat RtlpBitsClearTotal = map (\<lambda>i. 8 - fields 1 8 i) [0..<256]"
  by (simp add: RtlpBitsClearTotal_def upt_conv_Cons fields_numeral)

lemma BitsSetTotal:
  obtains t where "RtlpBitsSetTotal b = Some t" "unat t = card {i. i < 8 \<and> bit b i}"
proof -
  define k where "k = unat (NOT b)"
  have k: "k < 256" using unat_bound [of "NOT b"] by (simp add: k_def)
  have len: "length RtlpBitsClearTotal = 256" using arg_cong [OF table_counts, of length] by simp
  have "unat (RtlpBitsClearTotal ! k) = map unat RtlpBitsClearTotal ! k" using k len by simp
  also have "\<dots> = 8 - fields 1 8 k" unfolding table_counts using k by simp
  also have "fields 1 8 k = card {i. i < 8 \<and> \<not> bit b i}" unfolding fields_bits k_def by (simp add: bit_unsigned_iff bit_not_iff conj_commute cong: conj_cong)
  also have "8 - card {i. i < 8 \<and> \<not> bit b i} = card {i. i < 8 \<and> bit b i}"
  proof -
    have "{..<8} = {i. i < 8 \<and> \<not> bit b i} \<union> {i. i < 8 \<and> bit b i}" by auto
    from arg_cong [OF this, of card] show ?thesis by (simp add: card_Un_disjoint disjoint_iff)
  qed
  finally show thesis using that k len by (simp add: RtlpBitsSetTotal_def entry_def k_def)
qed

lemma CountBytes_counts:
  assumes "\<forall>i<8 * n. mapped m (8 * a + i)"
  shows "CountBytes m a n t = Some (t + word_of_nat (count_bits m (8 * a) (8 * n)))"
  using assms
proof (induction n arbitrary: a t)
  case (Suc n)
  obtain v where v: "rd8 m a = Some v" using Suc.prems [rule_format, of 0] rd8_mapped [of m a] by auto
  obtain s where s: "RtlpBitsSetTotal v = Some s" "unat s = card {i. i < 8 \<and> bit v i}" by (rule BitsSetTotal)
  have "card {i. i < 8 \<and> bit v i} = count_bits m (8 * a) 8" using rd8_bits [OF v] by (intro count_word) simp
  then have s': "s = word_of_nat (count_bits m (8 * a) 8)" using s(2) by (metis of_nat_of_unat)
  have "\<forall>i<8 * n. mapped m (8 * (a + 1) + i)"
  proof (intro allI impI)
    fix i assume "i < 8 * n"
    then show "mapped m (8 * (a + 1) + i)" using Suc.prems [rule_format, of "8 + i"] by (simp add: add.assoc add.left_commute)
  qed
  from Suc.IH [OF this, of "t + s"]
  have "CountBytes m (a + 1) n (t + s) = Some (t + s + word_of_nat (count_bits m (8 * a + 8) (8 * n)))" by (simp add: add.commute)
  moreover have "count_bits m (8 * a) (8 * Suc n) = count_bits m (8 * a) 8 + count_bits m (8 * a + 8) (8 * n)" using count_add [of m "8 * a" 8 "8 * n"] by simp
  ultimately show ?case using v s(1) s' by simp
qed simp

lemma CountChunks_counts:
  assumes "a mod 8 = 0" "unat B = 8 * q" "\<forall>i<64 * q. mapped m (8 * a + i)"
  shows "CountChunks m a B t = Some (a + 8 * q, t + word_of_nat (count_bits m (8 * a) (64 * q)))"
  using assms
proof (induction q arbitrary: a B t)
  case 0
  then have "B = 0" by (simp add: unat_eq_zero)
  then show ?case by (subst CountChunks.simps) simp
next
  case (Suc q)
  have B: "B > 0" "unat (B - 8) = 8 * q" using Suc.prems(2) unat_sub_small [of 8 B] by (simp_all add: word_less_nat_alt)
  obtain c where c: "m (a div 8) = Some c" using Suc.prems(3) [rule_format, of 0] Suc.prems(1) by (auto simp: mapped_def)
  have "card {i. i < 64 \<and> bit c i} = count_bits m (8 * a) 64"
  proof (rule count_word)
    fix j :: nat assume "j < 64"
    then show "bit c j \<longleftrightarrow> mbit m (8 * a + j)" using granule_of_bit [of j a] Suc.prems(1) c by (simp add: mbit_iff)
  qed
  then have n: "RtlpNumberOfSetBitsInChunk c = word_of_nat (count_bits m (8 * a) 64)" using chunk_popcount [of c] by (metis of_nat_of_unat)
  have m8: "\<forall>i<64 * q. mapped m (8 * (a + 8) + i)"
  proof (intro allI impI)
    fix i assume "i < 64 * q"
    then show "mapped m (8 * (a + 8) + i)" using Suc.prems(3) [rule_format, of "64 + i"] by (simp add: add.assoc add.left_commute)
  qed
  have a8: "(a + 8) mod 8 = 0" using Suc.prems(1) by simp
  have "CountChunks m (a + 8) (B - 8) (t + RtlpNumberOfSetBitsInChunk c)
      = Some (a + 8 + 8 * q, t + RtlpNumberOfSetBitsInChunk c + word_of_nat (count_bits m (8 * (a + 8)) (64 * q)))"
    by (rule Suc.IH [OF a8 B(2) m8])
  moreover have "count_bits m (8 * a) (64 * Suc q) = count_bits m (8 * a) 64 + count_bits m (8 * (a + 8)) (64 * q)"
    using count_add [of m "8 * a" 64 "64 * q"] by (simp add: distrib_left)
  ultimately show ?case using B(1) c n by (subst CountChunks.simps) (simp add: add.assoc)
qed

section \<open>The totals\<close>

lemma unat_and_7: "unat (w AND 7) = unat w mod 8" for w :: "64 word"
proof -
  have "unat (7 :: 64 word) = mask 3" by (simp add: mask_eq_exp_minus_1)
  then show ?thesis by (simp only: unat_masked take_bit_eq_mask [symmetric] take_bit_eq_mod) simp
qed

lemma bytes_to_quad:
  fixes w :: "64 word"
  assumes "unat w mod 4 = 0"
  shows "unat (- w AND 7) = (if unat w mod 8 = 0 then 0 else 4)" "(unat w + unat (- w AND 7)) mod 8 = 0"
proof -
  obtain k where k: "unat w = 4 * k" using assms by (auto simp: mod_eq_0_iff_dvd)
  have "unat (- w) mod 8 = (if even k then 0 else 4)"
  proof (cases "w = 0")
    case False
    then have u: "unat (- w) = 2 ^ 64 - 4 * k" using unat_uminus [of w] k by simp
    have small: "4 * k < 18446744073709551616" using unat_bound [of w] k by simp
    have "\<exists>j. 2 ^ 64 - 4 * k = 8 * j + (if even k then 0 else 4)"
    proof (cases "even k")
      case True
      then obtain b where "k = 2 * b" by blast
      then show ?thesis using small by (intro exI [of _ "2305843009213693952 - b"]) simp
    next
      case False
      then obtain b where "k = 2 * b + 1" by (metis oddE)
      then show ?thesis using small by (intro exI [of _ "2305843009213693951 - b"]) simp
    qed
    then show ?thesis unfolding u by auto
  qed (use k in simp)
  moreover have "unat w mod 8 = (if even k then 0 else 4)" unfolding k by (cases "even k") (auto elim!: evenE oddE)
  ultimately show "unat (- w AND 7) = (if unat w mod 8 = 0 then 0 else 4)" "(unat w + unat (- w AND 7)) mod 8 = 0"
    using mod_add_left_eq [of "unat w" 8 "unat (- w AND 7)"] unfolding unat_and_7 by (simp_all split: if_splits)
qed

text \<open>The bytes of a bitmap.\<close>

definition bm_bytes :: "RTL_BITMAP \<Rightarrow> nat" where
  "bm_bytes bm = (bm_size bm + 7) div 8"

lemma bm_bytes:
  "bm_size bm mod 8 = 0 \<Longrightarrow> 8 * bm_bytes bm = bm_size bm"
  "bm_size bm mod 8 \<noteq> 0 \<Longrightarrow> 8 * (bm_bytes bm - 1) + bm_size bm mod 8 = bm_size bm \<and> 0 < bm_bytes bm"
proof -
  define q r where "q = bm_size bm div 8" and "r = bm_size bm mod 8"
  have s: "bm_size bm = 8 * q + r" "r < 8" by (simp_all add: q_def r_def)
  show "8 * bm_bytes bm = bm_size bm" if "bm_size bm mod 8 = 0"
  proof -
    have "r = 0" unfolding r_def by (rule that)
    then have "bm_size bm = 8 * q" using s(1) by simp
    then show ?thesis unfolding bm_bytes_def by simp
  qed
  show "8 * (bm_bytes bm - 1) + bm_size bm mod 8 = bm_size bm \<and> 0 < bm_bytes bm" if "bm_size bm mod 8 \<noteq> 0"
  proof -
    have "0 < r" using that unfolding r_def by simp
    then have "(8 * q + r + 7) div 8 = q + 1" using s(2) by (intro div_nat_eqI) simp_all
    then have "bm_bytes bm = q + 1" unfolding bm_bytes_def s(1) .
    then show ?thesis unfolding r_def [symmetric] using s(1) by simp
  qed
qed

lemma unat_bm_bytes: "bm_size bm + 7 < 2 ^ 32 \<Longrightarrow> unat ((SizeOfBitMap bm + 7) div 8) = bm_bytes bm"
  by (simp add: unat_div_word unat_add_small bm_bytes_def bm_size_def)

lemma bytes_mapped:
  assumes "bm_ok m bm" "i < 8 * bm_bytes bm"
  shows "mapped m (8 * buf bm + i)"
proof (rule longs_mapped [OF assms(1)])
  have "bm_size bm \<le> 32 * bm_longs bm" unfolding bm_longs_def by linarith
  then have "bm_bytes bm \<le> (32 * bm_longs bm + 7) div 8" unfolding bm_bytes_def by (intro div_le_mono) simp
  also have "\<dots> = 4 * bm_longs bm" by simp
  finally show "i < 32 * bm_longs bm" using assms(2) by simp
qed

text \<open>The bits behind the end, in the last byte, are cleared.\<close>

lemma clear_tail:
  assumes ok: "bm_ok m bm" and sz: "bm_size bm + 7 < 2 ^ 32"
  shows "\<exists>m'. (if SizeOfBitMap bm mod 8 \<noteq> 0
      then do { f \<leftarrow> entry FillMask (unat (SizeOfBitMap bm mod 8));
                upd8 m (buf bm + unat ((SizeOfBitMap bm + 7) div 8 - 1)) (\<lambda>v. v AND f) }
      else Some m) = Some m' \<and> bits_set_to m (8 * buf bm + bm_size bm) (8 * bm_bytes bm - bm_size bm) (\<lambda>_. False) m'"
proof -
  define s where "s = bm_size bm"
  define r where "r = s mod 8"
  have r: "unat (SizeOfBitMap bm mod 8) = r" "r < 8" by (simp_all add: r_def s_def bm_size_def unat_mod_word)
  show ?thesis
  proof (cases "r = 0")
    case True
    then have "8 * bm_bytes bm = s" using bm_bytes(1) by (simp add: r_def s_def)
    moreover have "SizeOfBitMap bm mod 8 = 0" using True r(1) by (simp add: unat_eq_zero)
    ultimately show ?thesis using bits_set_to_refl by (simp add: s_def)
  next
    case False
    have q: "8 * (bm_bytes bm - 1) + r = s" "0 < bm_bytes bm" using bm_bytes(2) [of bm] False by (simp_all add: r_def s_def)
    have u: "unat ((SizeOfBitMap bm + 7) div 8 - 1) = bm_bytes bm - 1"
      using unat_sub_small [of 1 "(SizeOfBitMap bm + 7) div 8"] unat_bm_bytes [OF sz] q(2) by simp
    have "mapped m (8 * (buf bm + (bm_bytes bm - 1)))"
      unfolding distrib_left using q(2) by (intro bytes_mapped [OF ok]) simp
    then have "\<exists>m'. upd8 m (buf bm + (bm_bytes bm - 1)) (\<lambda>v. v AND mask r) = Some m'
        \<and> bits_set_to m (8 * (buf bm + (bm_bytes bm - 1)) + r) (8 - r) (\<lambda>_. False) m'"
      using r(2) by (intro upd8_bits) (auto simp: bit_simps split: if_splits)
    moreover have "8 * (buf bm + (bm_bytes bm - 1)) + r = 8 * buf bm + s" "8 - r = 8 * bm_bytes bm - s" using q r(2) by (simp_all add: distrib_left)
    moreover have "SizeOfBitMap bm mod 8 \<noteq> 0" using False r(1) by (metis unat_0)
    ultimately show ?thesis using r FillMask_mask [of r] by (simp add: u s_def)
  qed
qed


lemma count_abs_set: "count_bits m (8 * buf bm) (bm_size bm) = card (abs_set m bm)"
proof -
  have "{i. 8 * buf bm \<le> i \<and> i < 8 * buf bm + bm_size bm \<and> mbit m i} = (\<lambda>i. 8 * buf bm + i) ` abs_set m bm" (is "?l = ?r")
  proof
    show "?l \<subseteq> ?r"
    proof
      fix i assume "i \<in> ?l"
      then show "i \<in> ?r" by (intro image_eqI [of _ _ "i - 8 * buf bm"]) (auto simp: abs_set_def bm_bit_def)
    qed
  qed (auto simp: abs_set_def bm_bit_def)
  then show ?thesis by (simp add: count_bits_def card_image)
qed

lemma count_cleared:
  assumes "bits_set_to m (8 * buf bm + bm_size bm) k (\<lambda>_. False) m'"
  shows "count_bits m' (8 * buf bm) (bm_size bm + k) = card (abs_set m bm)"
proof -
  have e: "{i. 8 * buf bm + bm_size bm \<le> i \<and> i < 8 * buf bm + bm_size bm + k \<and> mbit m' i} = {}" using assms by (auto simp: bits_set_to_def)
  then have "count_bits m' (8 * buf bm + bm_size bm) k = 0" unfolding count_bits_def e by simp
  moreover have "abs_set m' bm = abs_set m bm" using assms by (auto simp: abs_set_def bm_bit_def bits_set_to_def)
  ultimately show ?thesis using count_add [of m' "8 * buf bm" "bm_size bm" k] count_abs_set [of m' bm] by simp
qed

lemma NumberOfSetBits_counts:
  assumes ok: "bm_ok m bm" and sz: "bm_size bm + 7 < 2 ^ 32" and head: "buf bm mod 8 = 0 \<or> 24 < bm_size bm"
  shows "\<exists>m'. RtlNumberOfSetBits m bm = Some (word_of_nat (card (abs_set m bm)), m')
    \<and> bits_set_to m (8 * buf bm + bm_size bm) (8 * bm_bytes bm - bm_size bm) (\<lambda>_. False) m'"
proof -
  define nb h where "nb = bm_bytes bm" and "h = unat (- Buffer bm AND 7)"
  define q t where "q = (nb - h) div 8" and "t = (nb - h) mod 8"
  have al: "buf bm mod 4 = 0" using ok by (simp add: bm_ok_def)
  note bq = bytes_to_quad [OF al [unfolded buf_def], folded h_def buf_def]
  have hn: "h \<le> nb"
  proof (cases "buf bm mod 8 = 0")
    case False
    then have "24 < bm_size bm" using head by simp
    then have "4 \<le> nb" by (simp add: nb_def bm_bytes_def)
    then show ?thesis using bq(1) by simp
  qed (use bq(1) in simp)
  have n: "nb = h + (8 * q + t)" using hn by (simp add: q_def t_def)
  obtain m' where m': "(if SizeOfBitMap bm mod 8 \<noteq> 0
      then do { f \<leftarrow> entry FillMask (unat (SizeOfBitMap bm mod 8));
                upd8 m (buf bm + unat ((SizeOfBitMap bm + 7) div 8 - 1)) (\<lambda>v. v AND f) }
      else Some m) = Some m'" "bits_set_to m (8 * buf bm + bm_size bm) (8 * nb - bm_size bm) (\<lambda>_. False) m'"
    using clear_tail [OF ok sz] unfolding nb_def by blast
  have mp: "mapped m' (8 * buf bm + i)" if "i < 8 * nb" for i using bytes_mapped [OF ok] that by (simp add: nb_def bits_set_to_mapped [OF m'(2)])
  define SB H where "SB = (SizeOfBitMap bm + 7) div 8" and "H = (ucast (- Buffer bm AND 7) :: ULONG)"
  have uS: "unat SB = nb" using unat_bm_bytes [OF sz] by (simp add: SB_def nb_def)
  have uH: "unat H = h" using bq(1) by (simp add: H_def h_def unat_ucast_mod)
  have uT: "unat ((SB - H) mod 8) = t" using hn by (simp add: unat_mod_word unat_sub_small uS uH t_def)
  have uM: "unat (SB - (H + (SB - H) mod 8)) = 8 * q"
  proof -
    have "unat (H + (SB - H) mod 8) = h + t" using uT uH n uS unat_bound [of SB] by (subst unat_add_small) simp_all
    then show ?thesis using unat_sub_small [of "H + (SB - H) mod 8" SB] uS n by simp
  qed
  have c1: "CountBytes m' (buf bm) h 0 = Some (word_of_nat (count_bits m' (8 * buf bm) (8 * h)))"
    using CountBytes_counts [of h m' "buf bm" 0] mp n by simp
  have c2: "CountChunks m' (buf bm + h) (SB - (H + (SB - H) mod 8)) s = Some (buf bm + h + 8 * q, s + word_of_nat (count_bits m' (8 * (buf bm + h)) (64 * q)))" for s
    using mp n by (intro CountChunks_counts [OF bq(2) uM]) (simp add: distrib_left add.assoc)
  have c3: "CountBytes m' (buf bm + h + 8 * q) t s = Some (s + word_of_nat (count_bits m' (8 * (buf bm + h + 8 * q)) (8 * t)))" for s
    using mp n by (intro CountBytes_counts) (simp add: distrib_left add.assoc)
  have total: "count_bits m' (8 * buf bm) (8 * nb) = card (abs_set m bm)"
  proof -
    have "bm_size bm \<le> 8 * nb" unfolding nb_def bm_bytes_def by linarith
    then show ?thesis using count_cleared [OF m'(2)] by simp
  qed
  have "count_bits m' (8 * buf bm) (8 * nb) = count_bits m' (8 * buf bm) (8 * h) + count_bits m' (8 * (buf bm + h)) (64 * q)
      + count_bits m' (8 * (buf bm + h + 8 * q)) (8 * t)"
    using count_add [of m' "8 * buf bm" "8 * h" "64 * q + 8 * t"] count_add [of m' "8 * (buf bm + h)" "64 * q" "8 * t"]
    by (simp add: n distrib_left)
  then have "RtlNumberOfSetBits m bm = Some (word_of_nat (card (abs_set m bm)), m')"
    unfolding total RtlNumberOfSetBits_def Let_def SB_def [symmetric] H_def [symmetric] uH uT
    using m'(1) [folded SB_def] by (simp add: c1 c2 c3)
  then show ?thesis using m'(2) by (auto simp: nb_def)
qed

text \<open>
  A buffer that is not quadword aligned has four bytes before its first chunk.  For a bitmap of less
  bytes the number of chunks wraps around: the loop reads the 4 GB behind the buffer.
\<close>

lemma CountChunks_fault:
  assumes "unat B = 8 * q" "j < q" "m (a div 8 + j) = None"
  shows "CountChunks m a B t = None"
  using assms
proof (induction q arbitrary: a B t j)
  case (Suc q)
  have B: "B > 0" "unat (B - 8) = 8 * q" using Suc.prems(1) unat_sub_small [of 8 B] by (simp_all add: word_less_nat_alt)
  show ?case
  proof (cases j)
    case 0
    then show ?thesis using B(1) Suc.prems(3) by (subst CountChunks.simps) simp
  next
    case (Suc i)
    have "(a + 8) div 8 = a div 8 + 1" by simp
    then have "CountChunks m (a + 8) (B - 8) t' = None" for t' using Suc Suc.prems(2,3) by (intro Suc.IH [OF B(2), of i]) simp_all
    then show ?thesis using B(1) by (subst CountChunks.simps) (simp split: option.splits Option.bind_splits)
  qed
qed simp

lemma upd8_dom: "upd8 m a f = Some m' \<Longrightarrow> dom m' = dom m"
  by (auto simp: upd8_def wr8_def wr_masked_def split: option.splits Option.bind_splits if_splits)

lemma NumberOfSetBits_runs_away:
  assumes "buf bm mod 8 = 4" "bm_size bm \<le> 24" and far: "j < 2 ^ 29 - 1" "m ((buf bm + 4) div 8 + j) = None"
  shows "RtlNumberOfSetBits m bm = None"
proof -
  define SB H where "SB = (SizeOfBitMap bm + 7) div 8" and "H = (ucast (- Buffer bm AND 7) :: ULONG)"
  have "unat (Buffer bm) mod 4 = 0" using assms(1) mod_mod_cancel [of 4 8 "buf bm"] by (simp add: buf_def)
  then have H: "H = 4" using bytes_to_quad(1) [of "Buffer bm"] assms(1) by (intro word_eqI_unat) (simp add: H_def buf_def unat_ucast_mod)
  have "unat SB = bm_bytes bm" using unat_bm_bytes [of bm] assms(2) by (simp add: SB_def)
  moreover have "bm_bytes bm \<le> 3" using assms(2) by (simp add: bm_bytes_def)
  ultimately consider "unat SB = 0" | "unat SB = 1" | "unat SB = 2" | "unat SB = 3" by linarith
  then consider "SB = 0" | "SB = 1" | "SB = 2" | "SB = 3" by cases (simp_all add: word_unat_eq_iff)
  then have M: "unat (SB - (H + (SB - H) mod 8)) = 8 * (2 ^ 29 - 1)" unfolding H by cases simp_all
  have fault: "CountChunks m' (buf bm + unat H) (SB - (H + (SB - H) mod 8)) t = None" if "dom m' = dom m" for m' t
    using that far by (intro CountChunks_fault [OF M far(1)]) (auto simp: H)
  show ?thesis unfolding RtlNumberOfSetBits_def Let_def SB_def [symmetric] H_def [symmetric]
    using fault by (auto split: Option.bind_splits dest: upd8_dom)
qed

end
