(* ===== verification/BitmapRuns.thy ===== *)
theory BitmapRuns
  imports BitmapSets
begin

text \<open>
  \<open>RtlAreBitsClear\<close> and \<open>RtlAreBitsSet\<close>, and the scans for the next and the last run of clear bits.
\<close>

section \<open>All bits of a range\<close>

text \<open>The bits \<open>lo\<close> to \<open>hi - 1\<close> of memory all have the value \<open>x\<close>.\<close>

definition all_bits :: "memory \<Rightarrow> bool \<Rightarrow> nat \<Rightarrow> nat \<Rightarrow> bool" where
  "all_bits m x lo hi = list_all (\<lambda>i. mbit m i = x) [lo..<hi]"

lemma all_bits_iff: "all_bits m x lo hi \<longleftrightarrow> (\<forall>i. lo \<le> i \<longrightarrow> i < hi \<longrightarrow> mbit m i = x)"
  by (auto simp: all_bits_def list_all_iff)

lemma all_bits_split: "lo \<le> mid \<Longrightarrow> mid \<le> hi \<Longrightarrow> all_bits m x lo hi \<longleftrightarrow> all_bits m x lo mid \<and> all_bits m x mid hi"
  unfolding all_bits_iff by (meson le_less_trans less_le_trans not_le order.trans)

lemma all_bits_split3:
  "lo \<le> x1 \<Longrightarrow> x1 \<le> x2 \<Longrightarrow> x2 \<le> hi \<Longrightarrow>
    all_bits m x lo hi \<longleftrightarrow> all_bits m x lo x1 \<and> all_bits m x x1 x2 \<and> all_bits m x x2 hi"
  using all_bits_split [of lo x1 hi m x] all_bits_split [of x1 x2 hi m x] by auto

lemma all_bits_shift:
  assumes "\<And>j. p \<le> j \<Longrightarrow> j < q \<Longrightarrow> B j \<longleftrightarrow> mbit m (b + j) = x"
  shows "all_bits m x (b + p) (b + q) \<longleftrightarrow> (\<forall>j. p \<le> j \<longrightarrow> j < q \<longrightarrow> B j)"
proof
  assume a: "all_bits m x (b + p) (b + q)"
  show "\<forall>j. p \<le> j \<longrightarrow> j < q \<longrightarrow> B j" using a assms by (auto simp: all_bits_iff)
next
  assume a: "\<forall>j. p \<le> j \<longrightarrow> j < q \<longrightarrow> B j"
  show "all_bits m x (b + p) (b + q)" unfolding all_bits_iff
  proof (intro allI impI)
    fix i assume "b + p \<le> i" "i < b + q"
    then have "p \<le> i - b" "i - b < q" "b + (i - b) = i" by auto
    then show "mbit m i = x" using a assms [of "i - b"] by simp
  qed
qed

text \<open>The test of a byte under a mask, and of a whole byte.\<close>

definition byte_neg :: "bool \<Rightarrow> UCHAR \<Rightarrow> UCHAR" where
  "byte_neg x b = (if x then NOT b else b)"

lemma masked_byte:
  assumes b: "rd8 m a = Some b" and q: "q \<le> 8"
  shows "NOT (mask p) AND mask q AND byte_neg x b = 0 \<longleftrightarrow> all_bits m x (8 * a + p) (8 * a + q)"
proof -
  have "NOT (mask p) AND mask q AND byte_neg x b = 0 \<longleftrightarrow> (\<forall>j. p \<le> j \<longrightarrow> j < q \<longrightarrow> (bit b j = x))"
    using q by (auto simp: bit_eq_iff bit_simps byte_neg_def not_le) (meson less_le_trans not_le)+
  also have "\<dots> \<longleftrightarrow> all_bits m x (8 * a + p) (8 * a + q)" using rd8_bits [OF b] q by (intro all_bits_shift [symmetric]) auto
  finally show ?thesis .
qed

lemma whole_byte:
  assumes b: "rd8 m a = Some b"
  shows "b = (if x then 0xFF else 0) \<longleftrightarrow> all_bits m x (8 * a) (8 * a + 8)"
proof -
  have "b = (if x then 0xFF else 0) \<longleftrightarrow> NOT (mask 0) AND mask 8 AND byte_neg x b = 0"
  proof -
    have ff: "(0xFF :: UCHAR) = - 1" by simp
    have "NOT b = 0 \<longleftrightarrow> b = - 1" by (metis bit.compl_one bit.double_compl)
    moreover have mk: "(mask 8 :: UCHAR) = - 1" by (simp add: mask_eq_exp_minus_1)
    ultimately show ?thesis unfolding ff mk by (simp add: byte_neg_def)
  qed
  then show ?thesis using masked_byte [OF b, of 8 0 x] by simp
qed

lemma WholeBytes_all:
  assumes "unat i \<le> unat E" "\<forall>k<8 * (unat E - unat i). mapped m (8 * a + k)"
  shows "WholeBytes m (if x then 0xFF else 0) a i E
    = Some (if all_bits m x (8 * a) (8 * (a + (unat E - unat i))) then Some (a + (unat E - unat i)) else None)"
  using assms
proof (induction "unat E - unat i" arbitrary: a i)
  case 0
  then have "\<not> i < E" by (simp add: word_less_nat_alt)
  then show ?case using 0 by (subst WholeBytes.simps) (simp add: all_bits_def)
next
  case (Suc n)
  then have lt: "i < E" "unat (i + 1) = unat i + 1" using unat_bound [of E] by (simp_all add: word_less_nat_alt unat_add_small)
  obtain b where b: "rd8 m a = Some b" using Suc.prems(2) [rule_format, of 0] Suc.hyps(2) rd8_mapped [of m a] by auto
  have n: "n = unat E - unat (i + 1)" "unat (i + 1) \<le> unat E" using Suc.hyps(2) lt(2) by simp_all
  have "\<forall>k<8 * (unat E - unat (i + 1)). mapped m (8 * (a + 1) + k)"
  proof (intro allI impI)
    fix k assume "k < 8 * (unat E - unat (i + 1))"
    then show "mapped m (8 * (a + 1) + k)" using Suc.prems(2) [rule_format, of "8 + k"] lt(2) n by (simp add: add.assoc add.left_commute)
  qed
  note IH = Suc.hyps(1) [OF n this]
  have e: "a + 1 + (unat E - unat (i + 1)) = a + (unat E - unat i)" using lt Suc.hyps(2) by simp
  have "all_bits m x (8 * a) (8 * (a + (unat E - unat i))) \<longleftrightarrow> all_bits m x (8 * a) (8 * a + 8) \<and> all_bits m x (8 * (a + 1)) (8 * (a + (unat E - unat i)))"
    using all_bits_split [of "8 * a" "8 * a + 8" "8 * (a + (unat E - unat i))" m x] Suc.hyps(2) by (simp add: distrib_left add.commute)
  then show ?case using lt(1) b whole_byte [OF b, of x] IH [unfolded e] by (subst WholeBytes.simps) (simp split: if_splits)
qed

text \<open>The test of the bits \<open>s\<close> to \<open>e\<close> behind byte \<open>b\<close>, byte by byte.\<close>

lemma bytes_all:
  assumes se: "s \<le> e" and mp: "\<And>k. k \<le> e \<Longrightarrow> mapped m (8 * b + k)"
    and i: "unat i = s div 8 + 1" and E: "unat E = e div 8"
  shows "do {
      v \<leftarrow> rd8 m (b + s div 8);
      if s div 8 = e div 8 then Some (NOT (mask (s mod 8)) AND mask (e mod 8 + 1) AND byte_neg x v = 0)
      else if NOT (mask (s mod 8)) AND byte_neg x v \<noteq> 0 then Some False
      else do {
        w \<leftarrow> WholeBytes m (if x then 0xFF else 0) (b + s div 8 + 1) i E;
        (case w of None \<Rightarrow> Some False | Some a' \<Rightarrow> do { v' \<leftarrow> rd8 m a'; Some (mask (e mod 8 + 1) AND byte_neg x v' = 0) }) } }
    = Some (all_bits m x (8 * b + s) (8 * b + (e + 1)))"
proof -
  define p q where "p = s div 8" and "q = e div 8"
  have pq: "p \<le> q" using se by (simp add: p_def q_def div_le_mono)
  have byte: "\<exists>v. rd8 m (b + k) = Some v" if "k \<le> q" for k
  proof -
    have "8 * k \<le> e" using that unfolding q_def by linarith
    then show ?thesis using mp [of "8 * k"] rd8_mapped [of m "b + k"] by (auto simp: distrib_left)
  qed
  obtain v v' where v: "rd8 m (b + p) = Some v" and v': "rd8 m (b + q) = Some v'" using byte pq by blast
  have lo: "8 * b + s = 8 * (b + p) + s mod 8" and hi: "8 * b + (e + 1) = 8 * (b + q) + (e mod 8 + 1)" by (simp_all add: p_def q_def distrib_left)
  have e8: "e mod 8 + 1 \<le> 8" by (simp add: Suc_le_eq)
  show ?thesis
  proof (cases "p = q")
    case True
    then show ?thesis unfolding lo hi using v masked_byte [OF v e8, of "s mod 8" x] by (simp add: p_def q_def)
  next
    case False
    have first: "NOT (mask (s mod 8)) AND byte_neg x v = 0 \<longleftrightarrow> all_bits m x (8 * (b + p) + s mod 8) (8 * (b + p + 1))"
    proof -
      have "(mask 8 :: UCHAR) = - 1" by (simp add: mask_eq_exp_minus_1)
      then show ?thesis using masked_byte [OF v order_refl, of "s mod 8" x] by (simp add: add.commute)
    qed
    have ending: "mask (e mod 8 + 1) AND byte_neg x v' = 0 \<longleftrightarrow> all_bits m x (8 * (b + q)) (8 * (b + q) + (e mod 8 + 1))"
      using masked_byte [OF v' e8, of 0 x] by simp
    have "\<forall>k<8 * (unat E - unat i). mapped m (8 * (b + p + 1) + k)"
    proof (intro allI impI)
      fix k assume "k < 8 * (unat E - unat i)"
      then have "k < 8 * (q - (p + 1))" using i E by (simp add: p_def q_def)
      moreover have "8 * q \<le> e" by (simp add: q_def)
      ultimately have "8 * (p + 1) + k \<le> e" by (simp add: diff_mult_distrib2)
      from mp [OF this] show "mapped m (8 * (b + p + 1) + k)" by (simp add: distrib_left ac_simps)
    qed
    from WholeBytes_all [OF _ this, of x] have whole: "WholeBytes m (if x then 0xFF else 0) (b + p + 1) i E
        = Some (if all_bits m x (8 * (b + p + 1)) (8 * (b + q)) then Some (b + q) else None)"
      using i E False pq by (simp add: p_def q_def)
    have "all_bits m x (8 * (b + p) + s mod 8) (8 * (b + q) + (e mod 8 + 1)) \<longleftrightarrow> all_bits m x (8 * (b + p) + s mod 8) (8 * (b + p + 1))
        \<and> all_bits m x (8 * (b + p + 1)) (8 * (b + q)) \<and> all_bits m x (8 * (b + q)) (8 * (b + q) + (e mod 8 + 1))"
    proof -
      have "s mod 8 \<le> 8" by (simp add: less_imp_le)
      then show ?thesis using False pq by (intro all_bits_split3) simp_all
    qed
    then show ?thesis unfolding lo hi using v v' first ending whole False by (simp add: p_def q_def)
  qed
qed

lemma AreBits_all:
  fixes S N :: ULONG
  assumes ok: "bm_ok m bm" and nw: "unat S + unat N < 2 ^ 32"
  shows "AreBits x m bm S N
    = Some (0 < unat N \<and> unat S + unat N \<le> bm_size bm \<and> all_bits m x (8 * buf bm + unat S) (8 * buf bm + (unat S + unat N)))"
proof (cases "S + N > SizeOfBitMap bm \<or> N = 0")
  case True
  then show ?thesis using nw by (auto simp: AreBits_def word_less_nat_alt unat_add_small bm_size_def)
next
  case False
  define s e where "s = unat S" and "e = unat S + unat N - 1"
  define Ew where "Ew = S + N - 1"
  have n: "0 < unat N" "unat S + unat N \<le> bm_size bm" using False nw by (auto simp: word_less_nat_alt unat_add_small bm_size_def unat_gt_0)
  have ue: "unat Ew = e" using nw n unat_sub_small [of 1 "S + N"] by (simp add: unat_add_small e_def Ew_def)
  have ub: "unat (S div 8) = s div 8" "unat (Ew div 8) = e div 8" "unat (S mod 8) = s mod 8" "unat (Ew mod 8) = e mod 8"
    by (simp_all add: unat_div_word unat_mod_word s_def ue)
  have ub1: "unat (Ew mod 8 + 1) = e mod 8 + 1" "unat (S div 8 + 1) = s div 8 + 1"
    using ub unat_bound [of S] by (simp_all add: unat_add_small s_def)
  have same: "S div 8 = Ew div 8 \<longleftrightarrow> s div 8 = e div 8" by (simp add: word_unat_eq_iff ub)
  have z: "entry ZeroMask (s mod 8) = Some (NOT (mask (s mod 8)))" by (rule ZeroMask_mask) (simp add: less_imp_le)
  have f: "entry FillMask (e mod 8 + 1) = Some (mask (e mod 8 + 1))" by (rule FillMask_mask) (simp add: Suc_le_eq)
  have mp: "mapped m (8 * buf bm + k)" if "k \<le> e" for k using bm_mapped [OF ok] that n by (simp add: e_def)
  have "s \<le> e" using n by (simp add: s_def e_def)
  note body = bytes_all [OF this mp ub1(2) ub(2), of x, unfolded byte_neg_def]
  have "AreBits x m bm S N = Some (all_bits m x (8 * buf bm + s) (8 * buf bm + (e + 1)))"
    unfolding AreBits_def Let_def if_not_P [OF False] Ew_def [symmetric] ub(1,3) ub1(1) z f same bind.simps byte_neg_def [symmetric] by (rule body [folded byte_neg_def])
  then show ?thesis using n by (simp add: s_def e_def)
qed

end
