(* ===== verification/BitmapScan.thy ===== *)
theory BitmapScan
  imports BitmapRuns
begin

text \<open>
  The scans of \<open>RtlFindNextForwardRunClear\<close> and \<open>RtlFindLastBackwardRunClear\<close> over longwords and
  single bits, and what they find.
\<close>

section \<open>Upwards\<close>

text \<open>The first bit from \<open>b\<close> on that is not \<open>x\<close>, or the end of the map.\<close>

definition next_bit :: "(nat \<Rightarrow> bool) \<Rightarrow> bool \<Rightarrow> nat \<Rightarrow> nat \<Rightarrow> nat" where
  "next_bit P x sz b = (case find (\<lambda>i. P i \<noteq> x) [b..<sz] of Some i \<Rightarrow> i | None \<Rightarrow> sz)"

lemma next_bit_end: "next_bit P x sz sz = sz"
  by (simp add: next_bit_def)

lemma next_bit_step: "b < sz \<Longrightarrow> next_bit P x sz b = (if P b \<noteq> x then b else next_bit P x sz (b + 1))"
  by (simp add: next_bit_def upt_conv_Cons)

lemma next_bit_skip: "b \<le> c \<Longrightarrow> c \<le> sz \<Longrightarrow> \<forall>i. b \<le> i \<longrightarrow> i < c \<longrightarrow> P i = x \<Longrightarrow> next_bit P x sz b = next_bit P x sz c"
proof (induction "c - b" arbitrary: b)
  case (Suc n)
  then have "next_bit P x sz (b + 1) = next_bit P x sz c" by (intro Suc.hyps(1)) auto
  then show ?case using Suc.prems Suc.hyps(2) next_bit_step [of b sz P x] by simp
qed simp

lemma next_bit_cases:
  assumes "b \<le> sz"
  shows "b \<le> next_bit P x sz b" "next_bit P x sz b \<le> sz" "\<forall>i. b \<le> i \<longrightarrow> i < next_bit P x sz b \<longrightarrow> P i = x"
    "next_bit P x sz b < sz \<longrightarrow> P (next_bit P x sz b) \<noteq> x"
proof -
  have "b \<le> next_bit P x sz b \<and> next_bit P x sz b \<le> sz \<and> (\<forall>i. b \<le> i \<longrightarrow> i < next_bit P x sz b \<longrightarrow> P i = x)
      \<and> (next_bit P x sz b < sz \<longrightarrow> P (next_bit P x sz b) \<noteq> x)"
  proof (cases "find (\<lambda>i. P i \<noteq> x) [b..<sz]")
    case None
    then have "next_bit P x sz b = sz" by (simp add: next_bit_def)
    moreover have "P i = x" if "b \<le> i" "i < sz" for i using None that by (auto simp: find_None_iff)
    ultimately show ?thesis using assms by simp
  next
    case (Some i)
    then obtain k where k: "k < sz - b" "i = b + k" "P i \<noteq> x" "\<forall>j<k. P (b + j) = x" by (auto simp: find_Some_iff)
    have "P j = x" if "b \<le> j" "j < i" for j using k(4) [rule_format, of "j - b"] k(2) that by simp
    then show ?thesis using Some k by (simp add: next_bit_def)
  qed
  then show "b \<le> next_bit P x sz b" "next_bit P x sz b \<le> sz" "\<forall>i. b \<le> i \<longrightarrow> i < next_bit P x sz b \<longrightarrow> P i = x"
    "next_bit P x sz b < sz \<longrightarrow> P (next_bit P x sz b) \<noteq> x" by blast+
qed

lemma next_bit_below: "b \<le> c \<Longrightarrow> c < sz \<Longrightarrow> P c \<noteq> x \<Longrightarrow> next_bit P x sz b \<le> c"
  using next_bit_cases(3) [of b sz P x] by (meson le_trans less_imp_le not_le)

lemma BitsUp_next:
  assumes ok: "bm_ok m bm" and sz: "bm_size bm < 2 ^ 31" and b: "unat b \<le> bm_size bm"
  shows "BitsUp m bm x b = Some (word_of_nat (next_bit (bm_bit m bm) x (bm_size bm) (unat b)))"
  using b
proof (induction "bm_size bm - unat b" arbitrary: b)
  case 0
  then have "\<not> b < SizeOfBitMap bm" "unat b = bm_size bm" by (simp_all add: word_less_nat_alt bm_size_def)
  then show ?case using next_bit_end [of "bm_bit m bm" x "bm_size bm"] of_nat_of_unat [of b] by (subst BitsUp.simps) simp
next
  case (Suc n)
  have lt: "unat b < bm_size bm" using Suc.hyps(2) by simp
  then have b1: "unat (b + 1) = unat b + 1" using sz by (simp add: unat_add_small)
  have t: "RtlCheckBit m bm b = Some (bm_bit m bm (unat b))" using TestBit_set(2) [OF ok lt] sz lt by (simp add: abs_set_def)
  have "BitsUp m bm x (b + 1) = Some (word_of_nat (next_bit (bm_bit m bm) x (bm_size bm) (unat (b + 1))))"
    using Suc.hyps(2) lt b1 by (intro Suc.hyps(1)) simp_all
  moreover have "b < SizeOfBitMap bm" using lt by (simp add: word_less_nat_alt bm_size_def)
  ultimately show ?case using t b1 next_bit_step [OF lt, of "bm_bit m bm" x] by (subst BitsUp.simps) (simp split: if_splits)
qed

text \<open>The longwords of a bitmap.\<close>

lemma rdhunk_bits:
  assumes "bm_ok m bm" "32 * k < bm_size bm"
  obtains v where "rdhunk m bm (int k) = Some v" "\<forall>j<32. bit v j = bm_bit m bm (32 * k + j)"
proof -
  have n: "nat (int (buf bm) + 4 * int k) = buf bm + 4 * k" by simp
  note bt = bt_mapped [OF assms]
  obtain v where v: "rd32 m (buf bm + 4 * k) = Some v" using rd32_mapped [of m "buf bm + 4 * k"] bt(2) by auto
  have "bit v j = bm_bit m bm (32 * k + j)" if "j < 32" for j
    using rd32_bits [OF _ v that] bt(1) by (simp add: bm_bit_def distrib_left add.assoc)
  then show thesis using v n by (intro that [of v]) (simp_all add: rdhunk_def)
qed

text \<open>Bit \<open>i\<close> of a longword, and the longword that has all bits \<open>x\<close>.\<close>

definition pattern :: "bool \<Rightarrow> ULONG" where
  "pattern x = (if x then - 1 else 0)"

lemma pattern_iff: "v = pattern x \<longleftrightarrow> (\<forall>j<32. bit v j = x)" for v :: ULONG
  by (auto simp: pattern_def bit_eq_iff)

lemma hunk_all:
  fixes v :: ULONG
  assumes "\<forall>j<32. bit v j = P (32 * k + j)"
  shows "v = pattern x \<longleftrightarrow> (\<forall>i. 32 * k \<le> i \<longrightarrow> i < 32 * (k + 1) \<longrightarrow> P i = x)"
proof -
  have "(\<forall>j<32. P (32 * k + j) = x) \<longleftrightarrow> (\<forall>i. 32 * k \<le> i \<longrightarrow> i < 32 * (k + 1) \<longrightarrow> P i = x)"
  proof
    assume a: "\<forall>j<32. P (32 * k + j) = x"
    show "\<forall>i. 32 * k \<le> i \<longrightarrow> i < 32 * (k + 1) \<longrightarrow> P i = x"
    proof (intro allI impI)
      fix i assume "32 * k \<le> i" "i < 32 * (k + 1)"
      then show "P i = x" using a [rule_format, of "i - 32 * k"] by simp
    qed
  qed simp
  then show ?thesis using assms by (simp add: pattern_iff)
qed

lemma HunksUp_next:
  assumes ok: "bm_ok m bm" and e: "32 * e < bm_size bm" and sz: "bm_size bm < 2 ^ 31" and k: "k \<le> e"
  obtains k' where "HunksUp m bm (pattern x) (int e) (int k) (word_of_nat (32 * k)) = Some (int k', word_of_nat (32 * k'))"
    "k \<le> k'" "k' \<le> e" "\<forall>i. 32 * k \<le> i \<longrightarrow> i < 32 * k' \<longrightarrow> bm_bit m bm i = x"
    "k' < e \<longrightarrow> (\<exists>i. 32 * k' \<le> i \<and> i < 32 * (k' + 1) \<and> bm_bit m bm i \<noteq> x)"
proof -
  have "\<exists>k'. HunksUp m bm (pattern x) (int e) (int k) (word_of_nat (32 * k)) = Some (int k', word_of_nat (32 * k'))
    \<and> k \<le> k' \<and> k' \<le> e \<and> (\<forall>i. 32 * k \<le> i \<longrightarrow> i < 32 * k' \<longrightarrow> bm_bit m bm i = x)
    \<and> (k' < e \<longrightarrow> (\<exists>i. 32 * k' \<le> i \<and> i < 32 * (k' + 1) \<and> bm_bit m bm i \<noteq> x))"
    using k
  proof (induction "e - k" arbitrary: k)
    case 0
    then have "k = e" by simp
    then show ?case by (intro exI [of _ e]) (subst HunksUp.simps, simp)
  next
    case (Suc n)
    then have lt: "k < e" by simp
    obtain v where v: "rdhunk m bm (int k) = Some v" "\<forall>j<32. bit v j = bm_bit m bm (32 * k + j)" by (rule rdhunk_bits [OF ok, of k]) (use lt e in simp)
    note all = hunk_all [OF v(2), of x]
    show ?case
    proof (cases "v = pattern x")
      case False
      then show ?thesis using lt v(1) all by (intro exI [of _ k]) (subst HunksUp.simps, auto)
    next
      case True
      have dec: "n = e - (k + 1)" "k + 1 \<le> e" using Suc.hyps(2) lt by simp_all
      obtain k' where k': "HunksUp m bm (pattern x) (int e) (int (k + 1)) (word_of_nat (32 * (k + 1))) = Some (int k', word_of_nat (32 * k'))"
        "k + 1 \<le> k'" "k' \<le> e" "\<forall>i. 32 * (k + 1) \<le> i \<longrightarrow> i < 32 * k' \<longrightarrow> bm_bit m bm i = x"
        "k' < e \<longrightarrow> (\<exists>i. 32 * k' \<le> i \<and> i < 32 * (k' + 1) \<and> bm_bit m bm i \<noteq> x)"
        using Suc.hyps(1) [OF dec] by blast
      have "\<forall>i. 32 * k \<le> i \<longrightarrow> i < 32 * k' \<longrightarrow> bm_bit m bm i = x" using k'(4) all True by (meson not_le)
      moreover have "HunksUp m bm (pattern x) (int e) (int k) (word_of_nat (32 * k)) = Some (int k', word_of_nat (32 * k'))"
        using k'(1) lt v(1) True by (subst HunksUp.simps) (simp add: algebra_simps)
      ultimately show ?thesis using k'(2,3,5) by (intro exI [of _ k']) simp
    qed
  qed
  then show thesis using that by blast
qed

lemma FillMaskUlong_mask: "n \<le> 32 \<Longrightarrow> entry FillMaskUlong n = Some (mask n)"
proof -
  have "FillMaskUlong = map mask [0..<33]" by (simp add: FillMaskUlong_def upt_conv_Cons mask_eq_exp_minus_1)
  note list = this
  show "n \<le> 32 \<Longrightarrow> entry FillMaskUlong n = Some (mask n)" unfolding entry_def list by simp
qed

text \<open>The test of the bits of a longword from position \<open>r\<close> on.\<close>

lemma hunk_from:
  fixes v :: ULONG
  assumes "\<forall>j<32. bit v j = P (32 * k + j)"
  shows "(if x then v OR mask r else v AND NOT (mask r)) = pattern x \<longleftrightarrow> (\<forall>i. 32 * k + r \<le> i \<longrightarrow> i < 32 * (k + 1) \<longrightarrow> P i = x)"
proof -
  have "(if x then v OR mask r else v AND NOT (mask r)) = pattern x \<longleftrightarrow> (\<forall>j<32. r \<le> j \<longrightarrow> bit v j = x)"
    unfolding pattern_iff by (auto simp: bit_simps not_le)
  also have "\<dots> \<longleftrightarrow> (\<forall>i. 32 * k + r \<le> i \<longrightarrow> i < 32 * (k + 1) \<longrightarrow> P i = x)"
  proof
    assume a: "\<forall>j<32. r \<le> j \<longrightarrow> bit v j = x"
    show "\<forall>i. 32 * k + r \<le> i \<longrightarrow> i < 32 * (k + 1) \<longrightarrow> P i = x"
    proof (intro allI impI)
      fix i assume i: "32 * k + r \<le> i" "i < 32 * (k + 1)"
      then have "32 * k + (i - 32 * k) = i" "i - 32 * k < 32" "r \<le> i - 32 * k" by simp_all
      then show "P i = x" using a assms by metis
    qed
  next
    assume a: "\<forall>i. 32 * k + r \<le> i \<longrightarrow> i < 32 * (k + 1) \<longrightarrow> P i = x"
    show "\<forall>j<32. r \<le> j \<longrightarrow> bit v j = x" using a assms by simp
  qed
  finally show ?thesis .
qed

text \<open>A bit and the longword the scan is at.\<close>

definition scan_at :: "nat \<Rightarrow> nat \<Rightarrow> nat \<Rightarrow> nat \<Rightarrow> bool" where
  "scan_at sz e h b \<longleftrightarrow> b < sz \<and> h = b div 32 \<or> b = sz \<and> h = e"

lemma scan_at_next:
  assumes e: "sz \<le> 32 * (e + 1)" and h: "h \<le> e" "32 * h \<le> s" "s \<le> sz"
    and stop: "h < e \<longrightarrow> (\<exists>i. s \<le> i \<and> i < sz \<and> i < 32 * (h + 1) \<and> P i \<noteq> x)"
  shows "scan_at sz e h (next_bit P x sz s)"
proof -
  define N where "N = next_bit P x sz s"
  have N: "s \<le> N" "N \<le> sz" using next_bit_cases(1,2) [OF h(3)] by (simp_all add: N_def)
  show ?thesis
  proof (cases "h < e")
    case True
    then obtain i where i: "s \<le> i" "i < sz" "i < 32 * (h + 1)" "P i \<noteq> x" using stop by blast
    have "N \<le> i" unfolding N_def by (rule next_bit_below [of s i sz P x, OF i(1,2,4)])
    then have "N div 32 = h" using N i h(2) by (intro div_nat_eqI) simp_all
    then show ?thesis using \<open>N \<le> i\<close> i(2) by (simp add: scan_at_def N_def [symmetric])
  next
    case False
    then have "N div 32 = h" if "N < sz" using that N h e by (intro div_nat_eqI) simp_all
    then show ?thesis using False N(2) h(1) by (auto simp: scan_at_def N_def [symmetric])
  qed
qed

lemma next_hunk_word: "b + (32 - b mod 32) = word_of_nat (32 * (unat b div 32 + 1))" for b :: ULONG
proof -
  have "b mod 32 = word_of_nat (unat b mod 32)" by (simp add: word_unat_eq_iff unat_mod_word unat_of_nat)
  moreover have "b = word_of_nat (32 * (unat b div 32) + unat b mod 32)" by simp
  ultimately have "b + (32 - b mod 32) = word_of_nat (32 * (unat b div 32) + unat b mod 32) + (32 - word_of_nat (unat b mod 32))" by simp
  then show ?thesis by (simp only: of_nat_add of_nat_mult) (simp add: distrib_left)
qed

lemma ScanUp_next:
  fixes b :: ULONG and x :: bool
  assumes ok: "bm_ok m bm" and e: "32 * e < bm_size bm" "bm_size bm \<le> 32 * (e + 1)" and sz: "bm_size bm < 2 ^ 31"
    and at: "scan_at (bm_size bm) e h (unat b)"
  defines "N \<equiv> next_bit (bm_bit m bm) x (bm_size bm) (unat b)"
  shows "\<exists>h'. ScanUp m bm x (int e) (int h) b = Some (int h', word_of_nat N) \<and> scan_at (bm_size bm) e h' N"
proof -
  have bs: "unat b \<le> bm_size bm" using at by (auto simp: scan_at_def)
  note bits = BitsUp_next [OF ok sz]
  show ?thesis
  proof (cases "h = e")
    case True
    have "scan_at (bm_size bm) e h N" unfolding N_def using e at True by (intro scan_at_next) (auto simp: scan_at_def)
    then show ?thesis using True bits [OF bs, of x] by (auto simp: ScanUp_def N_def)
  next
    case False
    then have b: "unat b < bm_size bm" "h = unat b div 32" using at by (auto simp: scan_at_def)
    have "h \<le> e" using b e(2) by (simp add: less_Suc_eq_le [symmetric] div_less_iff_less_mult)
    then have he: "h < e" using False by simp
    obtain v where v: "rdhunk m bm (int h) = Some v" "\<forall>j<32. bit v j = bm_bit m bm (32 * h + j)" by (rule rdhunk_bits [OF ok, of h]) (use he e in simp)
    have f: "entry FillMaskUlong (unat (b mod 32)) = Some (mask (unat b mod 32))" by (simp add: unat_mod_word FillMaskUlong_mask less_imp_le)
    have hb: "32 * h + unat b mod 32 = unat b" by (simp add: b(2))
    note all = hunk_from [OF v(2), of x "unat b mod 32", unfolded hb]
    show ?thesis
    proof (cases "(if x then v OR mask (unat b mod 32) else v AND NOT (mask (unat b mod 32))) = pattern x")
      case True
      note w = next_hunk_word [of b, folded b(2)]
      obtain k' where k': "HunksUp m bm (pattern x) (int e) (int (h + 1)) (word_of_nat (32 * (h + 1))) = Some (int k', word_of_nat (32 * k'))"
        "h + 1 \<le> k'" "k' \<le> e" "\<forall>i. 32 * (h + 1) \<le> i \<longrightarrow> i < 32 * k' \<longrightarrow> bm_bit m bm i = x"
        "k' < e \<longrightarrow> (\<exists>i. 32 * k' \<le> i \<and> i < 32 * (k' + 1) \<and> bm_bit m bm i \<noteq> x)"
        by (rule HunksUp_next [OF ok e(1) sz, of "h + 1" x]) (use he in simp)
      have "next_bit (bm_bit m bm) x (bm_size bm) (unat b) = next_bit (bm_bit m bm) x (bm_size bm) (32 * k')"
      proof (rule next_bit_skip)
        show "\<forall>i. unat b \<le> i \<longrightarrow> i < 32 * k' \<longrightarrow> bm_bit m bm i = x" using k'(4) all True by (meson not_le)
      qed (use b(2) k'(2,3) e(1) in auto)
      then have N: "N = next_bit (bm_bit m bm) x (bm_size bm) (32 * k')" by (simp only: N_def)
      have ks: "32 * k' < bm_size bm" using k'(3) e(1) by simp
      define wk :: ULONG where "wk = word_of_nat (32 * k')"
      have "unat wk = 32 * k'" using ks sz unfolding wk_def unat_of_nat by (intro mod_less) simp
      then have bu: "BitsUp m bm x wk = Some (word_of_nat N)" using bits [of wk x] ks N by simp
      have "scan_at (bm_size bm) e k' N" unfolding N
      proof (rule scan_at_next [OF e(2) k'(3) order_refl])
        show "k' < e \<longrightarrow> (\<exists>i\<ge>32 * k'. i < bm_size bm \<and> i < 32 * (k' + 1) \<and> bm_bit m bm i \<noteq> x)" using k'(5) e(1) by (metis Suc_eq_plus1 Suc_leI le_trans less_le_trans less_imp_le mult_le_mono2)
      qed (use ks in simp)
      moreover have "ScanUp m bm x (int e) (int h) b = Some (int k', word_of_nat N)"
        using False True k'(1) [folded wk_def w] v(1) f bu by (simp add: ScanUp_def pattern_def add.commute)
      ultimately show ?thesis by blast
    next
      case no: False
      then obtain i where "unat b \<le> i" "i < 32 * (h + 1)" "bm_bit m bm i \<noteq> x" using all by blast
      then have "scan_at (bm_size bm) e h N" unfolding N_def using e he b hb by (intro scan_at_next) auto
      then show ?thesis using False he no v(1) f bits [OF bs, of x] by (auto simp: ScanUp_def N_def pattern_def)
    qed
  qed
qed


lemma NextForward_run:
  fixes From :: ULONG
  assumes ok: "bm_ok m bm" and sz: "bm_size bm < 2 ^ 31" and From: "unat From < bm_size bm"
  defines "S \<equiv> next_bit (bm_bit m bm) True (bm_size bm) (unat From)"
  defines "E \<equiv> next_bit (bm_bit m bm) False (bm_size bm) S"
  shows "RtlFindNextForwardRunClear m bm From = Some (word_of_nat (E - S), word_of_nat S)"
proof -
  define e where "e = (bm_size bm - 1) div 32"
  obtain n where n: "bm_size bm = Suc n" using From by (cases "bm_size bm") auto
  have "n = 32 * e + n mod 32" by (simp add: e_def n)
  then obtain r where "n = 32 * e + r" "r < 32" by (meson mod_less_divisor zero_less_numeral)
  then have e: "32 * e < bm_size bm" "bm_size bm \<le> 32 * (e + 1)" unfolding n by simp_all
  have ue: "unat ((SizeOfBitMap bm - 1) div 32) = e"
    using From unat_sub_small [of 1 "SizeOfBitMap bm"] by (simp add: unat_div_word e_def bm_size_def)
  have uh: "unat (From div 32) = unat From div 32" by (simp add: unat_div_word)
  have "scan_at (bm_size bm) e (unat From div 32) (unat From)" using From by (simp add: scan_at_def)
  from ScanUp_next [OF ok e sz this, of True, folded S_def]
  obtain h where h: "ScanUp m bm True (int e) (int (unat From div 32)) From = Some (int h, word_of_nat S)" "scan_at (bm_size bm) e h S" by blast
  have S: "S \<le> bm_size bm" using next_bit_cases(2) [of "unat From"] From by (simp add: S_def)
  have uS: "unat (word_of_nat S :: ULONG) = S" using S sz unfolding unat_of_nat by (intro mod_less) simp
  from ScanUp_next [OF ok e sz, of h "word_of_nat S" False, unfolded uS, folded E_def, OF h(2)]
  obtain h' where h': "ScanUp m bm False (int e) (int h) (word_of_nat S) = Some (int h', word_of_nat E)" by blast
  have "S \<le> E" using next_bit_cases(1) [OF S] by (simp add: E_def)
  then have "(word_of_nat E - word_of_nat S :: ULONG) = word_of_nat (E - S)" by (simp add: of_nat_diff)
  moreover have "SizeOfBitMap bm \<noteq> 0" using From by (auto simp: bm_size_def)
  ultimately show ?thesis using h(1) h' by (simp add: RtlFindNextForwardRunClear_def Let_def ue uh)
qed

section \<open>Downwards\<close>

text \<open>The number of bits up to the last one before \<open>b\<close> that is not \<open>x\<close>.\<close>

primrec last_end :: "(nat \<Rightarrow> bool) \<Rightarrow> bool \<Rightarrow> nat \<Rightarrow> nat" where
  "last_end P x 0 = 0"
| "last_end P x (Suc b) = (if P b \<noteq> x then Suc b else last_end P x b)"

lemma last_end_cases:
  "last_end P x b \<le> b" "\<forall>i. last_end P x b \<le> i \<longrightarrow> i < b \<longrightarrow> P i = x" "0 < last_end P x b \<longrightarrow> P (last_end P x b - 1) \<noteq> x"
proof -
  have "last_end P x b \<le> b \<and> (\<forall>i. last_end P x b \<le> i \<longrightarrow> i < b \<longrightarrow> P i = x) \<and> (0 < last_end P x b \<longrightarrow> P (last_end P x b - 1) \<noteq> x)"
    by (induction b) (auto simp: less_Suc_eq)
  then show "last_end P x b \<le> b" "\<forall>i. last_end P x b \<le> i \<longrightarrow> i < b \<longrightarrow> P i = x" "0 < last_end P x b \<longrightarrow> P (last_end P x b - 1) \<noteq> x"
    by blast+
qed

lemma last_end_skip: "c \<le> b \<Longrightarrow> \<forall>i. c \<le> i \<longrightarrow> i < b \<longrightarrow> P i = x \<Longrightarrow> last_end P x b = last_end P x c"
proof (induction b)
  case (Suc b)
  then show ?case by (cases "c = Suc b") auto
qed simp

lemma BitsDown_last:
  assumes ok: "bm_ok m bm" and sz: "bm_size bm < 2 ^ 31" and b: "b \<le> bm_size bm"
  shows "BitsDown m bm x (word_of_nat b - 1) = Some (word_of_nat (last_end (bm_bit m bm) x b) - 1)"
  using b
proof (induction b)
  case 0
  then show ?case by (subst BitsDown.simps) simp
next
  case (Suc b)
  have u: "unat (word_of_nat b :: ULONG) = b" using Suc.prems sz unfolding unat_of_nat by (intro mod_less) simp
  have t: "RtlCheckBit m bm (word_of_nat b) = Some (bm_bit m bm b)"
    using TestBit_set(2) [OF ok, of "word_of_nat b"] Suc.prems sz by (simp add: u abs_set_def)
  have "(word_of_nat b :: ULONG) \<noteq> - 1"
  proof
    assume "(word_of_nat b :: ULONG) = - 1"
    then have "b = unat (- 1 :: ULONG)" using u by simp
    then show False using Suc.prems sz unat_uminus [of "1 :: ULONG"] by simp
  qed
  then show ?case using t Suc.IH Suc.prems by (subst BitsDown.simps) simp
qed


text \<open>The longwords below the first one, downwards.\<close>

lemma HunksDown_last:
  assumes ok: "bm_ok m bm" and k: "32 * k < bm_size bm"
  obtains k' where "HunksDown m bm (pattern x) (int k) (word_of_nat (32 * (k + 1)) - 1) = Some (int k', word_of_nat (32 * (k' + 1)) - 1)"
    "k' \<le> k" "\<forall>i. 32 * (k' + 1) \<le> i \<longrightarrow> i < 32 * (k + 1) \<longrightarrow> bm_bit m bm i = x"
    "0 < k' \<longrightarrow> (\<exists>i. 32 * k' \<le> i \<and> i < 32 * (k' + 1) \<and> bm_bit m bm i \<noteq> x)"
proof -
  have "\<exists>k'. HunksDown m bm (pattern x) (int k) (word_of_nat (32 * (k + 1)) - 1) = Some (int k', word_of_nat (32 * (k' + 1)) - 1)
    \<and> k' \<le> k \<and> (\<forall>i. 32 * (k' + 1) \<le> i \<longrightarrow> i < 32 * (k + 1) \<longrightarrow> bm_bit m bm i = x)
    \<and> (0 < k' \<longrightarrow> (\<exists>i. 32 * k' \<le> i \<and> i < 32 * (k' + 1) \<and> bm_bit m bm i \<noteq> x))"
    using k
  proof (induction k)
    case 0
    show ?case by (intro exI [of _ 0]) (subst HunksDown.simps, simp)
  next
    case (Suc k)
    obtain v where v: "rdhunk m bm (int (Suc k)) = Some v" "\<forall>j<32. bit v j = bm_bit m bm (32 * Suc k + j)" by (rule rdhunk_bits [OF ok Suc.prems])
    note all = hunk_all [OF v(2), of x]
    show ?case
    proof (cases "v = pattern x")
      case False
      then show ?thesis using v(1) all by (intro exI [of _ "Suc k"]) (subst HunksDown.simps, auto)
    next
      case True
      obtain k' where k': "HunksDown m bm (pattern x) (int k) (word_of_nat (32 * (k + 1)) - 1) = Some (int k', word_of_nat (32 * (k' + 1)) - 1)"
        "k' \<le> k" "\<forall>i. 32 * (k' + 1) \<le> i \<longrightarrow> i < 32 * (k + 1) \<longrightarrow> bm_bit m bm i = x"
        "0 < k' \<longrightarrow> (\<exists>i. 32 * k' \<le> i \<and> i < 32 * (k' + 1) \<and> bm_bit m bm i \<noteq> x)"
        using Suc.IH Suc.prems by auto
      have "\<forall>i. 32 * (k' + 1) \<le> i \<longrightarrow> i < 32 * (Suc k + 1) \<longrightarrow> bm_bit m bm i = x" using k'(3) all True by (metis Suc_eq_plus1 not_le)
      moreover have "HunksDown m bm (pattern x) (int (Suc k)) (word_of_nat (32 * (Suc k + 1)) - 1) = Some (int k', word_of_nat (32 * (k' + 1)) - 1)"
      proof -
        have "(word_of_nat (32 * (Suc k + 1)) - 1 - 32 :: ULONG) = word_of_nat (32 * (k + 1)) - 1" by simp
        then show ?thesis using k'(1) v(1) True by (subst HunksDown.simps) simp
      qed
      ultimately show ?thesis using k'(2,4) by (intro exI [of _ k']) simp
    qed
  qed
  then show thesis using that by blast
qed


lemma hunk_below:
  fixes v :: ULONG
  assumes "\<forall>j<32. bit v j = P (32 * k + j)" "r \<le> 32"
  shows "(if x then v OR NOT (mask r) else v AND mask r) = pattern x \<longleftrightarrow> (\<forall>i. 32 * k \<le> i \<longrightarrow> i < 32 * k + r \<longrightarrow> P i = x)"
proof -
  have "(if x then v OR NOT (mask r) else v AND mask r) = pattern x \<longleftrightarrow> (\<forall>j<32. j < r \<longrightarrow> bit v j = x)"
    unfolding pattern_iff by (auto simp: bit_simps)
  also have "\<dots> \<longleftrightarrow> (\<forall>i. 32 * k \<le> i \<longrightarrow> i < 32 * k + r \<longrightarrow> P i = x)"
  proof
    assume a: "\<forall>j<32. j < r \<longrightarrow> bit v j = x"
    show "\<forall>i. 32 * k \<le> i \<longrightarrow> i < 32 * k + r \<longrightarrow> P i = x"
    proof (intro allI impI)
      fix i assume i: "32 * k \<le> i" "i < 32 * k + r"
      then have "32 * k + (i - 32 * k) = i" "i - 32 * k < 32" "i - 32 * k < r" using assms(2) by simp_all
      then show "P i = x" using a assms(1) by metis
    qed
  qed (use assms in simp)
  finally show ?thesis .
qed

lemma last_end_hunk:
  assumes "32 * k \<le> i" "i < b" "P i \<noteq> x" "b \<le> 32 * (k + 1)"
  shows "0 < last_end P x b" "(last_end P x b - 1) div 32 = k"
proof -
  have "i < last_end P x b" using last_end_cases(2) [of P x b] assms(2,3) by (meson not_le)
  then show "0 < last_end P x b" "(last_end P x b - 1) div 32 = k"
    using last_end_cases(1) [of P x b] assms(1,4) by (simp, intro div_nat_eqI) simp_all
qed

text \<open>One half of the backward scan, over the bits below \<open>32 * k + r\<close>.\<close>

lemma down_step:
  fixes k r :: nat
  assumes ok: "bm_ok m bm" and sz: "bm_size bm < 2 ^ 31" and k: "32 * k + r \<le> bm_size bm" "r \<le> 32" "32 * k < bm_size bm"
    and T: "T \<longleftrightarrow> (\<forall>i. 32 * k \<le> i \<longrightarrow> i < 32 * k + r \<longrightarrow> bm_bit m bm i = x)"
  defines "L \<equiv> last_end (bm_bit m bm) x (32 * k + r)"
  shows "\<exists>h' s. (if T then HunksDown m bm (pattern x) (int k - 1) (word_of_nat (32 * k) - 1) else Some (int k, word_of_nat (32 * k + r) - 1)) = Some (h', s)
    \<and> BitsDown m bm x s = Some (word_of_nat L - 1) \<and> (0 < L \<longrightarrow> h' = int ((L - 1) div 32))"
proof (cases T)
  case False
  then obtain i where i: "32 * k \<le> i" "i < 32 * k + r" "bm_bit m bm i \<noteq> x" using T by blast
  have "(L - 1) div 32 = k" unfolding L_def by (rule last_end_hunk(2) [of k i "32 * k + r" "bm_bit m bm" x, OF i]) (use k in simp)
  then show ?thesis using False BitsDown_last [OF ok sz k(1), of x] by (simp add: L_def)
next
  case True
  then have L: "L = last_end (bm_bit m bm) x (32 * k)" using T unfolding L_def by (intro last_end_skip) simp_all
  show ?thesis
  proof (cases k)
    case 0
    then show ?thesis using True L by (subst HunksDown.simps, subst BitsDown.simps) simp
  next
    case (Suc j)
    obtain k' where k': "HunksDown m bm (pattern x) (int j) (word_of_nat (32 * (j + 1)) - 1) = Some (int k', word_of_nat (32 * (k' + 1)) - 1)"
      "k' \<le> j" "\<forall>i. 32 * (k' + 1) \<le> i \<longrightarrow> i < 32 * (j + 1) \<longrightarrow> bm_bit m bm i = x"
      "0 < k' \<longrightarrow> (\<exists>i. 32 * k' \<le> i \<and> i < 32 * (k' + 1) \<and> bm_bit m bm i \<noteq> x)"
      by (rule HunksDown_last [OF ok, of j x]) (use k(3) Suc in simp)
    have L': "L = last_end (bm_bit m bm) x (32 * (k' + 1))" unfolding L using k'(2,3) Suc by (intro last_end_skip) simp_all
    have "h' = int ((L - 1) div 32)" if "0 < L" "h' = int k'" for h'
    proof (cases "k' = 0")
      case True
      then have "L \<le> 32" using L' last_end_cases(1) [of "bm_bit m bm" x 32] by simp
      then show ?thesis using that True by simp
    next
      case False
      then obtain i where i: "32 * k' \<le> i" "i < 32 * (k' + 1)" "bm_bit m bm i \<noteq> x" using k'(4) by auto
      show ?thesis using last_end_hunk(2) [of k' i "32 * (k' + 1)" "bm_bit m bm" x, OF i] L' that(2) by simp
    qed
    moreover have "BitsDown m bm x (word_of_nat (32 * (k' + 1)) - 1) = Some (word_of_nat L - 1)"
      unfolding L' using k'(2) k(3) Suc by (intro BitsDown_last [OF ok sz]) simp
    ultimately show ?thesis using True Suc k'(1) by simp
  qed
qed


lemma prev_hunk_word: "b - (b mod 32 + 1) = word_of_nat (32 * (unat b div 32)) - 1" for b :: ULONG
proof -
  have "b mod 32 = word_of_nat (unat b mod 32)" by (simp add: word_unat_eq_iff unat_mod_word unat_of_nat)
  moreover have "b = word_of_nat (32 * (unat b div 32) + unat b mod 32)" by simp
  ultimately have "b - (b mod 32 + 1) = word_of_nat (32 * (unat b div 32) + unat b mod 32) - (word_of_nat (unat b mod 32) + 1)" by simp
  then show ?thesis by (simp only: of_nat_add) (simp add: algebra_simps)
qed

lemma backward_end:
  fixes From :: ULONG
  assumes ok: "bm_ok m bm" and sz: "bm_size bm < 2 ^ 31" and From: "unat From < bm_size bm"
    and v: "rdhunk m bm (int (unat From div 32)) = Some v"
    and E: "last_end (bm_bit m bm) True (unat From + 1) = E + 1"
  shows "\<exists>s. (if v OR NOT (mask (unat From mod 32 + 1)) = - 1
      then HunksDown m bm (- 1) (int (unat From div 32) - 1) (From - (From mod 32 + 1)) else Some (int (unat From div 32), From))
    = Some (int (E div 32), s) \<and> BitsDown m bm True s = Some (word_of_nat E)"
proof -
  define k r where "k = unat From div 32" and "r = unat From mod 32 + 1"
  have kr: "32 * k + r = unat From + 1" "r \<le> 32" by (simp_all add: k_def r_def Suc_le_eq)
  have k: "32 * k < bm_size bm" using From kr by (simp add: r_def)
  obtain v' where "rdhunk m bm (int k) = Some v'" "\<forall>j<32. bit v' j = bm_bit m bm (32 * k + j)" by (rule rdhunk_bits [OF ok k])
  then have vb: "\<forall>j<32. bit v j = bm_bit m bm (32 * k + j)" using v by (simp add: k_def)
  have T: "v OR NOT (mask r) = - 1 \<longleftrightarrow> (\<forall>i. 32 * k \<le> i \<longrightarrow> i < 32 * k + r \<longrightarrow> bm_bit m bm i = True)"
    using hunk_below [OF vb kr(2), of True] by (simp add: pattern_def)
  have le: "32 * k + r \<le> bm_size bm" using From kr(1) by simp
  from down_step [OF ok sz le kr(2) k T] show ?thesis
    unfolding kr(1) E prev_hunk_word [of From]
    by (cases "v OR NOT (mask r) = - 1") (simp_all add: pattern_def k_def r_def)
qed

lemma backward_start:
  assumes ok: "bm_ok m bm" and sz: "bm_size bm < 2 ^ 31" and E: "E < bm_size bm" "\<not> bm_bit m bm E"
    and v: "rdhunk m bm (int (E div 32)) = Some v" and Ew: "unat Ew = E"
  shows "\<exists>h s. (if v AND mask (E mod 32) = 0 then HunksDown m bm 0 (int (E div 32) - 1) (Ew - (Ew mod 32 + 1)) else Some (int (E div 32), Ew))
    = Some (h, s) \<and> BitsDown m bm False s = Some (word_of_nat (last_end (bm_bit m bm) False E) - 1)"
proof -
  define k r where "k = E div 32" and "r = E mod 32"
  have kr: "32 * k + r = E" "r \<le> 32" by (simp_all add: k_def r_def less_imp_le)
  have k: "32 * k < bm_size bm" using E kr by simp
  obtain v' where "rdhunk m bm (int k) = Some v'" "\<forall>j<32. bit v' j = bm_bit m bm (32 * k + j)" by (rule rdhunk_bits [OF ok k])
  then have vb: "\<forall>j<32. bit v j = bm_bit m bm (32 * k + j)" using v by (simp add: k_def)
  have T: "v AND mask r = 0 \<longleftrightarrow> (\<forall>i. 32 * k \<le> i \<longrightarrow> i < 32 * k + r \<longrightarrow> bm_bit m bm i = False)"
    using hunk_below [OF vb kr(2), of False] by (simp add: pattern_def)
  have le: "32 * k + r \<le> bm_size bm" using E kr by simp
  have "BitsDown m bm False Ew = Some (word_of_nat (last_end (bm_bit m bm) False E) - 1)"
    using BitsDown_last [OF ok sz, of "Suc E" False] E of_nat_of_unat [of Ew, unfolded Ew] by simp
  then show ?thesis using down_step [OF ok sz le kr(2) k T] unfolding kr(1) prev_hunk_word [of Ew] Ew
    by (auto simp: pattern_def k_def r_def split: if_splits)
qed

lemma LastBackward_run:
  fixes From :: ULONG
  assumes ok: "bm_ok m bm" and sz: "bm_size bm < 2 ^ 31" and From: "unat From < bm_size bm"
    and clear: "\<not> bm_bit m bm c" "c \<le> unat From"
  defines "E \<equiv> last_end (bm_bit m bm) True (unat From + 1) - 1"
  defines "S \<equiv> last_end (bm_bit m bm) False E"
  shows "RtlFindLastBackwardRunClear m bm From = Some (word_of_nat (E + 1 - S), word_of_nat S)"
proof -
  have "0 < last_end (bm_bit m bm) True (unat From + 1)"
  proof (rule ccontr)
    assume "\<not> 0 < last_end (bm_bit m bm) True (unat From + 1)"
    then have "last_end (bm_bit m bm) True (unat From + 1) \<le> c" by linarith
    from last_end_cases(2) [rule_format, OF this] show False using clear by simp
  qed
  then have E: "last_end (bm_bit m bm) True (unat From + 1) = E + 1" "E \<le> unat From" "\<not> bm_bit m bm E"
    using last_end_cases(1,3) [of "bm_bit m bm" True "unat From + 1"] by (simp_all add: E_def del: last_end.simps Suc_eq_plus1)
  define Ew :: ULONG where "Ew = word_of_nat E"
  have uE: "unat Ew = E" using E(2) From sz unfolding Ew_def unat_of_nat by (intro mod_less) simp
  have hunk: "\<exists>v. rdhunk m bm (int (i div 32)) = Some v" if "i < bm_size bm" for i
    by (rule rdhunk_bits [OF ok, of "i div 32"]) (use that in auto)
  obtain v v' where v: "rdhunk m bm (int (unat From div 32)) = Some v" and v': "rdhunk m bm (int (E div 32)) = Some v'"
    using hunk [OF From] hunk [of E] E(2) From by auto
  obtain s where s: "(if v OR NOT (mask (unat From mod 32 + 1)) = - 1
      then HunksDown m bm (- 1) (int (unat From div 32) - 1) (From - (From mod 32 + 1)) else Some (int (unat From div 32), From))
    = Some (int (E div 32), s)" "BitsDown m bm True s = Some Ew"
    using backward_end [OF ok sz From v E(1)] by (auto simp: Ew_def)
  obtain h t where t: "(if v' AND mask (E mod 32) = 0 then HunksDown m bm 0 (int (E div 32) - 1) (Ew - (Ew mod 32 + 1)) else Some (int (E div 32), Ew))
    = Some (h, t)" "BitsDown m bm False t = Some (word_of_nat S - 1)"
    using backward_start [OF ok sz _ E(3) v' uE] E(2) From by (auto simp: S_def)
  have f: "entry FillMaskUlong (unat (From mod 32 + 1)) = Some (mask (unat From mod 32 + 1))"
    by (simp add: FillMaskUlong_mask unat_add_small unat_mod_word Suc_le_eq)
  have f': "entry FillMaskUlong (unat (Ew mod 32)) = Some (mask (E mod 32))"
    by (simp add: FillMaskUlong_mask unat_mod_word uE less_imp_le)
  have "S \<le> E" using last_end_cases(1) by (simp add: S_def)
  then have "Ew - (word_of_nat S - 1) = word_of_nat (E + 1 - S)" by (simp add: Ew_def of_nat_diff)
  moreover have nz: "SizeOfBitMap bm \<noteq> 0" using From by (auto simp: bm_size_def)
  have uk: "unat (From div 32) = unat From div 32" by (simp add: unat_div_word)
  have "RtlFindLastBackwardRunClear m bm From = Some (Ew - (word_of_nat S - 1), word_of_nat S - 1 + 1)"
    by (simp only: RtlFindLastBackwardRunClear_def Let_def if_not_P [OF nz] uk v f s v' f' t bind.simps prod.case)
  ultimately show ?thesis by simp
qed

end
