(* ===== verification/BitmapProps.thy ===== *)
theory BitmapProps
  imports BitmapTotals BitmapScan
begin

text \<open>
  What the bitmap routines promise: the search finds the first fit, allocation takes exactly the
  bits it reports, the operations implement those on sets of numbers, the totals are the numbers
  of bits, and the scans find the next and the last run.
\<close>

section \<open>The operations as operations on sets\<close>









lemma unat_index: "i < 2 ^ 32 \<Longrightarrow> unat (word_of_nat i :: ULONG) = i"
  unfolding unat_of_nat by (intro mod_less) simp






section \<open>A small bitmap\<close>

text \<open>One chunk at address 0x1000 and the bitmap of its first eight bits, of which 0, 4 and 5 are set.\<close>

definition tiny_memory :: memory where
  "tiny_memory = [0x200 \<mapsto> 0x31]"

definition tiny_map :: RTL_BITMAP where
  "tiny_map = RtlInitializeBitMap 0x1000 8"

lemma tiny_buf [simp]: "buf tiny_map = 0x1000" "bm_size tiny_map = 8"
  by (simp_all add: tiny_map_def RtlInitializeBitMap_def buf_def bm_size_def)

lemma tiny_cell: "i < 8 \<Longrightarrow> (8 * 0x1000 + i) div 64 = 0x200 \<and> (8 * 0x1000 + i) mod 64 = (i::nat)"
  using div_mult_self1 [of 64 i 512] mod_mult_self1 [of i 512 64] by (simp add: add.commute)

lemma tiny_ok [simp]: "bm_ok tiny_memory tiny_map"
  using tiny_cell by (simp add: bm_ok_def mapped_def list_all_iff tiny_memory_def)

lemma tiny_bits: "bm_bit tiny_memory tiny_map i \<longleftrightarrow> i \<in> {0, 4, 5}" if "i < 8"
proof -
  have "bit (0x31 :: 64 word) i \<longleftrightarrow> i \<in> {0, 4, 5}"
    using that less_Suc_eq [of i] by (auto simp: numeral_eq_Suc less_Suc_eq)
  then show ?thesis using tiny_cell [OF that] by (simp add: bm_bit_def mbit_def tiny_memory_def)
qed

lemma tiny_bit [simp]:
  "bm_bit tiny_memory tiny_map 0" "\<not> bm_bit tiny_memory tiny_map 1" "\<not> bm_bit tiny_memory tiny_map 2"
  "\<not> bm_bit tiny_memory tiny_map 3" "bm_bit tiny_memory tiny_map 4" "bm_bit tiny_memory tiny_map 5"
  "\<not> bm_bit tiny_memory tiny_map 6" "\<not> bm_bit tiny_memory tiny_map 7" "\<not> bm_bit tiny_memory tiny_map (Suc 0)"
  by (simp_all add: tiny_bits)

lemma tiny_set [simp]: "abs_set tiny_memory tiny_map = {0, 4, 5}"
  using tiny_bits by (auto simp: abs_set_def)

section \<open>Search and allocation\<close>

text \<open>
  C27: \<open>RtlFindClearBits\<close> and \<open>RtlFindSetBits\<close> return the first run of the length asked for that
  starts at the hint or behind it and lies inside the map, else the first such run of the map, and
  \<open>RTL_INVALID_INDEX\<close> if there is none.  This holds for each of the four strategies and for both
  alignments of the buffer, with nothing mapped but the chunks of the map.
\<close>

theorem find_bits_first_fit:
  assumes "bm_ok m bm" "bm_size bm + 32 < 2 ^ 32" "0 < NumberToFind" "unat HintIndex + unat NumberToFind < 2 ^ 32"
  shows "RtlFindClearBits m bm NumberToFind HintIndex
      = Some (index_of (hint_fit (\<lambda>i. \<not> bm_bit m bm i) (unat NumberToFind) (unat HintIndex) (bm_size bm)))
    \<and> RtlFindSetBits m bm NumberToFind HintIndex
      = Some (index_of (hint_fit (bm_bit m bm) (unat NumberToFind) (unat HintIndex) (bm_size bm)))"
  using FindBits_fit [OF assms, of False] FindBits_fit [OF assms, of True] by (simp add: RtlFindClearBits_def RtlFindSetBits_def)

lemma tiny_fits:
  "hint_fit (\<lambda>i. \<not> bm_bit tiny_memory tiny_map i) 3 5 8 = Some 1"
  "hint_fit (bm_bit tiny_memory tiny_map) 2 2 8 = Some 4"
  by (simp_all add: hint_fit_def fit_def run_at_def upt_conv_Cons tiny_bits del: tiny_bit)

theorem find_bits_first_fit_witness:
  "bm_ok tiny_memory tiny_map \<and> RtlFindClearBits tiny_memory tiny_map 3 5 = Some 1 \<and> RtlFindSetBits tiny_memory tiny_map 2 2 = Some 4"
  using find_bits_first_fit [of tiny_memory tiny_map 3 5] find_bits_first_fit [of tiny_memory tiny_map 2 2] tiny_fits
  by (simp add: index_of_def)

text \<open>The two combined operations share the search and the change of the range it finds.\<close>

lemma found_bits:
  assumes "hint_fit P n h sz = Some b"
  shows "b + n \<le> sz" "run_at P n b"
  using assms by (auto simp: hint_fit_def fit_Some split: option.splits)

lemma index_of_valid:
  assumes "hint_fit P n h sz = Some b" "0 < n" "sz < 2 ^ 32"
  shows "index_of (hint_fit P n h sz) = word_of_nat b" "unat (word_of_nat b :: ULONG) = b" "(word_of_nat b :: ULONG) \<noteq> 0xFFFFFFFF"
proof -
  have b: "b < 2 ^ 32 - 1" using found_bits(1) [OF assms(1)] assms(2,3) by simp
  then show "unat (word_of_nat b :: ULONG) = b" by (intro unat_index) simp
  then show "(word_of_nat b :: ULONG) \<noteq> 0xFFFFFFFF" using b by (auto simp: word_unat_eq_iff)
qed (simp add: index_of_def assms)

lemma alloc_run:
  assumes "bm_ok m bm" "bm_size bm + 32 < 2 ^ 32" "0 < NumberToFind" "unat HintIndex + unat NumberToFind < 2 ^ 32"
  shows "case hint_fit (\<lambda>i. \<not> bm_bit m bm i) (unat NumberToFind) (unat HintIndex) (bm_size bm) of
      None \<Rightarrow> RtlFindClearBitsAndSet m bm NumberToFind HintIndex = Some (RTL_INVALID_INDEX, m)
    | Some b \<Rightarrow> (\<exists>m'. RtlFindClearBitsAndSet m bm NumberToFind HintIndex = Some (word_of_nat b, m')
        \<and> bits_set_to m (8 * buf bm + b) (unat NumberToFind) (\<lambda>_. True) m'
        \<and> b + unat NumberToFind \<le> bm_size bm \<and> unat (word_of_nat b :: ULONG) = b
        \<and> run_at (\<lambda>i. \<not> bm_bit m bm i) (unat NumberToFind) b)"
proof (cases "hint_fit (\<lambda>i. \<not> bm_bit m bm i) (unat NumberToFind) (unat HintIndex) (bm_size bm)")
  case None
  then have "RtlFindClearBits m bm NumberToFind HintIndex = Some RTL_INVALID_INDEX"
    using FindBits_fit [OF assms, of False] by (simp add: RtlFindClearBits_def index_of_def)
  then show ?thesis using None by (simp add: RtlFindClearBitsAndSet_def RTL_INVALID_INDEX_def)
next
  case (Some b)
  have n: "0 < unat NumberToFind" "bm_size bm < 2 ^ 32" using assms(2,3) by (simp_all add: word_gt_0 unat_gt_0)
  note iv = index_of_valid [OF Some n]
  have find: "RtlFindClearBits m bm NumberToFind HintIndex = Some (word_of_nat b)"
    using FindBits_fit [OF assms, of False] iv(1) by (simp add: RtlFindClearBits_def)
  obtain m' where m': "RtlSetBits m bm (word_of_nat b) NumberToFind = Some m'" "bits_set_to m (8 * buf bm + b) (unat NumberToFind) (\<lambda>_. True) m'"
    using SetBits_set [OF assms(1), of "word_of_nat b" NumberToFind] found_bits(1) [OF Some] by (auto simp: iv(2))
  show ?thesis using Some find iv(2,3) m' found_bits [OF Some] by (simp add: RtlFindClearBitsAndSet_def)
qed

text \<open>
  C28: \<open>RtlFindClearBitsAndSet\<close> allocates: when the map has a run of clear bits it reports the first
  fit, sets exactly the bits of that run, which were all clear, and changes no other bit of memory;
  when there is none it reports that and changes nothing.
\<close>

theorem alloc_takes_the_run:
  assumes "bm_ok m bm" "bm_size bm + 32 < 2 ^ 32" "0 < NumberToFind" "unat HintIndex + unat NumberToFind < 2 ^ 32"
  shows "case hint_fit (\<lambda>i. \<not> bm_bit m bm i) (unat NumberToFind) (unat HintIndex) (bm_size bm) of
      None \<Rightarrow> RtlFindClearBitsAndSet m bm NumberToFind HintIndex = Some (RTL_INVALID_INDEX, m)
    | Some b \<Rightarrow> (\<exists>m'. RtlFindClearBitsAndSet m bm NumberToFind HintIndex = Some (word_of_nat b, m')
        \<and> b + unat NumberToFind \<le> bm_size bm \<and> abs_set m bm \<inter> {b..<b + unat NumberToFind} = {}
        \<and> bm_ok m' bm \<and> abs_set m' bm = abs_set m bm \<union> {b..<b + unat NumberToFind}
        \<and> keeps_others m m' (8 * buf bm + b) (unat NumberToFind))"
proof (cases "hint_fit (\<lambda>i. \<not> bm_bit m bm i) (unat NumberToFind) (unat HintIndex) (bm_size bm)")
  case None
  then show ?thesis using alloc_run [OF assms] by simp
next
  case (Some b)
  obtain m' where m': "RtlFindClearBitsAndSet m bm NumberToFind HintIndex = Some (word_of_nat b, m')"
      "bits_set_to m (8 * buf bm + b) (unat NumberToFind) (\<lambda>_. True) m'"
    and b: "b + unat NumberToFind \<le> bm_size bm" "run_at (\<lambda>i. \<not> bm_bit m bm i) (unat NumberToFind) b"
    using alloc_run [OF assms] Some by auto
  have "abs_set m bm \<inter> {b..<b + unat NumberToFind} = {}" using run_atD [OF b(2)] by (auto simp: abs_set_def)
  then show ?thesis
    using Some m' b(1) bits_bm_ok [OF m'(2) assms(1)] bits_abs_set [OF m'(2) b(1)] bits_keeps [OF m'(2)] by auto
qed

theorem alloc_takes_the_run_witness:
  "\<exists>m'. RtlFindClearBitsAndSet tiny_memory tiny_map 3 5 = Some (1, m') \<and> abs_set m' tiny_map = {0, 1, 2, 3, 4, 5}"
proof -
  have "{0, 4, 5} \<union> {1..<1 + 3} = {0, 1, 2, 3, 4, 5 :: nat}" by auto
  then show ?thesis using alloc_takes_the_run [of tiny_memory tiny_map 3 5] tiny_fits(1) by auto
qed

text \<open>The bits of the granules and the mapped granules determine the memory.\<close>

lemma memory_eqI:
  assumes "dom m' = dom m" "\<And>i. mbit m' i = mbit m i"
  shows "m' = m"
proof
  fix g
  show "m' g = m g"
  proof (cases "m g")
    case None
    then show ?thesis using assms(1) by auto
  next
    case (Some c)
    then obtain c' where c': "m' g = Some c'" using assms(1) by (metis domD domI)
    have "bit c' j = bit c j" if "j < 64" for j using assms(2) [of "64 * g + j"] Some c' that by (simp add: mbit_iff)
    then have "c' = c" by (intro bit_word_eqI) simp
    then show ?thesis using Some c' by simp
  qed
qed

text \<open>
  C29: freeing what was allocated restores memory: after \<open>RtlFindClearBitsAndSet\<close> reported a run,
  \<open>RtlClearBits\<close> on that run gives the memory from before, bit for bit.
\<close>

theorem alloc_free_round_trip:
  assumes "bm_ok m bm" "bm_size bm + 32 < 2 ^ 32" "0 < NumberToFind" "unat HintIndex + unat NumberToFind < 2 ^ 32"
    and "RtlFindClearBitsAndSet m bm NumberToFind HintIndex = Some (StartingIndex, m')" "StartingIndex \<noteq> RTL_INVALID_INDEX"
  shows "RtlClearBits m' bm StartingIndex NumberToFind = Some m"
proof (cases "hint_fit (\<lambda>i. \<not> bm_bit m bm i) (unat NumberToFind) (unat HintIndex) (bm_size bm)")
  case None
  then show ?thesis using assms alloc_run [OF assms(1-4)] by simp
next
  case (Some b)
  obtain m1 where m1: "RtlFindClearBitsAndSet m bm NumberToFind HintIndex = Some (word_of_nat b, m1)"
      "bits_set_to m (8 * buf bm + b) (unat NumberToFind) (\<lambda>_. True) m1"
    and b: "b + unat NumberToFind \<le> bm_size bm" "unat (word_of_nat b :: ULONG) = b" "run_at (\<lambda>i. \<not> bm_bit m bm i) (unat NumberToFind) b"
    using alloc_run [OF assms(1-4)] Some by auto
  then have eq: "StartingIndex = word_of_nat b" "m' = m1" using assms(5) by simp_all
  obtain m2 where m2: "RtlClearBits m1 bm (word_of_nat b) NumberToFind = Some m2"
      "bits_set_to m1 (8 * buf bm + b) (unat NumberToFind) (\<lambda>_. False) m2"
    using ClearBits_set [OF bits_bm_ok [OF m1(2) assms(1)], of "word_of_nat b" NumberToFind] b(1) by (auto simp: b(2))
  have clear: "\<not> mbit m i" if "8 * buf bm + b \<le> i" "i < 8 * buf bm + b + unat NumberToFind" for i
    using run_atD [OF b(3), of "i - 8 * buf bm"] that by (simp add: bm_bit_def)
  have "m2 = m" using m1(2) m2(2) clear by (intro memory_eqI) (auto simp: bits_set_to_def)
  then show ?thesis using m2(1) eq by simp
qed

theorem alloc_free_round_trip_witness:
  "\<exists>m'. RtlFindClearBitsAndSet tiny_memory tiny_map 3 5 = Some (1, m') \<and> RtlClearBits m' tiny_map 1 3 = Some tiny_memory"
proof -
  obtain m' where m': "RtlFindClearBitsAndSet tiny_memory tiny_map 3 5 = Some (1, m')"
    using alloc_run [of tiny_memory tiny_map 3 5] tiny_fits(1) by auto
  then have "RtlClearBits m' tiny_map 1 3 = Some tiny_memory"
    by (intro alloc_free_round_trip [of tiny_memory tiny_map 3 5 1 m']) (simp_all add: RTL_INVALID_INDEX_def)
  then show ?thesis using m' by blast
qed

section \<open>Refinement\<close>





section \<open>Queries\<close>

lemma all_bits_set:
  assumes "e \<le> bm_size bm"
  shows "all_bits m True (8 * buf bm + s) (8 * buf bm + e) \<longleftrightarrow> {s..<e} \<subseteq> abs_set m bm"
    and "all_bits m False (8 * buf bm + s) (8 * buf bm + e) \<longleftrightarrow> {s..<e} \<inter> abs_set m bm = {}"
proof -
  have "all_bits m x (8 * buf bm + s) (8 * buf bm + e) \<longleftrightarrow> (\<forall>i\<in>{s..<e}. bm_bit m bm i = x)" for x
  proof
    assume "all_bits m x (8 * buf bm + s) (8 * buf bm + e)"
    then show "\<forall>i\<in>{s..<e}. bm_bit m bm i = x" by (simp add: all_bits_iff bm_bit_def)
  next
    assume all: "\<forall>i\<in>{s..<e}. bm_bit m bm i = x"
    have "mbit m i = x" if "8 * buf bm + s \<le> i" "i < 8 * buf bm + e" for i
    proof -
      have "i - 8 * buf bm \<in> {s..<e}" "8 * buf bm + (i - 8 * buf bm) = i" using that by auto
      then show ?thesis using all unfolding bm_bit_def by metis
    qed
    then show "all_bits m x (8 * buf bm + s) (8 * buf bm + e)" by (simp add: all_bits_iff)
  qed
  then show "all_bits m True (8 * buf bm + s) (8 * buf bm + e) \<longleftrightarrow> {s..<e} \<subseteq> abs_set m bm"
    "all_bits m False (8 * buf bm + s) (8 * buf bm + e) \<longleftrightarrow> {s..<e} \<inter> abs_set m bm = {}"
    using assms by (auto simp: abs_set_def)
qed

text \<open>
  C32: the tests agree with the set: \<open>RtlTestBit\<close> and \<open>RtlCheckBit\<close> report membership for bit
  numbers below \<open>2 ^ 31\<close>, and \<open>RtlAreBitsSet\<close> and \<open>RtlAreBitsClear\<close> whether a range that is not
  empty, ends inside the map and is not so long that its end wraps around is contained in the set
  or disjoint from it.
\<close>

theorem bit_tests:
  assumes "bm_ok m bm"
  shows "(\<forall>BitNumber. unat BitNumber < min (bm_size bm) (2 ^ 31) \<longrightarrow>
        RtlTestBit m bm BitNumber = Some (unat BitNumber \<in> abs_set m bm)
        \<and> RtlCheckBit m bm BitNumber = Some (unat BitNumber \<in> abs_set m bm))
    \<and> (\<forall>StartingIndex Count. unat StartingIndex + unat Count < 2 ^ 32 \<longrightarrow>
        RtlAreBitsSet m bm StartingIndex Count
          = Some (0 < Count \<and> unat StartingIndex + unat Count \<le> bm_size bm
              \<and> {unat StartingIndex..<unat StartingIndex + unat Count} \<subseteq> abs_set m bm)
        \<and> RtlAreBitsClear m bm StartingIndex Count
          = Some (0 < Count \<and> unat StartingIndex + unat Count \<le> bm_size bm
              \<and> {unat StartingIndex..<unat StartingIndex + unat Count} \<inter> abs_set m bm = {}))"
proof -
  have pos: "0 < w \<longleftrightarrow> 0 < unat w" for w :: ULONG by (simp add: word_gt_0 unat_gt_0)
  show ?thesis
  proof (intro conjI allI impI, goal_cases)
    case (3 s n)
    then show ?case using AreBits_all [OF assms 3, of True] all_bits_set(1) [of "unat s + unat n" bm m "unat s"]
      by (auto simp: RtlAreBitsSet_def pos)
  next
    case (4 s n)
    then show ?case using AreBits_all [OF assms 4, of False] all_bits_set(2) [of "unat s + unat n" bm m "unat s"]
      by (auto simp: RtlAreBitsClear_def pos)
  qed (use TestBit_set [OF assms] in simp_all)
qed

theorem bit_tests_witness:
  "RtlTestBit tiny_memory tiny_map 4 = Some True \<and> RtlCheckBit tiny_memory tiny_map 6 = Some False
    \<and> RtlAreBitsSet tiny_memory tiny_map 4 2 = Some True \<and> RtlAreBitsSet tiny_memory tiny_map 4 3 = Some False
    \<and> RtlAreBitsClear tiny_memory tiny_map 1 3 = Some True \<and> RtlAreBitsClear tiny_memory tiny_map 6 3 = Some False"
proof -
  note test = conjunct1 [OF bit_tests [OF tiny_ok], rule_format] and range = conjunct2 [OF bit_tests [OF tiny_ok], rule_format]
  have "RtlTestBit tiny_memory tiny_map 4 = Some True" "RtlCheckBit tiny_memory tiny_map 6 = Some False"
    using test [of 4] test [of 6] by simp_all
  moreover have "RtlAreBitsSet tiny_memory tiny_map 4 2 = Some True" "RtlAreBitsSet tiny_memory tiny_map 4 3 = Some False"
    using range [of 4 2] range [of 4 3] atLeastLessThan_upt [of 4 6] atLeastLessThan_upt [of 4 7]
    by (simp_all add: upt_conv_Cons)
  moreover have "RtlAreBitsClear tiny_memory tiny_map 1 3 = Some True" "RtlAreBitsClear tiny_memory tiny_map 6 3 = Some False"
    using range [of 1 3] range [of 6 3] by auto
  ultimately show ?thesis by blast
qed

text \<open>
  C33: \<open>RtlNumberOfSetBits\<close> returns the number of set bits of the map and \<open>RtlNumberOfClearBits\<close> the
  number of clear ones, for a buffer on a quadword boundary or a map of more than 24 bits.  The
  only bits they change are those behind the map in its last byte, which they clear.
\<close>

theorem number_of_bits:
  assumes "bm_ok m bm" "bm_size bm + 7 < 2 ^ 32" "buf bm mod 8 = 0 \<or> 24 < bm_size bm"
  shows "\<exists>m'. RtlNumberOfSetBits m bm = Some (word_of_nat (card (abs_set m bm)), m')
    \<and> RtlNumberOfClearBits m bm = Some (word_of_nat (card ({..<bm_size bm} - abs_set m bm)), m')
    \<and> abs_set m' bm = abs_set m bm \<and> dom m' = dom m
    \<and> (\<forall>i. mbit m' i = (mbit m i \<and> \<not> (8 * buf bm + bm_size bm \<le> i \<and> i < 8 * buf bm + 8 * bm_bytes bm)))"
proof -
  obtain m' where m': "RtlNumberOfSetBits m bm = Some (word_of_nat (card (abs_set m bm)), m')"
      "bits_set_to m (8 * buf bm + bm_size bm) (8 * bm_bytes bm - bm_size bm) (\<lambda>_. False) m'"
    using NumberOfSetBits_counts [OF assms] by blast
  have le: "bm_size bm \<le> 8 * bm_bytes bm" unfolding bm_bytes_def by linarith
  have sub: "abs_set m bm \<subseteq> {..<bm_size bm}" by (auto simp: abs_set_def)
  then have card: "card (abs_set m bm) \<le> bm_size bm" using card_mono [OF finite_lessThan sub] by simp
  have "card ({..<bm_size bm} - abs_set m bm) = bm_size bm - card (abs_set m bm)"
    by (simp add: card_Diff_subset [OF finite_subset [OF sub finite_lessThan] sub])
  then have "SizeOfBitMap bm - word_of_nat (card (abs_set m bm)) = word_of_nat (card ({..<bm_size bm} - abs_set m bm))"
    using card by (simp add: of_nat_diff) (simp add: bm_size_def)
  then have "RtlNumberOfClearBits m bm = Some (word_of_nat (card ({..<bm_size bm} - abs_set m bm)), m')"
    using m'(1) by (simp add: RtlNumberOfClearBits_def)
  moreover have "abs_set m' bm = abs_set m bm" using m'(2) by (auto simp: bits_set_to_def abs_set_def bm_bit_def)
  moreover have "mbit m' i = (mbit m i \<and> \<not> (8 * buf bm + bm_size bm \<le> i \<and> i < 8 * buf bm + 8 * bm_bytes bm))" for i
    using m'(2) le by (auto simp: bits_set_to_def)
  ultimately show ?thesis using m' by (auto simp: bits_set_to_def)
qed

theorem number_of_bits_witness:
  "\<exists>m'. RtlNumberOfSetBits tiny_memory tiny_map = Some (3, m') \<and> RtlNumberOfClearBits tiny_memory tiny_map = Some (5, m')"
proof -
  have "card {0, 4, 5 :: nat} = 3" "card ({..<8} - {0, 4, 5 :: nat}) = 5" by (simp_all add: card_Diff_subset)
  then show ?thesis using number_of_bits [of tiny_memory tiny_map] by auto
qed

text \<open>
  C34: \<open>RtlpNumberOfSetBitsInChunk\<close> computes with additions inside one word and a multiplication
  what a count of the bits one by one gives, for every chunk.
\<close>

theorem popcount_exact: "RtlpNumberOfSetBitsInChunk Target = word_of_nat (length (filter (bit Target) [0..<64]))"
proof -
  have "{i. i < 64 \<and> bit Target i} = set (filter (bit Target) [0..<64])" by auto
  then have "card {i. i < 64 \<and> bit Target i} = length (filter (bit Target) [0..<64])"
    using distinct_card [of "filter (bit Target) [0..<64]"] by simp
  then show ?thesis using chunk_popcount [of Target] by (metis of_nat_of_unat)
qed

section \<open>Scans\<close>

text \<open>
  C35: \<open>RtlFindNextForwardRunClear\<close> returns the length and the start of the first run of clear bits
  at or behind the given bit: the bits before the run are set, those of the run are clear, and the
  run ends at a set bit or with the map; without such a run the length is zero and the start is
  the size of the map.  \<open>RtlFindFirstRunClear\<close> is the same from bit 0.
\<close>

theorem next_forward_run:
  assumes "bm_ok m bm" "bm_size bm < 2 ^ 31" "unat FromIndex < bm_size bm"
  shows "\<exists>Start End. RtlFindNextForwardRunClear m bm FromIndex = Some (word_of_nat (End - Start), word_of_nat Start)
    \<and> (FromIndex = 0 \<longrightarrow> RtlFindFirstRunClear m bm = Some (word_of_nat (End - Start), word_of_nat Start))
    \<and> unat FromIndex \<le> Start \<and> Start \<le> End \<and> End \<le> bm_size bm \<and> (Start = End \<longrightarrow> Start = bm_size bm)
    \<and> {unat FromIndex..<Start} \<subseteq> abs_set m bm \<and> {Start..<End} \<inter> abs_set m bm = {} \<and> (End < bm_size bm \<longrightarrow> End \<in> abs_set m bm)"
proof -
  define S where "S = next_bit (bm_bit m bm) True (bm_size bm) (unat FromIndex)"
  define E where "E = next_bit (bm_bit m bm) False (bm_size bm) S"
  note s = next_bit_cases [of "unat FromIndex" "bm_size bm" "bm_bit m bm" True, OF less_imp_le [OF assms(3)], folded S_def]
  note e = next_bit_cases [of S "bm_size bm" "bm_bit m bm" False, OF s(2), folded E_def]
  have run: "RtlFindNextForwardRunClear m bm FromIndex = Some (word_of_nat (E - S), word_of_nat S)"
    unfolding S_def E_def by (rule NextForward_run [OF assms])
  have "S = bm_size bm" if "S = E" using s(2,4) e(4) that by (cases "S < bm_size bm") auto
  then show ?thesis using run s e
    by (intro exI [of _ S] exI [of _ E]) (auto simp: abs_set_def RtlFindFirstRunClear_def)
qed

theorem next_forward_run_witness:
  "RtlFindNextForwardRunClear tiny_memory tiny_map 4 = Some (2, 6) \<and> RtlFindFirstRunClear tiny_memory tiny_map = Some (3, 1)"
proof -
  have run: "(\<exists>S E. r S E \<and> f \<le> S \<and> S \<le> E \<and> E \<le> 8 \<and> (S = E \<longrightarrow> S = 8) \<and> {f..<S} \<subseteq> {0, 4, 5} \<and> {S..<E} \<inter> {0, 4, 5} = {}
      \<and> (E < 8 \<longrightarrow> E \<in> {0, 4, 5})) \<Longrightarrow> f = 4 \<and> s = 6 \<and> e = 8 \<or> f = 0 \<and> s = 1 \<and> e = 4 \<Longrightarrow> r s e" for r and f s e :: nat
  proof (elim exE conjE)
    fix S E
    assume r: "r S E" and le: "f \<le> S" "S \<le> E" "E \<le> 8" and full: "S = E \<longrightarrow> S = 8" and before: "{f..<S} \<subseteq> {0, 4, 5}"
      and inside: "{S..<E} \<inter> {0, 4, 5} = {}" and stop: "E < 8 \<longrightarrow> E \<in> {0, 4, 5}"
      and f: "f = 4 \<and> s = 6 \<and> e = 8 \<or> f = 0 \<and> s = 1 \<and> e = 4"
    have S: "S = 8 \<or> S \<notin> {0, 4, 5}" using inside full le by (cases "S = E") auto
    have x: "x \<in> {0, 4, 5}" if "f \<le> x" "x < S" for x using before that by auto
    have "S \<le> 6" "f = 0 \<longrightarrow> S \<le> 1" using x [of 6] x [of 1] f by force+
    then have "S = s" using f le(1) S by (elim disjE) auto
    moreover have "4 \<notin> {S..<E}" using inside by auto
    then have "E = e" using f le stop full \<open>S = s\<close> by auto
    ultimately show "r s e" using r by simp
  qed
  have u: "unat (4 :: ULONG) = 4" "unat (0 :: ULONG) = 0" "(8::nat) < 2 ^ 31" "(4::nat) < 8" "(0::nat) < 8" by simp_all
  note at4 = next_forward_run [OF tiny_ok, of 4, unfolded tiny_buf tiny_set u(1), OF u(3,4)]
    and at0 = next_forward_run [OF tiny_ok, of 0, unfolded tiny_buf tiny_set u(2), OF u(3,5)]
  have "RtlFindNextForwardRunClear tiny_memory tiny_map 4 = Some (word_of_nat (8 - 6), word_of_nat 6)"
    by (rule run [of "\<lambda>S E. RtlFindNextForwardRunClear tiny_memory tiny_map 4 = Some (word_of_nat (E - S), word_of_nat S)" 4])
      (use at4 in blast, simp)
  moreover have "RtlFindFirstRunClear tiny_memory tiny_map = Some (word_of_nat (4 - 1), word_of_nat 1)"
    by (rule run [of "\<lambda>S E. RtlFindFirstRunClear tiny_memory tiny_map = Some (word_of_nat (E - S), word_of_nat S)" 0])
      (use at0 in blast, simp)
  ultimately show ?thesis by simp
qed

text \<open>
  C36: \<open>RtlFindLastBackwardRunClear\<close> returns the length and the start of the last run of clear bits
  at or before the given bit, when there is a clear bit there: the bits behind the run up to the
  given one are set, those of the run are clear, and a set bit or the start of the map precedes it.
\<close>

theorem last_backward_run:
  assumes "bm_ok m bm" "bm_size bm < 2 ^ 31" "unat FromIndex < bm_size bm" "{..unat FromIndex} - abs_set m bm \<noteq> {}"
  shows "\<exists>Start End. RtlFindLastBackwardRunClear m bm FromIndex = Some (word_of_nat (End - Start), word_of_nat Start)
    \<and> Start < End \<and> End \<le> Suc (unat FromIndex) \<and> {End..unat FromIndex} \<subseteq> abs_set m bm
    \<and> {Start..<End} \<inter> abs_set m bm = {} \<and> (0 < Start \<longrightarrow> Start - 1 \<in> abs_set m bm)"
proof -
  obtain c where c: "\<not> bm_bit m bm c" "c \<le> unat FromIndex" using assms(3,4) by (auto simp: abs_set_def)
  define F where "F = last_end (bm_bit m bm) True (unat FromIndex + 1)"
  define S where "S = last_end (bm_bit m bm) False (F - 1)"
  note f = last_end_cases [of "bm_bit m bm" True "unat FromIndex + 1", folded F_def]
  note s = last_end_cases [of "bm_bit m bm" False "F - 1", folded S_def]
  have F: "0 < F" using f(2) c by (metis le0 less_Suc_eq_le not_gr_zero Suc_eq_plus1)
  have "RtlFindLastBackwardRunClear m bm FromIndex = Some (word_of_nat (F - 1 + 1 - S), word_of_nat S)"
    unfolding F_def S_def by (rule LastBackward_run [OF assms(1-3) c])
  then have run: "RtlFindLastBackwardRunClear m bm FromIndex = Some (word_of_nat (F - S), word_of_nat S)" using F by simp
  have "i \<in> abs_set m bm" if "F \<le> i" "i \<le> unat FromIndex" for i using f(2) that assms(3) by (simp add: abs_set_def)
  moreover have "\<not> bm_bit m bm i" if "S \<le> i" "i < F" for i using s(2) f(3) F that by (cases "i = F - 1") auto
  moreover have "0 < S \<longrightarrow> S - 1 \<in> abs_set m bm" using s(1,3) f(1) assms(3) by (auto simp: abs_set_def)
  ultimately show ?thesis
    using run F f(1) s(1) by (intro exI [of _ S] exI [of _ F]) (auto simp: abs_set_def)
qed

theorem last_backward_run_witness:
  "RtlFindLastBackwardRunClear tiny_memory tiny_map 5 = Some (3, 1)"
proof -
  have u: "unat (5 :: ULONG) = 5" "(8::nat) < 2 ^ 31" "(5::nat) < 8" by simp_all
  have "1 \<in> {..5} - {0, 4, 5 :: nat}" by simp
  then have n: "{..5} - {0, 4, 5} \<noteq> ({} :: nat set)" by blast
  obtain S E where r: "RtlFindLastBackwardRunClear tiny_memory tiny_map 5 = Some (word_of_nat (E - S), word_of_nat S)"
    and c: "S < E" "E \<le> Suc 5" "{E..5} \<subseteq> {0, 4, 5}" "{S..<E} \<inter> {0, 4, 5} = {}" "0 < S \<longrightarrow> S - 1 \<in> {0, 4, 5}"
    using last_backward_run [OF tiny_ok, of 5, unfolded tiny_buf tiny_set u(1), OF u(2,3) n] by blast
  have "E - 1 \<notin> {0, 4, 5}" "0 \<notin> {S..<E}" "4 \<notin> {S..<E}" using c(1,4) by auto
  moreover have "3 \<in> {E..5} \<Longrightarrow> 3 \<in> {0, 4, 5 :: nat}" using c(3) by blast
  then have "3 \<notin> {E..5}" by auto
  ultimately have "E = 4" "S = 1" using c(1,2,5) by auto
  then show ?thesis using r by simp
qed

section \<open>The ends of a 64-bit set\<close>

text \<open>
  C37: \<open>RtlFindMostSignificantBit\<close> and \<open>RtlFindLeastSignificantBit\<close> return the greatest and the least
  number of a set bit, and -1 for the empty set; as signed characters the results are exact.
\<close>

theorem significant_bits:
  "sint (RtlFindMostSignificantBit Set) = (if Set = 0 then - 1 else int (Max {i. bit Set i}))
    \<and> sint (RtlFindLeastSignificantBit Set) = (if Set = 0 then - 1 else int (Min {i. bit Set i}))"
proof (cases "Set = 0")
  case True
  then show ?thesis
    by (simp add: RtlFindMostSignificantBit_def RtlFindLeastSignificantBit_def BitScanForward64_iff(1) BitScanReverse64_iff(1)
        option.case_eq_if)
next
  case False
  have small: "sint (ucast (word_of_nat i :: ULONG) :: SCHAR) = int i" if "i < 64" for i
    using that by (simp add: sint_uint unsigned_ucast_eq unsigned_of_nat take_bit_nat_eq_self signed_take_bit_int_eq_self)
  obtain u d where ud: "BitScanReverse64 Set = Some u" "BitScanForward64 Set = Some d"
    using False BitScanForward64_iff(1) [of Set] BitScanReverse64_iff(1) [of Set] by auto
  obtain i where i: "i < 64" "u = word_of_nat i" "bit Set i" "\<forall>j. i < j \<longrightarrow> j < 64 \<longrightarrow> \<not> bit Set j"
    using BitScanReverse64_iff(2) [OF ud(1)] by blast
  obtain l where l: "l < 64" "d = word_of_nat l" "bit Set l" "\<forall>j<l. \<not> bit Set j"
    using BitScanForward64_iff(2) [OF ud(2)] by blast
  have bound: "j < 64" if "bit Set j" for j using bit_imp_le_length [OF that] by simp
  then have "{i. bit Set i} \<subseteq> {..<64}" by blast
  then have fin: "finite {i. bit Set i}" by (rule finite_subset) simp
  have "y \<le> i" if "y \<in> {i. bit Set i}" for y using that i(4) bound [of y] by (cases "i < y") auto
  then have "Max {i. bit Set i} = i" using i(3) fin by (intro Max_eqI) simp_all
  moreover have "l \<le> y" if "y \<in> {i. bit Set i}" for y using that l(4) by (cases "y < l") auto
  then have "Min {i. bit Set i} = l" using l(3) fin by (intro Min_eqI) simp_all
  ultimately show ?thesis
    using False ud i(1,2) l(1,2) small by (simp add: RtlFindMostSignificantBit_def RtlFindLeastSignificantBit_def)
qed

end
