(* ===== verification/BitmapLimits.thy ===== *)
theory BitmapLimits
  imports BitmapProps
begin

text \<open>
  Inputs on which the bitmap routines of \<open>src/ntoskrnl/rtl/bitmap.c\<close> leave the map or miss a run,
  all of them because of 32-bit sums that wrap around or of a signed bit offset.  The theorems of
  \<open>BitmapProps\<close> exclude exactly these.
\<close>

text \<open>
  C39: the second range of the search ends at the hint plus the length.  When that sum wraps around,
  the range is too short and a run that exists is missed: in a map of 0xC0000000 clear bits the
  first fit for 0x80000000 bits is bit 0, but from the hint 0xA0000000 \<open>RtlFindClearBits\<close> reports
  that there is none.
\<close>

theorem search_wraps_around:
  assumes "SizeOfBitMap bm = 0xC0000000" "Buffer bm AND 4 = 0" "abs_set m bm = {}"
  shows "RtlFindClearBits m bm 0x80000000 0xA0000000 = Some RTL_INVALID_INDEX
    \<and> hint_fit (\<lambda>i. \<not> bm_bit m bm i) 0x80000000 0xA0000000 (bm_size bm) = Some 0"
proof -
  have miss: "RtlFindClearBits m bm 0x80000000 0xA0000000 = Some RTL_INVALID_INDEX"
    using assms by (simp add: RtlFindClearBits_def FindBits_def RtlpFindClearBitsRange_def RTL_INVALID_INDEX_def Let_def)
  have sz: "bm_size bm = 0xC0000000" using assms(1) by (simp add: bm_size_def)
  have "\<not> bm_bit m bm i" if "i < 0xC0000000" for i using assms(3) that by (auto simp: abs_set_def sz)
  then have "fit (\<lambda>i. \<not> bm_bit m bm i) 0x80000000 0 0xC0000000 = Some 0"
    by (auto simp: fit_Some run_at_iff none_before_def)
  moreover have "fit (\<lambda>i. \<not> bm_bit m bm i) 0x80000000 0xA0000000 0xC0000000 = None"
    by (auto simp: fit_None)
  ultimately have "hint_fit (\<lambda>i. \<not> bm_bit m bm i) 0x80000000 0xA0000000 (bm_size bm) = Some 0"
    by (simp add: hint_fit_def sz)
  with miss show ?thesis ..
qed

theorem search_wraps_around_witness:
  "RtlFindClearBits (\<lambda>_. Some 0) (RtlInitializeBitMap 0x1000 0xC0000000) 0x80000000 0xA0000000 = Some RTL_INVALID_INDEX
    \<and> bm_ok (\<lambda>_. Some 0) (RtlInitializeBitMap 0x1000 0xC0000000)"
proof -
  have "abs_set (\<lambda>_. Some 0) bm = {}" for bm by (simp add: abs_set_def bm_bit_def mbit_def)
  moreover have "bm_ok (\<lambda>_. Some 0) (RtlInitializeBitMap 0x1000 0xC0000000)"
    by (simp add: bm_ok_def list_all_iff mapped_def buf_def RtlInitializeBitMap_def)
  ultimately show ?thesis
    using search_wraps_around [of "RtlInitializeBitMap 0x1000 0xC0000000" "\<lambda>_. Some 0"] by (simp add: RtlInitializeBitMap_def)
qed

text \<open>
  C38: for a buffer that is longword but not quadword aligned and a map of at most 24 bits, the number
  of bytes of \<open>RtlNumberOfSetBits\<close> in whole chunks wraps around to almost \<open>2 ^ 32\<close>: it reads on behind the
  map and faults at the first unmapped granule.
\<close>

theorem set_bits_run_away:
  assumes "buf bm mod 8 = 4" "bm_size bm \<le> 24" "j < 2 ^ 29 - 1" "m ((buf bm + 4) div 8 + j) = None"
  shows "RtlNumberOfSetBits m bm = None"
  using assms by (rule NumberOfSetBits_runs_away)

theorem set_bits_run_away_witness:
  "bm_ok tiny_memory (RtlInitializeBitMap 0x1004 8) \<and> RtlNumberOfSetBits tiny_memory (RtlInitializeBitMap 0x1004 8) = None"
proof -
  have "(32800 + i) div 64 = (512::nat)" if "i < 8" for i using div_mult_self1 [of 64 "32 + i" 512] that by simp
  then have "bm_ok tiny_memory (RtlInitializeBitMap 0x1004 8)"
    by (simp add: bm_ok_def list_all_iff mapped_def buf_def bm_size_def RtlInitializeBitMap_def tiny_memory_def)
  then show ?thesis
    using set_bits_run_away [of "RtlInitializeBitMap 0x1004 8" 0 tiny_memory]
    by (simp add: buf_def bm_size_def RtlInitializeBitMap_def tiny_memory_def)
qed

text \<open>
  C40: the range check of \<open>RtlAreBitsClear\<close> and \<open>RtlAreBitsSet\<close> adds start and length in 32 bits.  A range
  that starts far outside the map passes it when the sum wraps around, and the byte at its start,
  512 MB behind the buffer, is read.
\<close>

theorem range_check_wraps_around:
  assumes "8 \<le> bm_size bm" "m ((buf bm + 0x1FFFFFFF) div 8) = None"
  shows "RtlAreBitsClear m bm 0xFFFFFFF8 16 = None \<and> RtlAreBitsSet m bm 0xFFFFFFF8 16 = None"
  using assms by (simp_all add: RtlAreBitsClear_def RtlAreBitsSet_def AreBits_def rd8_def bm_size_def word_less_nat_alt Let_def
      entry_def ZeroMask_def FillMask_def)

theorem range_check_wraps_around_witness:
  "bm_ok tiny_memory tiny_map \<and> RtlAreBitsClear tiny_memory tiny_map 0xFFFFFFF8 16 = None"
proof -
  have "tiny_memory ((buf tiny_map + 0x1FFFFFFF) div 8) = None" by (simp add: tiny_memory_def)
  then show ?thesis using range_check_wraps_around [of tiny_map tiny_memory] by simp
qed

text \<open>
  \<open>RtlTestBit\<close>, \<open>RtlSetBit\<close> and \<open>RtlClearBit\<close> pass the bit number on as a signed offset: from bit
  \<open>2 ^ 31\<close> on they access memory 256 MB before the buffer.
\<close>

lemma high_bit_before_buffer:
  assumes "2 ^ 28 \<le> buf bm" "m ((buf bm - 2 ^ 28) div 8) = None"
  shows "RtlTestBit m bm 0x80000000 = None" "RtlSetBit m bm 0x80000000 = None" "RtlClearBit m bm 0x80000000 = None"
proof -
  have "bt_cell bm 0x80000000 = buf bm - 2 ^ 28" using assms(1) by (simp add: bt_cell_def nat_diff_distrib)
  then show "RtlTestBit m bm 0x80000000 = None" "RtlSetBit m bm 0x80000000 = None" "RtlClearBit m bm 0x80000000 = None"
    using assms(2) by (simp_all add: RtlTestBit_def RtlSetBit_def RtlClearBit_def BitTest_def rd32_def)
qed

text \<open>
  \<open>RtlFindLastBackwardRunClear\<close> looks for a clear bit first.  When all bits up to the given one are
  set and lie in the first longword, it steps before the buffer and reads the longword there.
\<close>

lemma backward_scan_before_buffer:
  assumes "bm_ok m bm" "unat FromIndex < bm_size bm" "unat FromIndex < 32" "{..unat FromIndex} \<subseteq> abs_set m bm"
    and "4 \<le> buf bm" "m ((buf bm - 4) div 8) = None"
  shows "RtlFindLastBackwardRunClear m bm FromIndex = None"
proof -
  have al: "buf bm mod 4 = 0" and mp: "mapped m (8 * buf bm)" using assms(1,2) bm_mapped [OF assms(1), of 0] by (simp_all add: bm_ok_def)
  obtain v where v: "rd32 m (buf bm) = Some v" using rd32_mapped mp by blast
  have h: "unat (FromIndex div 32) = 0" "unat (FromIndex mod 32 + 1) = unat FromIndex + 1"
    using assms(3) by (simp_all add: unat_div_word unat_add_small unat_mod_word)
  have set: "bit v j" if "j \<le> unat FromIndex" for j
    using that assms(3,4) rd32_bits [OF al v, of j] by (auto simp: abs_set_def bm_bit_def)
  have f: "entry FillMaskUlong (unat FromIndex + 1) = Some (mask (unat FromIndex + 1))"
    using assms(3) by (intro FillMaskUlong_mask) simp
  have full: "v OR NOT (mask (unat FromIndex + 1)) = - 1"
    by (rule bit_word_eqI) (use set in \<open>auto simp: bit_simps\<close>)
  have hunk: "rdhunk m bm (- 1) = None" "rdhunk m bm 0 = Some v"
    using assms(5,6) v by (simp_all add: rdhunk_def rd32_def nat_diff_distrib)
  have "FromIndex mod 32 = FromIndex" using assms(3) by (intro word_eqI_unat) (simp add: unat_mod_word)
  then have e: "FromIndex - (FromIndex mod 32 + 1) = - 1" by simp
  have "SizeOfBitMap bm \<noteq> 0" using assms(2) by (auto simp: bm_size_def)
  then show ?thesis
    unfolding RtlFindLastBackwardRunClear_def Let_def h
    using full hunk f by (simp add: e HunksDown.simps BitsDown.simps)
qed

end
