(* ===== verification/Spec2Isabelle.thy ===== *)
theory Spec2Isabelle
  imports DeviceQueue TimeCalendar RundownInv RundownCacheProps BitmapLimits
begin

text \<open>
  A verification library for components of the OpenXP kernel, the NT kernel under \<open>src/ntoskrnl\<close>
  with the headers under \<open>src/sdk\<close>.  The model is the AMD64 configuration: \<open>ULONG\<close> and \<open>LONG\<close> are
  words of 32 bits, \<open>ULONG_PTR\<close> and pointers words of 64, and arithmetic wraps around as in C.

  \<^bold>\<open>The parts of the program.\<close>  Five components, each used by the drivers and managers of the kernel
  and none by another but the list package by the device queues:

  \<^item> the doubly linked lists of \<open>src/sdk/sdk/inc/ntrtl.h\<close> (\<open>LIST_ENTRY\<close>);
  \<^item> the device queue object, \<open>src/ntoskrnl/ke/devquobj.c\<close>;
  \<^item> the time conversions, \<open>src/ntoskrnl/rtl/time.c\<close>;
  \<^item> rundown protection, \<open>src/ntoskrnl/ex/rundown.c\<close> with the inline fast paths of
    \<open>src/ntoskrnl/inc/ex.h\<close>, on single words and on one word per processor;
  \<^item> the bitmaps, \<open>src/ntoskrnl/rtl/bitmap.c\<close>.

  \<^bold>\<open>Theories.\<close>  \<open>Prelude\<close> has the integer types, the readings of word operations as numbers (collection
  \<open>word_views\<close>) and the locale \<open>invariant_system\<close>: start states, steps, and a property that no step
  loses.  Every step relation below interprets it.

  \<open>ListEntry\<close> models the list functions, one definition each, on an explicit store of forward and
  backward links.  The locale \<open>list_package\<close> states what callers rely on, in terms of the list of
  entries that a head anchors; its interpretation \<open>le\<close> proves the laws for the store.

  \<open>DeviceQueue\<close> models every routine of \<open>devquobj.c\<close> on the memory \<open>devmem\<close> (links, sort keys, the
  \<open>Inserted\<close> and \<open>Busy\<close> marks and the search hint).  The loops over links are
  \<open>partial_function (option)\<close>: \<open>None\<close> is a loop that does not end, and the theorems show that
  the loops end.  Shown are the invariant of all sequences of calls by sort key, the place where
  an entry is inserted, that the search from the hint finds what the search from the head finds,
  and the case of equal keys in which it does not do what its comment says.

  \<open>TimeFields\<close> models the conversions, with the magic-number divisions on words.  \<open>TimeCalendar\<close> compares
  them with a Gregorian calendar that counts days year by year and month by month: exact divisions,
  table accesses in range for every 64-bit time, the round trips, the dates that are accepted, and
  the seconds since 1970 and 1980.

  \<open>Rundown\<close> models the routines on one word; each interlocked operation is one atomic step, and a
  retry loop is the turn of the loop with its place in the code (\<open>acq_turn\<close>, \<open>rel_turn\<close>).  \<open>RundownUsers\<close>
  interleaves any number of protecting threads (\<open>user_step\<close>) and states their contract with a
  rundown thread as the locale \<open>rundown_protocol\<close>.  Two bounds are part of that step relation: the
  counts passed to the \<open>Ex\<close> routines are below \<open>2 ^ 31\<close>, because the routines double them in 32
  bits, and fewer than \<open>2 ^ 62\<close> protections are asked for in all, so that the 64-bit word does not
  overflow.  \<open>RundownInv\<close> adds the rundown thread of a single word: a completed rundown has nothing
  outstanding, no protection is granted after it began, no dead wait block is touched, no wake-up is
  lost, and a blocked rundown can finish.

  \<open>RundownCache\<close> models the per-processor words, their allocation, and the rundown thread that marks
  them one by one, adds up, waits, completes and reinitializes.  \<open>ca_step\<close> is the relation of the
  code: clients and rundown thread interleave without restriction, and the wait may be called again
  after \<open>ExRundownCompletedCacheAware\<close>.  Two disciplines that the code does not enforce are
  separate relations.  \<open>ca_quiet\<close> excludes client steps while the words are being reinitialized;
  \<open>ca_once\<close> excludes also a second wait before the next reinitialization.  \<open>RundownCacheProps\<close> shows
  the layout of the words, under \<open>ca_quiet\<close> that a completed rundown has nothing outstanding and
  that no dead wait block is touched, under \<open>ca_once\<close> that every wait can finish, and for \<open>ca_step\<close>
  what goes wrong outside the disciplines: the second wait that never returns and the race of a
  client with the reinitialization.

  \<open>Memory\<close> is a memory of mapped aligned 64-bit granules, read and written at 8, 32 and 64 bits and
  seen as one string of bits; an access to an unmapped granule is \<open>None\<close>.  \<open>Bitmap\<close> models
  \<open>bitmap.c\<close> on it, with the four strategies of \<open>RtlpFindClearBitsRange\<close> as loops of their own.
  \<open>BitmapFind\<close>, \<open>BitmapFindLong\<close> and \<open>BitmapSearch\<close> show that each strategy and the search with a
  hint return the first fit.  \<open>BitmapRanges\<close> treats \<open>RtlSetBits\<close> and \<open>RtlClearBits\<close> together as
  interpretations of the locale \<open>range_filler\<close>; \<open>BitmapSets\<close> reads a bitmap as a set of numbers;
  \<open>BitmapCount\<close> and \<open>BitmapTotals\<close> show the counts, \<open>BitmapRuns\<close> and \<open>BitmapScan\<close> the tests and scans.
  \<open>BitmapProps\<close> has the properties, \<open>BitmapLimits\<close> the inputs outside of them.

  \<^bold>\<open>Bounds.\<close>  No loop has fuel.  Loops that may not end are \<open>partial_function (option)\<close>, and each
  property says that they return.  The hypotheses on sizes are those under which the 32-bit sums of
  the code do not wrap around; where the code does wrap, a lemma gives the input.

  \<^bold>\<open>Not modelled.\<close>  The pool allocator, the number of processors and the alignment the hardware
  asks for are parameters of the rundown model, the pool with the hypotheses it is documented to
  meet.  \<open>RtlCutoverTimeToSystemTime\<close> and the time zone routines of \<open>time.c\<close>, and \<open>RtlFindClearRuns\<close>
  with \<open>RtlFindLongestRunClear\<close> of \<open>bitmap.c\<close> are left out, as are assertions, which free builds
  do not compile.  The dispatcher, the memory manager, the I/O manager and the other parts of the
  kernel are not modelled: they depend on hardware, on paging or on devices.
\<close>

end
